(* ===== verification/Prelude.thy ===== *)
theory Prelude
  imports Main "HOL-Library.Word" "HOL-Library.Monad_Syntax"
begin

text \<open>
  Shared ground of the development: the machine types of the program, byte
  strings, checked array reads, and the lemma collections the components feed.
  An \<open>unsigned char\<close> is an \<open>8 word\<close>, an \<open>unsigned int\<close> a \<open>32 word\<close>, a
  \<open>uint64_t\<close> a \<open>64 word\<close>; a \<open>std::string\<close> and a \<open>char\<close> array are byte lists.
  A read outside an array is the value \<open>None\<close> of the option monad, so a result
  \<open>Some\<close> of a model also says that the code stayed inside its arrays.
\<close>

unbundle bit_operations_syntax

type_synonym byte = "8 word"
type_synonym u32 = "32 word"
type_synonym u64 = "64 word"
type_synonym bytes = "byte list"

named_theorems b64_simps "facts about the sextet alphabet"
named_theorems sha1_simps "facts about the state of a running SHA-1"
named_theorems frame_simps "facts about frame headers"
named_theorems io_simps "facts about the socket model"

section \<open>Byte strings\<close>

definition s2b :: "string \<Rightarrow> bytes" where
  "s2b = map of_char"

abbreviation CR :: byte where "CR \<equiv> 13"
abbreviation LF :: byte where "LF \<equiv> 10"
abbreviation NUL :: byte where "NUL \<equiv> 0"

lemma s2b_Nil [simp]: "s2b [] = []"
  by (simp add: s2b_def)

lemma s2b_Cons [simp]: "s2b (c # cs) = of_char c # s2b cs"
  by (simp add: s2b_def)

lemma length_s2b [simp]: "length (s2b cs) = length cs"
  by (simp add: s2b_def)

text \<open>A C string is what stands before the first NUL of its array.\<close>

definition c_str :: "bytes \<Rightarrow> bytes" where
  "c_str = takeWhile (\<lambda>b. b \<noteq> NUL)"

lemma c_str_id: "NUL \<notin> set xs \<Longrightarrow> c_str xs = xs"
  by (auto simp: c_str_def takeWhile_eq_all_conv)

lemma c_str_stop: "NUL \<notin> set xs \<Longrightarrow> c_str (xs @ NUL # ys) = xs"
  by (induction xs) (auto simp: c_str_def)

section \<open>Checked array reads\<close>

definition get :: "'a list \<Rightarrow> nat \<Rightarrow> 'a option" where
  "get xs i = (if i < length xs then Some (xs ! i) else None)"

lemma get_Some [simp]: "i < length xs \<Longrightarrow> get xs i = Some (xs ! i)"
  by (simp add: get_def)

lemma get_None [simp]: "length xs \<le> i \<Longrightarrow> get xs i = None"
  by (simp add: get_def)

text \<open>Writes of one byte, of a run, and reads of a run; outside the array they are \<open>None\<close>.\<close>

definition put_byte :: "nat \<Rightarrow> byte \<Rightarrow> bytes \<Rightarrow> bytes option" where
  "put_byte i b xs = (if i < length xs then Some (xs[i := b]) else None)"

definition slice :: "nat \<Rightarrow> nat \<Rightarrow> bytes \<Rightarrow> bytes option" where
  "slice i n xs = (if i + n \<le> length xs then Some (take n (drop i xs)) else None)"

definition put_bytes :: "nat \<Rightarrow> bytes \<Rightarrow> bytes \<Rightarrow> bytes option" where
  "put_bytes i ys xs = (if i + length ys \<le> length xs
     then Some (take i xs @ ys @ drop (i + length ys) xs) else None)"

text \<open>\<open>memcpy\<close> of \<open>n\<close> bytes between two arrays.\<close>

definition memcpy :: "bytes \<Rightarrow> nat \<Rightarrow> bytes \<Rightarrow> nat \<Rightarrow> nat \<Rightarrow> bytes option" where
  "memcpy dst di src si n = do { ys \<leftarrow> slice si n src; put_bytes di ys dst }"

lemma put_byte_in: "i < length xs \<Longrightarrow> put_byte i b xs = Some (xs[i := b])"
  by (simp add: put_byte_def)

lemma put_byte_at: "length ys = i \<Longrightarrow> put_byte i b (ys @ z # zs) = Some (ys @ b # zs)"
  by (auto simp: put_byte_def list_update_append)

lemma put_byte_Cons [simp]:
  "put_byte 0 b (x # xs) = Some (b # xs)"
  "put_byte (Suc i) b (x # xs) = map_option ((#) x) (put_byte i b xs)"
  "put_byte (numeral k) b (x # xs) = map_option ((#) x) (put_byte (pred_numeral k) b xs)"
  by (simp_all add: put_byte_def numeral_eq_Suc)

lemma slice_at: "length ys = i \<Longrightarrow> length xs = n \<Longrightarrow> slice i n (ys @ xs @ zs) = Some xs"
  by (simp add: slice_def)

lemma put_bytes_at:
  "length ys = i \<Longrightarrow> length old = length xs \<Longrightarrow> put_bytes i xs (ys @ old @ zs) = Some (ys @ xs @ zs)"
  by (simp add: put_bytes_def)

lemma memcpy_length: "memcpy dst di src si n = Some dst' \<Longrightarrow> length dst' = length dst"
  by (auto simp: memcpy_def slice_def put_bytes_def split: if_splits)

lemma memcpy_None:
  "memcpy dst di src si n = None \<longleftrightarrow> length src < si + n \<or> length dst < di + n"
  by (auto simp: memcpy_def slice_def put_bytes_def)

section \<open>Bytes as numbers\<close>

lemma byte_less: "unat (a :: byte) < 256"
  using unsigned_less [of a] by simp

lemma byte_bit_beyond: "8 \<le> n \<Longrightarrow> \<not> bit (a :: byte) n"
  using bit_imp_le_length by fastforce

lemma less_8: "n < 8 \<longleftrightarrow> n \<in> {0, 1, 2, 3, 4, 5, 6, 7 :: nat}"
  by auto

lemma byte_bits_eqI:
  fixes a b :: byte
  assumes "bit a 0 = bit b 0" "bit a 1 = bit b 1" "bit a 2 = bit b 2" "bit a 3 = bit b 3"
    "bit a 4 = bit b 4" "bit a 5 = bit b 5" "bit a 6 = bit b 6" "bit a 7 = bit b 7"
  shows "a = b"
  by (rule bit_word_eqI) (use assms in \<open>auto simp: less_8\<close>)

lemma unat_take_bit: "unat (take_bit n (w :: 'a::len word)) = unat w mod 2 ^ n"
  unfolding unsigned_take_bit_eq by (rule take_bit_eq_mod)

lemma unat_drop_bit: "unat (drop_bit n (w :: 'a::len word)) = unat w div 2 ^ n"
  unfolding unat_drop_bit_eq by (rule drop_bit_eq_div)

lemma unat_push_bit:
  "unat (push_bit n (w :: 'a::len word)) = unat w * 2 ^ n mod 2 ^ LENGTH('a)"
  unfolding unsigned_push_bit_eq by (simp add: take_bit_eq_mod push_bit_eq_mult)

lemmas unat_bits = unat_take_bit unat_drop_bit unat_push_bit unat_word_ariths

lemma byte_add_or:
  "(\<forall>n<8. \<not> (bit x n \<and> bit y n)) \<Longrightarrow> x + y = x OR y" for x y :: byte
  by (metis byte_bit_beyond disjunctive_add not_le)

text \<open>The masks of the code as bit fields.\<close>

lemma mask_low:
  "a AND 0x03 = take_bit 2 a" "a AND 0x0f = take_bit 4 a" "a AND 0x3f = take_bit 6 a"
  "a AND 0x7f = take_bit 7 a" for a :: byte
  by (simp_all add: take_bit_eq_mask mask_eq_exp_minus_1)

lemma mask_high:
  "drop_bit 2 (a AND 0xfc) = drop_bit 2 a" "drop_bit 4 (a AND 0xf0) = drop_bit 4 a"
  "drop_bit 6 (a AND 0xc0) = drop_bit 6 a"
  "drop_bit 4 (a AND 0x30) = take_bit 2 (drop_bit 4 a)"
  "drop_bit 2 (a AND 0x3c) = take_bit 4 (drop_bit 2 a)" for a :: byte
  by (rule byte_bits_eqI; simp add: bit_simps byte_bit_beyond)+

lemma and_ff: "ucast (w AND 0xFF) = (ucast w :: byte)" for w :: u32
  by (rule bit_word_eqI) (auto simp: bit_simps bit_numeral_rec less_8)

section \<open>Big-endian byte sequences\<close>

definition be32 :: "u32 \<Rightarrow> bytes" where
  "be32 w = [ucast (drop_bit 24 w), ucast (drop_bit 16 w), ucast (drop_bit 8 w), ucast w]"

lemma length_be32 [simp]: "length (be32 w) = 4"
  by (simp add: be32_def)

section \<open>Lists\<close>

lemma of_nat_unat_map: "map unat xs = ns \<Longrightarrow> xs = map of_nat ns"
  for xs :: "'a::len word list"
  by (auto simp: map_idI)

lemma replicate_small [simp]:
  "replicate 2 x = [x, x]" "replicate 3 x = [x, x, x]" "replicate 4 x = [x, x, x, x]"
  by (simp_all add: numeral_eq_Suc)

lemma plus_small:
  "n + 2 = Suc (Suc n)" "n + 3 = Suc (Suc (Suc n))" "n + 4 = Suc (Suc (Suc (Suc n)))"
  by simp_all

lemma list_3_cases:
  obtains (nil) "xs = []" | (one) a where "xs = [a]" | (two) a b where "xs = [a, b]"
    | (more) a b c ys where "xs = a # b # c # ys"
  by (metis neq_Nil_conv)

lemma list_4: "length xs = 4 \<Longrightarrow> \<exists>a b c d. xs = [a, b, c, d]"
proof -
  assume "length xs = 4"
  then have "length xs = Suc (Suc (Suc (Suc 0)))"
    by simp
  then show ?thesis
    by (auto simp: length_Suc_conv)
qed

lemma list_5: "length xs = 5 \<Longrightarrow> \<exists>a b c d e. xs = [a, b, c, d, e]"
proof -
  assume "length xs = 5"
  then have "length xs = Suc (Suc (Suc (Suc (Suc 0))))"
    by simp
  then show ?thesis
    by (auto simp: length_Suc_conv)
qed

lemma drop_eq_Cons: "i < length xs \<Longrightarrow> drop i xs = xs ! i # drop (Suc i) xs"
  by (rule Cons_nth_drop_Suc [symmetric])

lemma all_less_64:
  "(\<forall>i < 64. P i) \<longleftrightarrow> list_all P [0..<64]" for P :: "nat \<Rightarrow> bool"
  by (auto simp: list_all_iff)

end
