(* ===== verification/Base64_Ref.thy ===== *)
theory Base64_Ref
  imports Prelude
begin

text \<open>
  What a base64 codec promises: the encoding of RFC 4648 written over numbers (each
  group of three bytes is one number of 24 bits, cut into four sextets), and the
  locale that states the contract.  The server's codec (theory \<open>Base64\<close>) and the
  client's own one (theory \<open>Client_Base64\<close>) both interpret it, so every consequence
  of the contract is proved once.
\<close>

section \<open>The reference encoding\<close>

definition b64_alphabet :: bytes where
  "b64_alphabet = s2b ''ABCDEFGHIJKLMNOPQRSTUVWXYZabcdefghijklmnopqrstuvwxyz0123456789+/''"

definition is_b64 :: "byte \<Rightarrow> bool" where
  "is_b64 c \<longleftrightarrow> c \<in> set b64_alphabet"

definition group24 :: "byte \<Rightarrow> byte \<Rightarrow> byte \<Rightarrow> nat" where
  "group24 a b c = unat a * 65536 + unat b * 256 + unat c"

definition sextets :: "nat \<Rightarrow> nat list" where
  "sextets n = [n div 262144, n div 4096 mod 64, n div 64 mod 64, n mod 64]"

fun rfc4648 :: "bytes \<Rightarrow> bytes" where
  "rfc4648 [] = []"
| "rfc4648 [a] = map ((!) b64_alphabet) (take 2 (sextets (group24 a 0 0))) @ s2b ''==''"
| "rfc4648 [a, b] = map ((!) b64_alphabet) (take 3 (sextets (group24 a b 0))) @ s2b ''=''"
| "rfc4648 (a # b # c # bs) = map ((!) b64_alphabet) (sextets (group24 a b c)) @ rfc4648 bs"

lemma sextets_digits:
  assumes "q < 64" "r < 64" "s < 64"
  shows "sextets (p * 262144 + q * 4096 + r * 64 + s) = [p, q, r, s]"
proof -
  let ?n = "p * 262144 + q * 4096 + r * 64 + s"
  have digit: "(x * 64 + y) mod 64 = y" if "y < 64" for x y :: nat
    using that by simp
  have "?n div 262144 = p" "?n div 4096 = p * 64 + q" "?n div 64 = (p * 64 + q) * 64 + r"
    using assms by (auto intro!: div_nat_eqI)
  moreover have "?n = ((p * 64 + q) * 64 + r) * 64 + s"
    by simp
  ultimately show ?thesis
    using assms unfolding sextets_def by (simp only: digit)
qed

lemma regroup:
  "a = 4 * a1 + a0 \<Longrightarrow> b = 16 * b1 + b0 \<Longrightarrow> c = 64 * c1 + c0 \<Longrightarrow>
   a * 65536 + b * 256 + c = a1 * 262144 + (a0 * 16 + b1) * 4096 + (b0 * 4 + c1) * 64 + c0"
  for a b c :: nat
  by simp

lemma group24_digits:
  "group24 a b c = (unat a div 4) * 262144 + (unat a mod 4 * 16 + unat b div 16) * 4096
     + (unat b mod 16 * 4 + unat c div 64) * 64 + unat c mod 64"
  unfolding group24_def by (rule regroup) simp_all

lemma sextets_group24:
  "sextets (group24 a b c) = [unat a div 4, unat a mod 4 * 16 + unat b div 16,
     unat b mod 16 * 4 + unat c div 64, unat c mod 64]"
  unfolding group24_digits
  by (rule sextets_digits) (use byte_less [of b] byte_less [of c] in \<open>auto simp: less_mult_imp_div_less\<close>)

lemma sextets_cases:
  obtains p q r s where "sextets (group24 a b c) = [p, q, r, s]"
    "p < 64" "q < 64" "r < 64" "s < 64"
    "unat a = p * 4 + q div 16" "unat b = q mod 16 * 16 + r div 4" "unat c = r mod 4 * 64 + s"
proof
  show "unat a div 4 < 64" "unat a mod 4 * 16 + unat b div 16 < 64"
    "unat b mod 16 * 4 + unat c div 64 < 64"
    using byte_less [of a] byte_less [of b] byte_less [of c] by auto
  have 1: "(x mod 4 * 16 + y) div 16 = x mod 4" "(x mod 4 * 16 + y) mod 16 = y" if "y < 16" for x y :: nat
    using that by simp_all
  have 2: "(x mod 16 * 4 + y) div 4 = x mod 16" "(x mod 16 * 4 + y) mod 4 = y" if "y < 4" for x y :: nat
    using that by simp_all
  have b: "unat b div 16 < 16" and c: "unat c div 64 < 4"
    using byte_less [of b] byte_less [of c] by auto
  show "unat a = unat a div 4 * 4 + (unat a mod 4 * 16 + unat b div 16) div 16"
    by (simp add: 1 b)
  show "unat b = (unat a mod 4 * 16 + unat b div 16) mod 16 * 16
      + (unat b mod 16 * 4 + unat c div 64) div 4"
    by (simp add: 1 2 b c)
  show "unat c = (unat b mod 16 * 4 + unat c div 64) mod 4 * 64 + unat c mod 64"
    by (simp add: 2 c)
qed (simp_all add: sextets_group24)

lemma length_rfc4648: "length (rfc4648 bs) = 4 * ((length bs + 2) div 3)"
proof (induction bs rule: rfc4648.induct)
  case (4 a b c bs)
  have "(length (a # b # c # bs) + 2) div 3 = (length bs + 2) div 3 + 1"
    by simp
  with 4 show ?case by (simp add: sextets_def)
qed (auto simp: sextets_def)


text \<open>Every character of an encoding is one of the alphabet or the padding.\<close>

lemma length_alphabet [simp]: "length b64_alphabet = 64"
  by (simp add: b64_alphabet_def)

lemma set_rfc4648: "set (rfc4648 bs) \<subseteq> insert 61 (set b64_alphabet)"
proof -
  have "b64_alphabet ! i \<in> set b64_alphabet" if "i < 64" for i
    using that by simp
  moreover have "i < 64" if "i \<in> set (sextets (group24 a b c))" for i a b c
    by (rule sextets_cases [of a b c]) (use that in auto)
  ultimately have *: "b64_alphabet ! i \<in> set b64_alphabet"
    if "i \<in> set (sextets (group24 a b c))" for i a b c
    using that by blast
  show ?thesis
    by (induction bs rule: rfc4648.induct) (auto dest!: in_set_takeD *)
qed

section \<open>The contract of a codec\<close>

text \<open>
  Encoder and decoder return \<open>None\<close> where the code would read outside an array.
\<close>

locale base64_codec =
  fixes enc :: "bytes \<Rightarrow> bytes option" and dec :: "bytes \<Rightarrow> bytes option"
  assumes enc_ref: "enc bs = Some (rfc4648 bs)"
    and dec_ref: "dec (rfc4648 bs) = Some bs"
begin

lemma enc_total: "\<exists>cs. enc bs = Some cs \<and> length cs = 4 * ((length bs + 2) div 3)"
  by (simp add: enc_ref length_rfc4648)

lemma dec_enc: "enc bs \<bind> dec = Some bs"
  by (simp add: enc_ref dec_ref)

lemma enc_inj: "enc bs = enc bs' \<Longrightarrow> bs = bs'"
  by (metis dec_enc option.inject)

lemma enc_chars: "enc bs = Some cs \<Longrightarrow> c \<in> set cs \<Longrightarrow> c = 61 \<or> c \<in> set b64_alphabet"
  using set_rfc4648 [of bs] by (auto simp: enc_ref)

end

end
