(* ===== verification/Base64.thy ===== *)
theory Base64
  imports Base64_Ref
begin

text \<open>
  \<^verbatim>\<open>src/src/base64.cc\<close>: the encoder and decoder of the server, shown to
  compute the reference of \<open>Base64_Ref\<close> and its inverse.
\<close>

section \<open>The alphabet\<close>

definition base64_chars :: bytes where
  "base64_chars = s2b ''ABCDEFGHIJKLMNOPQRSTUVWXYZabcdefghijklmnopqrstuvwxyz0123456789+/''"

text \<open>\<open>std::string::find\<close> of one character; \<open>npos\<close> is \<open>None\<close>.\<close>

fun find_char :: "bytes \<Rightarrow> byte \<Rightarrow> nat option" where
  "find_char [] c = None"
| "find_char (x # xs) c = (if x = c then Some 0 else map_option Suc (find_char xs c))"

text \<open>The assignment of the position to an \<open>unsigned char\<close>: \<open>npos\<close> becomes 255.\<close>

definition sextet_of :: "byte \<Rightarrow> byte" where
  "sextet_of c = (case find_char base64_chars c of None \<Rightarrow> 255 | Some i \<Rightarrow> of_nat i)"

definition isalnum :: "byte \<Rightarrow> bool" where
  "isalnum c \<longleftrightarrow> 48 \<le> c \<and> c \<le> 57 \<or> 65 \<le> c \<and> c \<le> 90 \<or> 97 \<le> c \<and> c \<le> 122"

definition is_base64 :: "byte \<Rightarrow> bool" where
  "is_base64 c \<longleftrightarrow> isalnum c \<or> c = of_char CHR ''+'' \<or> c = of_char CHR ''/''"

section \<open>Encoding\<close>

definition quad_of :: "byte \<Rightarrow> byte \<Rightarrow> byte \<Rightarrow> bytes" where
  "quad_of a b c =
     [drop_bit 2 (a AND 0xfc),
      push_bit 4 (a AND 0x03) + drop_bit 4 (b AND 0xf0),
      push_bit 2 (b AND 0x0f) + drop_bit 6 (c AND 0xc0),
      c AND 0x3f]"

definition chars_at :: "bytes \<Rightarrow> bytes" where
  "chars_at = map (\<lambda>i. base64_chars ! unat i)"

fun base64_encode_loop :: "bytes \<Rightarrow> bytes \<Rightarrow> bytes \<Rightarrow> bytes \<times> bytes" where
  "base64_encode_loop [] arr ret = (arr, ret)"
| "base64_encode_loop (b # bs) arr ret =
     (let arr = arr @ [b] in
      if length arr = 3
      then base64_encode_loop bs [] (ret @ chars_at (quad_of (arr ! 0) (arr ! 1) (arr ! 2)))
      else base64_encode_loop bs arr ret)"

definition base64_encode :: "bytes \<Rightarrow> bytes" where
  "base64_encode bs =
     (let (arr, ret) = base64_encode_loop bs [] []; i = length arr in
      if i \<noteq> 0
      then let arr = arr @ replicate (3 - i) 0 in
           ret @ chars_at (take (i + 1) (quad_of (arr ! 0) (arr ! 1) (arr ! 2)))
               @ replicate (3 - i) (of_char CHR ''='')
      else ret)"

section \<open>Decoding\<close>

definition triple_of :: "byte \<Rightarrow> byte \<Rightarrow> byte \<Rightarrow> byte \<Rightarrow> bytes" where
  "triple_of p q r s =
     [push_bit 2 p + drop_bit 4 (q AND 0x30),
      push_bit 4 (q AND 0x0f) + drop_bit 2 (r AND 0x3c),
      push_bit 6 (r AND 0x03) + s]"

fun base64_decode_loop :: "bytes \<Rightarrow> bytes \<Rightarrow> bytes \<Rightarrow> bytes \<times> bytes" where
  "base64_decode_loop [] arr ret = (arr, ret)"
| "base64_decode_loop (c # cs) arr ret =
     (if c \<noteq> of_char CHR ''='' \<and> is_base64 c
      then let arr = arr @ [c] in
           if length arr = 4
           then let a = map sextet_of arr in
                base64_decode_loop cs [] (ret @ triple_of (a ! 0) (a ! 1) (a ! 2) (a ! 3))
           else base64_decode_loop cs arr ret
      else (arr, ret))"

text \<open>What the decoder does after its loop, as a function of the loop's result.\<close>

definition base64_decode_tail :: "bytes \<Rightarrow> bytes \<Rightarrow> bytes" where
  "base64_decode_tail arr ret =
     (let i = length arr in
      if i \<noteq> 0
      then let a = map sextet_of (arr @ replicate (4 - i) 0) in
           ret @ take (i - 1) (triple_of (a ! 0) (a ! 1) (a ! 2) (a ! 3))
      else ret)"

definition base64_decode :: "bytes \<Rightarrow> bytes" where
  "base64_decode cs = (let (arr, ret) = base64_decode_loop cs [] [] in base64_decode_tail arr ret)"

section \<open>Sextets and the alphabet\<close>

lemma base64_chars_alphabet: "base64_chars = b64_alphabet"
  by (simp add: base64_chars_def b64_alphabet_def)

lemma unat_quad_of: "map unat (quad_of a b c) = sextets (group24 a b c)"
  unfolding quad_of_def mask_low mask_high sextets_group24
  using byte_less [of a] byte_less [of b] byte_less [of c]
  by (simp add: unat_bits)

lemma chars_at_quad_of [b64_simps]:
  "chars_at (quad_of a b c) = map ((!) b64_alphabet) (sextets (group24 a b c))"
  "chars_at (take n (quad_of a b c)) = map ((!) b64_alphabet) (take n (sextets (group24 a b c)))"
  by (simp_all add: chars_at_def base64_chars_alphabet unat_quad_of [symmetric] take_map)

lemma alphabet:
  assumes "i < 64"
  shows "is_base64 (b64_alphabet ! i)" "b64_alphabet ! i \<noteq> 61"
    "sextet_of (b64_alphabet ! i) = of_nat i"
proof -
  have "list_all (\<lambda>i. is_base64 (base64_chars ! i)) [0..<64]"
    "list_all (\<lambda>i. base64_chars ! i \<noteq> 61) [0..<64]"
    "list_all (\<lambda>i. find_char base64_chars (base64_chars ! i) = Some i) [0..<64]"
    by code_simp+
  then show "is_base64 (b64_alphabet ! i)" "b64_alphabet ! i \<noteq> 61"
    "sextet_of (b64_alphabet ! i) = of_nat i"
    using assms by (auto simp: list_all_iff sextet_of_def base64_chars_alphabet)
qed

section \<open>The encoder computes the reference\<close>

lemma base64_encode_loop_ref:
  "base64_encode_loop bs [] ret = (arr, ret') \<Longrightarrow>
   (if arr = [] then ret'
    else let i = length arr; a = arr @ replicate (3 - i) 0 in
      ret' @ chars_at (take (i + 1) (quad_of (a ! 0) (a ! 1) (a ! 2)))
        @ replicate (3 - i) (of_char CHR ''='')) = ret @ rfc4648 bs"
proof (induction bs arbitrary: ret rule: rfc4648.induct)
  case (4 a b c bs)
  then show ?case by (simp add: b64_simps)
qed (auto simp: b64_simps sextets_def Let_def)

theorem base64_encode_ref: "base64_encode bs = rfc4648 bs"
proof -
  obtain arr ret where loop: "base64_encode_loop bs [] [] = (arr, ret)"
    by fastforce
  from base64_encode_loop_ref [OF this] loop show ?thesis
    by (simp add: base64_encode_def Let_def split: if_splits)
qed

section \<open>Decoding inverts the reference\<close>

lemma unat_triple_of:
  assumes "unat p < 64"
  shows "map unat (triple_of p q r s) =
    [unat p * 4 + unat q div 16 mod 4, unat q mod 16 * 16 + unat r div 4 mod 16,
     (unat r mod 4 * 64 + unat s) mod 256]"
proof -
  have "unat q div 16 mod 4 < 4" "unat q mod 16 < 16" "unat r div 4 mod 16 < 16" "unat r mod 4 < 4"
    by simp_all
  then have "unat p * 4 + unat q div 16 mod 4 < 256"
    "unat q mod 16 * 16 + unat r div 4 mod 16 < 256" "unat r mod 4 * 64 < 256"
    using assms by linarith+
  then show ?thesis
    unfolding triple_of_def mask_low mask_high
    using assms by (simp add: unat_bits mod_simps)
qed

lemma triple_of_sextets:
  assumes "p < 64" "q < 64" "r < 64" "s < 64"
    and "unat a = p * 4 + q div 16" "unat b = q mod 16 * 16 + r div 4" "unat c = r mod 4 * 64 + s"
  shows "triple_of (of_nat p) (of_nat q) (of_nat r) (of_nat s) = [a, b, c]"
    "take 1 (triple_of (of_nat p) (of_nat q) x y) = [a]"
    "take 2 (triple_of (of_nat p) (of_nat q) (of_nat r) y) = [a, b]"
proof -
  have small: "unat (of_nat i :: byte) = i" if "i < 64" for i
    using that by (simp add: unat_of_nat)
  have r: "r div 4 < 16" and "q div 16 < 4"
    using assms(2,3) by (simp_all add: less_mult_imp_div_less)
  then have "q div 16 mod 4 = q div 16" "r div 4 mod 16 = r div 4"
    by simp_all
  then have "map unat (triple_of (of_nat p) (of_nat q) x y) =
     [unat a, q mod 16 * 16 + unat x div 4 mod 16, (unat x mod 4 * 64 + unat y) mod 256]" for x y
    unfolding assms(5) by (subst unat_triple_of) (simp_all only: small assms(1,2))
  from of_nat_unat_map [OF this] have *: "triple_of (of_nat p) (of_nat q) x y =
     [a, of_nat (q mod 16 * 16 + unat x div 4 mod 16), of_nat ((unat x mod 4 * 64 + unat y) mod 256)]" for x y
    by (simp only: list.map of_nat_unat ucast_id)
  have b: "of_nat (q mod 16 * 16 + r div 4 mod 16) = b"
    by (simp add: \<open>r div 4 mod 16 = r div 4\<close> assms(6) [symmetric])
  have c: "of_nat ((r mod 4 * 64 + s) mod 256) = c"
    using byte_less [of c] by (simp add: assms(7) [symmetric])
  show "triple_of (of_nat p) (of_nat q) (of_nat r) (of_nat s) = [a, b, c]"
    using b c assms by (simp only: * small)
  show "take 1 (triple_of (of_nat p) (of_nat q) x y) = [a]"
    by (simp add: *)
  show "take 2 (triple_of (of_nat p) (of_nat q) (of_nat r) y) = [a, b]"
    using b assms by (simp only: * small) simp
qed

lemma decode_loop_group:
  assumes "p < 64" "q < 64" "r < 64" "s < 64"
  shows "base64_decode_loop (map ((!) b64_alphabet) [p, q, r, s] @ cs) [] ret =
    base64_decode_loop cs [] (ret @ triple_of (of_nat p) (of_nat q) (of_nat r) (of_nat s))"
  using assms by (simp add: alphabet Let_def)

lemma base64_decode_loop_ref:
  "base64_decode_loop (rfc4648 bs) [] ret = (arr, ret') \<Longrightarrow>
   base64_decode_tail arr ret' = ret @ bs"
proof (induction bs arbitrary: ret rule: rfc4648.induct)
  case (4 a b c bs)
  obtain p q r s where "sextets (group24 a b c) = [p, q, r, s]"
    "p < 64" "q < 64" "r < 64" "s < 64"
    "unat a = p * 4 + q div 16" "unat b = q mod 16 * 16 + r div 4" "unat c = r mod 4 * 64 + s"
    by (rule sextets_cases)
  with 4 show ?case
    by (simp add: decode_loop_group triple_of_sextets del: list.map)
next
  case (2 a)
  obtain p q r s where "sextets (group24 a 0 0) = [p, q, r, s]"
    "p < 64" "q < 64" "r < 64" "s < 64" "unat a = p * 4 + q div 16"
    "unat (0::byte) = q mod 16 * 16 + r div 4" "unat (0::byte) = r mod 4 * 64 + s"
    by (rule sextets_cases)
  with 2 show ?case
    using triple_of_sextets(2) [of p q r s a 0 0]
    by (auto simp: base64_decode_tail_def alphabet Let_def)
next
  case (3 a b)
  obtain p q r s where "sextets (group24 a b 0) = [p, q, r, s]"
    "p < 64" "q < 64" "r < 64" "s < 64" "unat a = p * 4 + q div 16"
    "unat b = q mod 16 * 16 + r div 4" "unat (0::byte) = r mod 4 * 64 + s"
    by (rule sextets_cases)
  with 3 show ?case
    using triple_of_sextets(3) [of p q r s a b 0]
    by (auto simp: base64_decode_tail_def alphabet Let_def simp flip: numeral_2_eq_2)
qed (simp add: base64_decode_tail_def)

lemma base64_decode_ref: "base64_decode (rfc4648 bs) = bs"
proof -
  obtain arr ret where loop: "base64_decode_loop (rfc4648 bs) [] [] = (arr, ret)"
    by fastforce
  from base64_decode_loop_ref [OF this] loop show ?thesis
    by (simp add: base64_decode_def)
qed

interpretation srv64: base64_codec "\<lambda>bs. Some (base64_encode bs)" "\<lambda>cs. Some (base64_decode cs)"
  by unfold_locales (simp_all add: base64_encode_ref base64_decode_ref)

text \<open>The loop reads up to the first character that is not of the alphabet.\<close>

lemma base64_decode_loop_stop:
  "\<not> is_base64 c \<Longrightarrow> base64_decode_loop (xs @ c # ys) arr ret = base64_decode_loop xs arr ret"
  by (induction xs arr ret rule: base64_decode_loop.induct) (auto simp: Let_def)

lemma length_triple_of [simp]: "length (triple_of p q r s) = 3"
  by (simp add: triple_of_def)

lemma base64_decode_loop_length:
  assumes "length arr < 4" and "base64_decode_loop cs arr ret = (arr', ret')"
  defines "n \<equiv> length arr + length (takeWhile (\<lambda>c. c \<noteq> 61 \<and> is_base64 c) cs)"
  shows "length arr' = n mod 4 \<and> length ret' = length ret + 3 * (n div 4)"
  using assms(1,2) unfolding n_def
proof (induction cs arr ret rule: base64_decode_loop.induct)
  case (2 c cs arr ret)
  have div: "(4 + m) div 4 = m div 4 + 1" for m :: nat
    by simp
  show ?case
  proof (cases "length arr = 3")
    case True
    with 2 show ?thesis by (auto simp: Let_def div split: if_splits)
  next
    case False
    with 2 show ?thesis by (auto simp: Let_def split: if_splits)
  qed
qed auto

lemma base64_decode_length:
  "length (base64_decode cs) = (let n = length (takeWhile (\<lambda>c. c \<noteq> 61 \<and> is_base64 c) cs)
     in 3 * (n div 4) + (n mod 4 - 1))"
proof -
  obtain arr ret where loop: "base64_decode_loop cs [] [] = (arr, ret)"
    by fastforce
  from base64_decode_loop_length [OF _ this] loop show ?thesis
    by (auto simp: base64_decode_def base64_decode_tail_def Let_def)
qed

section \<open>Properties\<close>

text \<open>
  C20: the server's decoder inverts its encoder on every byte string.
\<close>

theorem base64_roundtrip: "base64_decode (base64_encode bs) = bs"
  using srv64.dec_enc [of bs] by simp

end
