(* ===== verification/Client_Base64.thy ===== *)
theory Client_Base64
  imports Base64
begin

text \<open>
  \<^verbatim>\<open>websocket_base64_encode\<close> and \<^verbatim>\<open>websocket_base64_decode\<close> of
  \<^verbatim>\<open>src/src/websocket-client.cc\<close>: the client's own codec, which walks the arrays
  by index.  Every array read is checked, and a read past the end gives \<open>None\<close>.
\<close>

definition websocket_base64char :: bytes where
  "websocket_base64char =
     s2b ''ABCDEFGHIJKLMNOPQRSTUVWXYZabcdefghijklmnopqrstuvwxyz0123456789+/'' @ [NUL]"

section \<open>Encoding\<close>

text \<open>
  The characters written to \<open>base64\<close> (the terminating NUL is not part of the list);
  the C function returns their number.
\<close>

function websocket_base64_encode_from :: "bytes \<Rightarrow> nat \<Rightarrow> nat \<Rightarrow> bytes \<Rightarrow> bytes option" where
  "websocket_base64_encode_from bindata binlength i out =
     (if \<not> i < binlength then Some out
      else do {
        x \<leftarrow> get bindata i;
        c0 \<leftarrow> get websocket_base64char (unat (drop_bit 2 x AND 0x3F));
        let current = push_bit 4 x AND 0x30;
        if i + 1 \<ge> binlength then do {
          c1 \<leftarrow> get websocket_base64char (unat current);
          Some (out @ [c0, c1, of_char CHR ''='', of_char CHR ''=''])
        } else do {
          y \<leftarrow> get bindata (i + 1);
          let current = current OR (drop_bit 4 y AND 0x0F);
          c1 \<leftarrow> get websocket_base64char (unat current);
          let current = push_bit 2 y AND 0x3C;
          if i + 2 \<ge> binlength then do {
            c2 \<leftarrow> get websocket_base64char (unat current);
            Some (out @ [c0, c1, c2, of_char CHR ''=''])
          } else do {
            z \<leftarrow> get bindata (i + 2);
            let current = current OR (drop_bit 6 z AND 0x03);
            c2 \<leftarrow> get websocket_base64char (unat current);
            c3 \<leftarrow> get websocket_base64char (unat (z AND 0x3F));
            websocket_base64_encode_from bindata binlength (i + 3) (out @ [c0, c1, c2, c3])
          }
        }
      })"
  by pat_completeness auto
termination
  by (relation "measure (\<lambda>(bindata, binlength, i, out). binlength - i)") auto

declare websocket_base64_encode_from.simps [simp del]

definition websocket_base64_encode :: "bytes \<Rightarrow> nat \<Rightarrow> bytes option" where
  "websocket_base64_encode bindata binlength = websocket_base64_encode_from bindata binlength 0 []"

section \<open>Decoding\<close>

text \<open>
  \<open>temp[n]\<close> starts as 0xFF and takes every \<open>k\<close> below 64 whose character matches.
  The input array includes the terminating NUL the loop looks for.
\<close>

definition char_index :: "byte \<Rightarrow> byte" where
  "char_index c =
     fold (\<lambda>k temp. if websocket_base64char ! k = c then of_nat k else temp) [0..<64] 0xFF"

function websocket_base64_decode_from :: "bytes \<Rightarrow> nat \<Rightarrow> bytes \<Rightarrow> bytes option" where
  "websocket_base64_decode_from base64 i bindata = do {
     b0 \<leftarrow> get base64 i;
     if b0 = NUL then Some bindata
     else do {
       b1 \<leftarrow> get base64 (i + 1);
       b2 \<leftarrow> get base64 (i + 2);
       b3 \<leftarrow> get base64 (i + 3);
       let t0 = char_index b0; let t1 = char_index b1;
       let t2 = char_index b2; let t3 = char_index b3;
       let bindata = bindata @ [(push_bit 2 t0 AND 0xFC) OR (drop_bit 4 t1 AND 0x03)];
       if b2 = of_char CHR ''='' then Some bindata
       else do {
         let bindata = bindata @ [(push_bit 4 t1 AND 0xF0) OR (drop_bit 2 t2 AND 0x0F)];
         if b3 = of_char CHR ''='' then Some bindata
         else websocket_base64_decode_from base64 (i + 4)
                (bindata @ [(push_bit 6 t2 AND 0xF0) OR (t3 AND 0x3F)])
       }
     }
   }"
  by pat_completeness auto
termination
  by (relation "measure (\<lambda>(base64, i, bindata). length base64 - i)") (auto simp: get_def split: if_splits)

declare websocket_base64_decode_from.simps [simp del]

definition websocket_base64_decode :: "bytes \<Rightarrow> bytes option" where
  "websocket_base64_decode base64 = websocket_base64_decode_from base64 0 []"

section \<open>The encoder computes the reference\<close>

lemma client_quad:
  "quad_of x y z =
     [drop_bit 2 x AND 0x3F, (push_bit 4 x AND 0x30) OR (drop_bit 4 y AND 0x0F),
      (push_bit 2 y AND 0x3C) OR (drop_bit 6 z AND 0x03), z AND 0x3F]"
proof -
  have "push_bit 4 (x AND 0x03) + drop_bit 4 (y AND 0xf0)
      = (push_bit 4 x AND 0x30) OR (drop_bit 4 y AND 0x0F)"
    "push_bit 2 (y AND 0x0f) + drop_bit 6 (z AND 0xc0)
      = (push_bit 2 y AND 0x3C) OR (drop_bit 6 z AND 0x03)"
    by (subst byte_add_or; (rule byte_bits_eqI)?; simp add: bit_simps less_8 byte_bit_beyond)+
  moreover have "drop_bit 2 (x AND 0xfc) = drop_bit 2 x AND 0x3F"
    by (rule byte_bits_eqI; simp add: bit_simps byte_bit_beyond)
  ultimately show ?thesis
    unfolding quad_of_def by (simp only:)
qed

lemma client_char_at:
  assumes "i < 64"
  shows "get websocket_base64char i = Some (b64_alphabet ! i)"
  using assms by (simp add: websocket_base64char_def b64_alphabet_def nth_append del: s2b_Cons)

lemma client_chars:
  obtains p q r s where "sextets (group24 x y z) = [p, q, r, s]"
    "get websocket_base64char (unat (drop_bit 2 x AND 0x3F)) = Some (b64_alphabet ! p)"
    "get websocket_base64char (unat ((push_bit 4 x AND 0x30) OR (drop_bit 4 y AND 0x0F)))
       = Some (b64_alphabet ! q)"
    "get websocket_base64char (unat ((push_bit 2 y AND 0x3C) OR (drop_bit 6 z AND 0x03)))
       = Some (b64_alphabet ! r)"
    "get websocket_base64char (unat (z AND 0x3F)) = Some (b64_alphabet ! s)"
proof -
  obtain p q r s where *: "sextets (group24 x y z) = [p, q, r, s]"
    "p < 64" "q < 64" "r < 64" "s < 64"
    by (rule sextets_cases)
  with unat_quad_of [of x y z] show thesis
    by (intro that [OF *(1)]) (simp_all only: client_quad list.map list.inject client_char_at)
qed

lemma client_encode_from:
  "websocket_base64_encode_from (ys @ bs @ zs) (length ys + length bs) (length ys) out
     = Some (out @ rfc4648 bs)"
proof (induction bs arbitrary: ys out rule: rfc4648.induct)
  case 1
  show ?case by (simp add: websocket_base64_encode_from.simps)
next
  case (2 a)
  obtain p q r s where "sextets (group24 a 0 0) = [p, q, r, s]"
    "get websocket_base64char (unat (drop_bit 2 a AND 0x3F)) = Some (b64_alphabet ! p)"
    "get websocket_base64char (unat ((push_bit 4 a AND 0x30) OR (drop_bit 4 0 AND 0x0F)))
       = Some (b64_alphabet ! q)"
    by (rule client_chars)
  then show ?case
    by (subst websocket_base64_encode_from.simps) (simp add: nth_append)
next
  case (3 a b)
  obtain p q r s where "sextets (group24 a b 0) = [p, q, r, s]"
    "get websocket_base64char (unat (drop_bit 2 a AND 0x3F)) = Some (b64_alphabet ! p)"
    "get websocket_base64char (unat ((push_bit 4 a AND 0x30) OR (drop_bit 4 b AND 0x0F)))
       = Some (b64_alphabet ! q)"
    "get websocket_base64char (unat ((push_bit 2 b AND 0x3C) OR (drop_bit 6 0 AND 0x03)))
       = Some (b64_alphabet ! r)"
    by (rule client_chars)
  then show ?case
    by (subst websocket_base64_encode_from.simps) (simp add: nth_append)
next
  case (4 a b c bs)
  obtain p q r s where *: "sextets (group24 a b c) = [p, q, r, s]"
    "get websocket_base64char (unat (drop_bit 2 a AND 0x3F)) = Some (b64_alphabet ! p)"
    "get websocket_base64char (unat ((push_bit 4 a AND 0x30) OR (drop_bit 4 b AND 0x0F)))
       = Some (b64_alphabet ! q)"
    "get websocket_base64char (unat ((push_bit 2 b AND 0x3C) OR (drop_bit 6 c AND 0x03)))
       = Some (b64_alphabet ! r)"
    "get websocket_base64char (unat (c AND 0x3F)) = Some (b64_alphabet ! s)"
    by (rule client_chars)
  from 4 [of "ys @ [a, b, c]"] * show ?case
    by (subst websocket_base64_encode_from.simps) (simp add: nth_append add.commute numeral_3_eq_3)
qed

lemma client_encode_ref:
  assumes "n \<le> length bs"
  shows "websocket_base64_encode bs n = Some (rfc4648 (take n bs))"
  using client_encode_from [of "[]" "take n bs" "drop n bs" "[]"] assms
  by (simp add: websocket_base64_encode_def)

section \<open>Decoding\<close>

lemma char_index_alphabet: "i < 64 \<Longrightarrow> char_index (b64_alphabet ! i) = of_nat i"
proof -
  have "list_all (\<lambda>i. char_index (b64_alphabet ! i) = of_nat i) [0..<64]"
    by code_simp
  then show "i < 64 \<Longrightarrow> char_index (b64_alphabet ! i) = of_nat i"
    by (auto simp: list_all_iff)
qed

lemma alphabet_not_NUL: "i < 64 \<Longrightarrow> b64_alphabet ! i \<noteq> NUL"
proof -
  have "list_all (\<lambda>i. b64_alphabet ! i \<noteq> NUL) [0..<64]"
    by code_simp
  then show "i < 64 \<Longrightarrow> b64_alphabet ! i \<noteq> NUL"
    by (auto simp: list_all_iff)
qed

lemma client_triple:
  assumes "i < 64"
  shows "triple_of p q r (of_nat i) = [(push_bit 2 p AND 0xFC) OR (drop_bit 4 q AND 0x03),
      (push_bit 4 q AND 0xF0) OR (drop_bit 2 r AND 0x0F),
      (push_bit 6 r AND 0xF0) OR (of_nat i AND 0x3F)]"
proof -
  have s: "of_nat i AND 0x3F = (of_nat i :: byte)"
    using assms unfolding mask_low by (simp add: word_unat_eq_iff unat_take_bit unat_of_nat)
  have "push_bit 6 (r AND 0x03) + (of_nat i AND 0x3F)
      = (push_bit 6 r AND 0xF0) OR (of_nat i AND 0x3F)"
    "push_bit 2 p + drop_bit 4 (q AND 0x30) = (push_bit 2 p AND 0xFC) OR (drop_bit 4 q AND 0x03)"
    "push_bit 4 (q AND 0x0f) + drop_bit 2 (r AND 0x3c)
      = (push_bit 4 q AND 0xF0) OR (drop_bit 2 r AND 0x0F)"
    by (subst byte_add_or; (rule byte_bits_eqI)?; simp add: bit_simps less_8 byte_bit_beyond)+
  then show ?thesis
    unfolding triple_of_def by (simp only: s)
qed

lemma client_decode_from:
  "websocket_base64_decode_from (ys @ rfc4648 bs @ NUL # zs) (length ys) out = Some (out @ bs)"
proof (induction bs arbitrary: ys out rule: rfc4648.induct)
  case 1
  show ?case by (simp add: websocket_base64_decode_from.simps)
next
  case (2 a)
  obtain p q r s where *: "sextets (group24 a 0 0) = [p, q, r, s]"
    "p < 64" "q < 64" "r < 64" "s < 64" "unat a = p * 4 + q div 16"
    "unat (0::byte) = q mod 16 * 16 + r div 4" "unat (0::byte) = r mod 4 * 64 + s"
    by (rule sextets_cases)
  from triple_of_sextets(1) [OF *(2-8)] * show ?case
    by (subst websocket_base64_decode_from.simps)
      (simp add: nth_append alphabet_not_NUL char_index_alphabet client_triple)
next
  case (3 a b)
  obtain p q r s where *: "sextets (group24 a b 0) = [p, q, r, s]"
    "p < 64" "q < 64" "r < 64" "s < 64" "unat a = p * 4 + q div 16"
    "unat b = q mod 16 * 16 + r div 4" "unat (0::byte) = r mod 4 * 64 + s"
    by (rule sextets_cases)
  from triple_of_sextets(1) [OF *(2-8)] * show ?case
    by (subst websocket_base64_decode_from.simps)
      (simp add: nth_append alphabet_not_NUL alphabet char_index_alphabet client_triple)
next
  case (4 a b c bs)
  obtain p q r s where *: "sextets (group24 a b c) = [p, q, r, s]"
    "p < 64" "q < 64" "r < 64" "s < 64" "unat a = p * 4 + q div 16"
    "unat b = q mod 16 * 16 + r div 4" "unat c = r mod 4 * 64 + s"
    by (rule sextets_cases)
  from triple_of_sextets(1) [OF *(2-8)] *
    4 [of "ys @ [b64_alphabet ! p, b64_alphabet ! q, b64_alphabet ! r, b64_alphabet ! s]" "out @ [a, b, c]"]
  show ?case
    by (subst websocket_base64_decode_from.simps)
      (simp add: nth_append alphabet_not_NUL alphabet char_index_alphabet client_triple plus_small)
qed

lemma client_decode_ref: "websocket_base64_decode (rfc4648 bs @ [NUL]) = Some bs"
  using client_decode_from [of "[]" bs "[]" "[]"] by (simp add: websocket_base64_decode_def)

interpretation cli64: base64_codec
  "\<lambda>bs. websocket_base64_encode bs (length bs)" "\<lambda>cs. websocket_base64_decode (cs @ [NUL])"
  by unfold_locales (simp_all add: client_encode_ref client_decode_ref)

text \<open>
  Without padding in the input the loop takes four characters at a time and stops only at a
  NUL in a position divisible by four, so any other length runs past the terminator.
\<close>

lemma client_decode_overread:
  assumes "NUL \<notin> set cs" "61 \<notin> set cs"
  shows "websocket_base64_decode_from (ys @ cs @ [NUL]) (length ys) out = None
    \<longleftrightarrow> length cs mod 4 \<noteq> 0"
  using assms
proof (induction "length cs" arbitrary: cs ys out rule: less_induct)
  case less
  consider "cs = []" | a where "cs = [a]" | a b where "cs = [a, b]" | a b c where "cs = [a, b, c]"
    | a b c d cs' where "cs = a # b # c # d # cs'"
    by (metis list_3_cases)
  then show ?case
  proof cases
    case (5 a b c d cs')
    with less.prems less.hyps [of cs' "ys @ [a, b, c, d]"] show ?thesis
      by (subst websocket_base64_decode_from.simps)
        (simp add: nth_append Let_def plus_small)
  qed (use less.prems in \<open>subst websocket_base64_decode_from.simps; simp add: nth_append get_def Let_def\<close>)+
qed

section \<open>Properties\<close>

text \<open>
  C21: the client's encoder stays inside its arrays and writes what the server's encoder writes,
  and the client's decoder takes the server's encoding back.
\<close>

theorem base64_client_server:
  "websocket_base64_encode bs (length bs) = Some (base64_encode bs) \<and>
   websocket_base64_decode (base64_encode bs @ [NUL]) = Some bs"
  by (simp add: cli64.enc_ref cli64.dec_ref base64_encode_ref)

text \<open>
  The client's decoder reads past the terminator of an unpadded text exactly when the length
  of the text is not a multiple of four.
\<close>

theorem base64_client_overread:
  assumes "NUL \<notin> set cs" "61 \<notin> set cs"
  shows "websocket_base64_decode (cs @ [NUL]) = None \<longleftrightarrow> length cs mod 4 \<noteq> 0"
  using client_decode_overread [OF assms, of "[]" "[]"] by (simp add: websocket_base64_decode_def)

theorem base64_client_overread_witness: "websocket_base64_decode ([81, 81] @ [NUL]) = None"
  using base64_client_overread [of "[81, 81]"] by simp

end
