(* ===== verification/Sha1_Spec.thy ===== *)
theory Sha1_Spec
  imports Prelude
begin

text \<open>
  SHA-1 as FIPS PUB 180 states it: the functions and constants of the 80 steps, the
  message schedule as a recursive function of the step, the padding as a function of the
  whole message, and the contract of a streaming implementation as a locale.  The C++ class
  of \<^verbatim>\<open>src/src/sha1.cc\<close> and the C functions of \<^verbatim>\<open>src/src/websocket-client.cc\<close>
  are both shown to meet it.
\<close>

section \<open>The compression function\<close>

definition ft :: "nat \<Rightarrow> u32 \<Rightarrow> u32 \<Rightarrow> u32 \<Rightarrow> u32" where
  "ft t x y z =
     (if t < 20 then (x AND y) XOR (NOT x AND z)
      else if t < 40 then x XOR y XOR z
      else if t < 60 then (x AND y) XOR (x AND z) XOR (y AND z)
      else x XOR y XOR z)"

definition Kt :: "nat \<Rightarrow> u32" where
  "Kt t = (if t < 20 then 0x5A827999 else if t < 40 then 0x6ED9EBA1
     else if t < 60 then 0x8F1BBCDC else 0xCA62C1D6)"

fun Wt :: "(nat \<Rightarrow> u32) \<Rightarrow> nat \<Rightarrow> u32" where
  "Wt M t = (if t < 16 then M t
     else word_rotl 1 (Wt M (t - 3) XOR Wt M (t - 8) XOR Wt M (t - 14) XOR Wt M (t - 16)))"

declare Wt.simps [simp del]

text \<open>The \<open>t\<close>-th 32-bit word of a block, most significant byte first.\<close>

definition block_word :: "bytes \<Rightarrow> nat \<Rightarrow> u32" where
  "block_word blk t = word_of_nat (unat (blk ! (4 * t)) * 2 ^ 24 + unat (blk ! (4 * t + 1)) * 2 ^ 16
     + unat (blk ! (4 * t + 2)) * 2 ^ 8 + unat (blk ! (4 * t + 3)))"

type_synonym vars = "u32 \<times> u32 \<times> u32 \<times> u32 \<times> u32"

fun sha1_step :: "(nat \<Rightarrow> u32) \<Rightarrow> nat \<Rightarrow> vars \<Rightarrow> vars" where
  "sha1_step M t (a, b, c, d, e) =
     (word_rotl 5 a + ft t b c d + e + Kt t + Wt M t, a, word_rotl 30 b, c, d)"

fun hash_vars :: "u32 list \<Rightarrow> vars" where
  "hash_vars hs = (hs ! 0, hs ! 1, hs ! 2, hs ! 3, hs ! 4)"

fun add_vars :: "u32 list \<Rightarrow> vars \<Rightarrow> u32 list" where
  "add_vars hs (a, b, c, d, e) = [hs ! 0 + a, hs ! 1 + b, hs ! 2 + c, hs ! 3 + d, hs ! 4 + e]"

definition compress :: "bytes \<Rightarrow> u32 list \<Rightarrow> u32 list" where
  "compress blk hs = add_vars hs (fold (sha1_step (block_word blk)) [0..<80] (hash_vars hs))"

section \<open>Padding and the digest\<close>

definition be64 :: "nat \<Rightarrow> bytes" where
  "be64 n = map (\<lambda>i. word_of_nat (n div 256 ^ i)) [7, 6, 5, 4, 3, 2, 1, 0]"

definition pad_zeros :: "nat \<Rightarrow> nat" where
  "pad_zeros n = (119 - n mod 64) mod 64"

definition pad :: "bytes \<Rightarrow> bytes" where
  "pad msg = msg @ [0x80] @ replicate (pad_zeros (length msg)) 0 @ be64 (8 * length msg)"

definition blocks :: "bytes \<Rightarrow> bytes list" where
  "blocks msg = map (\<lambda>i. take 64 (drop (64 * i) msg)) [0..<length msg div 64]"

definition H0 :: "u32 list" where
  "H0 = [0x67452301, 0xEFCDAB89, 0x98BADCFE, 0x10325476, 0xC3D2E1F0]"

definition sha1 :: "bytes \<Rightarrow> u32 list" where
  "sha1 msg = fold compress (blocks (pad msg)) H0"

text \<open>The digest as 20 bytes.\<close>

definition sha1_bytes :: "bytes \<Rightarrow> bytes" where
  "sha1_bytes msg = concat (map be32 (sha1 msg))"

text \<open>A message the 64-bit length field can describe.\<close>

definition sha1_fits :: "bytes \<Rightarrow> bool" where
  "sha1_fits msg \<longleftrightarrow> 8 * length msg < 2 ^ 64"

section \<open>Facts about blocks\<close>

lemma length_be64 [simp]: "length (be64 n) = 8"
  by (simp add: be64_def)

lemma length_compress [simp]: "length (compress blk hs) = 5"
  by (cases "fold (sha1_step (block_word blk)) [0..<80] (hash_vars hs)") (simp add: compress_def)

lemma length_fold_compress: "length hs = 5 \<Longrightarrow> length (fold compress bs hs) = 5"
  by (induction bs arbitrary: hs) auto

lemma length_sha1 [simp]: "length (sha1 msg) = 5"
  by (simp add: sha1_def length_fold_compress H0_def)

lemma length_sha1_bytes [simp]: "length (sha1_bytes msg) = 20"
proof -
  have "length (concat (map be32 ws)) = 4 * length ws" for ws
    by (induction ws) auto
  then show ?thesis
    by (simp add: sha1_bytes_def)
qed

lemma blocks_Nil [simp]: "blocks [] = []"
  by (simp add: blocks_def)

lemma blocks_single: "length blk = 64 \<Longrightarrow> blocks blk = [blk]"
  by (simp add: blocks_def)

lemma blocks_append:
  assumes "length xs = 64 * n"
  shows "blocks (xs @ ys) = blocks xs @ blocks ys"
proof -
  have n: "(length xs + length ys) div 64 = n + length ys div 64"
    using assms by simp
  have "[0..<n + length ys div 64] = [0..<n] @ map (\<lambda>i. i + n) [0..<length ys div 64]"
    using upt_add_eq_append [of 0 n "length ys div 64"] by (simp add: map_add_upt add.commute)
  then have "blocks (xs @ ys) =
      map (\<lambda>i. take 64 (drop (64 * i) (xs @ ys))) ([0..<n] @ map (\<lambda>i. i + n) [0..<length ys div 64])"
    by (simp add: blocks_def n)
  also have "\<dots> = blocks xs @ blocks ys"
    using assms by (auto simp: blocks_def)
  finally show ?thesis .
qed

lemma blocks_short: "length ys < 64 \<Longrightarrow> blocks ys = []"
  by (simp add: blocks_def)

section \<open>The contract of a streaming implementation\<close>

text \<open>
  \<open>rep s msg\<close>: the state \<open>s\<close> has taken exactly the bytes \<open>msg\<close>.  \<open>usable\<close> is what the
  object must be before \<open>reset\<close>: its block buffer is an array of 64 bytes with any content.
\<close>

locale sha1_stream =
  fixes usable :: "'s \<Rightarrow> bool"
    and reset :: "'s \<Rightarrow> 's"
    and input :: "bytes \<Rightarrow> 's \<Rightarrow> 's"
    and result :: "'s \<Rightarrow> u32 list option"
    and rep :: "'s \<Rightarrow> bytes \<Rightarrow> bool"
  assumes rep_reset: "usable s \<Longrightarrow> rep (reset s) []"
    and rep_input: "rep s msg \<Longrightarrow> sha1_fits (msg @ xs) \<Longrightarrow> rep (input xs s) (msg @ xs)"
    and rep_result: "rep s msg \<Longrightarrow> sha1_fits msg \<Longrightarrow> result s = Some (sha1 msg)"
begin

lemma digest: "usable s \<Longrightarrow> sha1_fits msg \<Longrightarrow> result (input msg (reset s)) = Some (sha1 msg)"
  using rep_input [OF rep_reset, of s msg] rep_result by simp

lemma rep_fold:
  "rep s msg \<Longrightarrow> sha1_fits (msg @ concat xss) \<Longrightarrow> rep (fold input xss s) (msg @ concat xss)"
proof (induction xss arbitrary: s msg)
  case (Cons xs xss)
  then have "sha1_fits (msg @ xs)"
    by (auto simp: sha1_fits_def)
  with Cons.prems(1) have "rep (input xs s) (msg @ xs)"
    by (rule rep_input)
  with Cons.IH [of "input xs s" "msg @ xs"] Cons.prems(2) show ?case
    by simp
qed simp

text \<open>The digest depends on the bytes alone, not on the calls that brought them.\<close>

lemma digest_chunks:
  "usable s \<Longrightarrow> sha1_fits (concat xss) \<Longrightarrow> result (fold input xss (reset s)) = Some (sha1 (concat xss))"
  using rep_fold [OF rep_reset, of s xss] rep_result by simp

end

end
