(* ===== verification/Sha1.thy ===== *)
theory Sha1
  imports Sha1_Spec
begin

text \<open>
  The class \<open>server::SHA1\<close> (\<^verbatim>\<open>src/src/sha1.h\<close>, \<^verbatim>\<open>src/src/sha1.cc\<close>): its members as a
  record, its methods as functions on that record, and the proof that it computes SHA-1.
\<close>

record SHA1 =
  Hs :: "u32 list"
  Length_Low :: u32
  Length_High :: u32
  Message_Block :: bytes
  Message_Block_Index :: nat
  Computed :: bool
  Corrupted :: bool

section \<open>The methods\<close>

definition CircularShift :: "nat \<Rightarrow> u32 \<Rightarrow> u32" where
  "CircularShift bits w =
     (push_bit bits w AND 0xFFFFFFFF) OR drop_bit (32 - bits) (w AND 0xFFFFFFFF)"

definition first_words :: "bytes \<Rightarrow> u32 list" where
  "first_words blk = map (\<lambda>t. push_bit 24 (ucast (blk ! (t * 4)))
     OR push_bit 16 (ucast (blk ! (t * 4 + 1)))
     OR push_bit 8 (ucast (blk ! (t * 4 + 2)))
     OR ucast (blk ! (t * 4 + 3))) [0..<16]"

definition next_word :: "nat \<Rightarrow> u32 list \<Rightarrow> u32 list" where
  "next_word t W =
     W @ [CircularShift 1 (W ! (t - 3) XOR W ! (t - 8) XOR W ! (t - 14) XOR W ! (t - 16))]"

definition more_words :: "u32 list \<Rightarrow> u32 list" where
  "more_words ws = fold next_word [16..<80] ws"

fun sha1_round ::
  "(u32 \<Rightarrow> u32 \<Rightarrow> u32 \<Rightarrow> u32) \<Rightarrow> u32 \<Rightarrow> u32 list \<Rightarrow> nat \<Rightarrow> vars \<Rightarrow> vars" where
  "sha1_round f k W t (A, B, C, D, E) =
     (let temp = CircularShift 5 A + f B C D + E + W ! t + k
      in (temp AND 0xFFFFFFFF, A, CircularShift 30 B, C, D))"

definition sha1_rounds :: "u32 list \<Rightarrow> vars \<Rightarrow> vars" where
  "sha1_rounds W vs =
     (let vs = fold (sha1_round (\<lambda>B C D. (B AND C) OR (NOT B AND D)) 0x5A827999 W) [0..<20] vs;
          vs = fold (sha1_round (\<lambda>B C D. B XOR C XOR D) 0x6ED9EBA1 W) [20..<40] vs;
          vs = fold (sha1_round (\<lambda>B C D. (B AND C) OR (B AND D) OR (C AND D)) 0x8F1BBCDC W)
                 [40..<60] vs
      in fold (sha1_round (\<lambda>B C D. B XOR C XOR D) 0xCA62C1D6 W) [60..<80] vs)"

definition ProcessMessageBlock :: "SHA1 \<Rightarrow> SHA1" where
  "ProcessMessageBlock s =
     (let W = more_words (first_words (Message_Block s));
          (A, B, C, D, E) = sha1_rounds W (Hs s ! 0, Hs s ! 1, Hs s ! 2, Hs s ! 3, Hs s ! 4)
      in s\<lparr>Hs := [(Hs s ! 0 + A) AND 0xFFFFFFFF, (Hs s ! 1 + B) AND 0xFFFFFFFF,
                 (Hs s ! 2 + C) AND 0xFFFFFFFF, (Hs s ! 3 + D) AND 0xFFFFFFFF,
                 (Hs s ! 4 + E) AND 0xFFFFFFFF],
           Message_Block_Index := 0\<rparr>)"

definition Reset :: "SHA1 \<Rightarrow> SHA1" where
  "Reset s = s\<lparr>Length_Low := 0, Length_High := 0, Message_Block_Index := 0,
     Hs := [0x67452301, 0xEFCDAB89, 0x98BADCFE, 0x10325476, 0xC3D2E1F0],
     Computed := False, Corrupted := False\<rparr>"

text \<open>\<open>Message_Block[Message_Block_Index++] = b\<close>, and the loops that fill with zeros.\<close>

definition put :: "byte \<Rightarrow> SHA1 \<Rightarrow> SHA1" where
  "put b s = s\<lparr>Message_Block := (Message_Block s)[Message_Block_Index s := b],
     Message_Block_Index := Message_Block_Index s + 1\<rparr>"

function zeros_to :: "nat \<Rightarrow> SHA1 \<Rightarrow> SHA1" where
  "zeros_to n s = (if Message_Block_Index s < n then zeros_to n (put 0 s) else s)"
  by pat_completeness auto
termination
  by (relation "measure (\<lambda>(n, s). n - Message_Block_Index s)") (auto simp: put_def)

declare zeros_to.simps [simp del]

definition put_length :: "SHA1 \<Rightarrow> SHA1" where
  "put_length s = s\<lparr>Message_Block := (Message_Block s)
     [56 := ucast (drop_bit 24 (Length_High s) AND 0xFF),
      57 := ucast (drop_bit 16 (Length_High s) AND 0xFF),
      58 := ucast (drop_bit 8 (Length_High s) AND 0xFF),
      59 := ucast (Length_High s AND 0xFF),
      60 := ucast (drop_bit 24 (Length_Low s) AND 0xFF),
      61 := ucast (drop_bit 16 (Length_Low s) AND 0xFF),
      62 := ucast (drop_bit 8 (Length_Low s) AND 0xFF),
      63 := ucast (Length_Low s AND 0xFF)]\<rparr>"

definition PadMessage :: "SHA1 \<Rightarrow> SHA1" where
  "PadMessage s =
     (let s = (if 55 < Message_Block_Index s
               then zeros_to 56 (ProcessMessageBlock (zeros_to 64 (put 0x80 s)))
               else zeros_to 56 (put 0x80 s))
      in ProcessMessageBlock (put_length s))"

text \<open>\<open>Result\<close> returns the five words it writes to its argument, or \<open>None\<close> for \<open>false\<close>.\<close>

definition Result :: "SHA1 \<Rightarrow> SHA1 \<times> u32 list option" where
  "Result s =
     (if Corrupted s then (s, None)
      else let s = (if \<not> Computed s then (PadMessage s)\<lparr>Computed := True\<rparr> else s)
           in (s, Some (take 5 (Hs s))))"

definition input_byte :: "byte \<Rightarrow> SHA1 \<Rightarrow> SHA1" where
  "input_byte b s =
     (let s = put b s;
          s = s\<lparr>Length_Low := (Length_Low s + 8) AND 0xFFFFFFFF\<rparr>;
          s = (if Length_Low s = 0
               then let s = s\<lparr>Length_High := (Length_High s + 1) AND 0xFFFFFFFF\<rparr>
                    in if Length_High s = 0 then s\<lparr>Corrupted := True\<rparr> else s
               else s)
      in if Message_Block_Index s = 64 then ProcessMessageBlock s else s)"

fun input_loop :: "bytes \<Rightarrow> SHA1 \<Rightarrow> SHA1" where
  "input_loop [] s = s"
| "input_loop (b # bs) s = (if Corrupted s then s else input_loop bs (input_byte b s))"

definition Input :: "bytes \<Rightarrow> SHA1 \<Rightarrow> SHA1" where
  "Input bs s =
     (if bs = [] then s
      else if Computed s \<or> Corrupted s then s\<lparr>Corrupted := True\<rparr>
      else input_loop bs s)"

text \<open>\<open>operator<<\<close> on a C string: one \<open>Input\<close> per character before the terminator.\<close>

definition Input_cstr :: "bytes \<Rightarrow> SHA1 \<Rightarrow> SHA1" where
  "Input_cstr arr s = fold (\<lambda>b. Input [b]) (c_str arr) s"

text \<open>The constructor, on storage of any content.\<close>

definition raw_SHA1 :: "SHA1 \<Rightarrow> bool" where
  "raw_SHA1 s \<longleftrightarrow> length (Message_Block s) = 64"

definition new_SHA1 :: "SHA1 \<Rightarrow> SHA1" where
  "new_SHA1 s = Reset s"

section \<open>The block function is the compression function\<close>

lemma and_ffffffff [simp]: "w AND 0xFFFFFFFF = w" for w :: u32
proof -
  have "(0xFFFFFFFF :: u32) = - 1"
    by simp
  then show ?thesis
    by (simp only: and.right_neutral)
qed

lemma CircularShift_rotl:
  assumes "0 < n" "n < 32"
  shows "CircularShift n w = word_rotl n w"
proof (rule bit_word_eqI)
  fix i assume "i < LENGTH(32)"
  then have i: "i < 32"
    by simp
  have "bit (CircularShift n w) i \<longleftrightarrow> n \<le> i \<and> bit w (i - n) \<or> bit w (32 - n + i)"
    using i by (auto simp: CircularShift_def bit_or_iff bit_push_bit_iff bit_drop_bit_eq)
  also have "\<dots> \<longleftrightarrow> bit w ((i + (32 - n)) mod 32)"
  proof (cases "i < n")
    case True
    then show ?thesis
      using assms i by (simp add: add.commute)
  next
    case False
    then have "i + (32 - n) = i - n + 32"
      using assms by simp
    then have "(i + (32 - n)) mod 32 = i - n"
      using i by (metis less_imp_diff_less mod_add_self2 mod_less)
    moreover have "\<not> bit w (32 - n + i)"
      using False assms bit_imp_le_length [of w "32 - n + i"] by auto
    ultimately show ?thesis
      using False by simp
  qed
  also have "\<dots> \<longleftrightarrow> bit (word_rotl n w) i"
    using i assms by (simp add: bit_word_rotl_iff)
  finally show "bit (CircularShift n w) i = bit (word_rotl n w) i" .
qed

lemma shift_add_or:
  "push_bit 24 (ucast (a :: byte)) OR push_bit 16 (ucast (b :: byte)) OR push_bit 8 (ucast (c :: byte))
     OR ucast (d :: byte) = (word_of_nat (unat a * 2 ^ 24 + unat b * 2 ^ 16 + unat c * 2 ^ 8 + unat d) :: u32)"
proof -
  have "push_bit 24 (ucast a) OR push_bit 16 (ucast b) OR push_bit 8 (ucast c) OR (ucast d :: u32)
      = push_bit 24 (ucast a) + (push_bit 16 (ucast b) + (push_bit 8 (ucast c) + ucast d))"
    by (subst disjunctive_add; (subst disjunctive_add)?; (subst disjunctive_add)?)
      (auto simp: bit_simps byte_bit_beyond)
  then show ?thesis
    by (simp add: push_bit_eq_mult unsigned_def)
qed

lemma first_words_nth: "t < 16 \<Longrightarrow> first_words blk ! t = block_word blk t"
  by (simp add: first_words_def block_word_def shift_add_or mult.commute)

lemma more_words_upto:
  assumes "length ws = 16" "\<And>t. t < 16 \<Longrightarrow> ws ! t = M t"
  shows "length (fold next_word [16..<16 + k] ws) = 16 + k \<and>
    (\<forall>t < 16 + k. fold next_word [16..<16 + k] ws ! t = Wt M t)"
proof (induction k)
  case 0
  then show ?case
    using assms by (simp add: Wt.simps)
next
  case (Suc k)
  have "[16..<16 + Suc k] = [16..<16 + k] @ [16 + k]"
    using upt_Suc_append [of 16 "16 + k"] by simp
  moreover have "t < 16 + Suc k \<longleftrightarrow> t < 16 + k \<or> t = 16 + k" for t
    by auto
  ultimately show ?case
    using Suc by (simp add: next_word_def nth_append CircularShift_rotl Wt.simps [of M "16 + k"]
      del: upt_Suc One_nat_def add_Suc_right)
qed

lemma more_words_nth:
  assumes "length ws = 16" "\<And>t. t < 16 \<Longrightarrow> ws ! t = M t" "t < 80"
  shows "more_words ws ! t = Wt M t"
  using more_words_upto [of ws M 64] assms by (simp add: more_words_def)

lemma choose_or: "(b AND c) OR (NOT b AND d) = (b AND c) XOR (NOT b AND d)" for b c d :: u32
  by (rule bit_word_eqI) (auto simp: bit_simps)

lemma majority_or: "(b AND c) OR (b AND d) OR (c AND d) = (b AND c) XOR (b AND d) XOR (c AND d)"
  for b c d :: u32
  by (rule bit_word_eqI) (auto simp: bit_simps)

lemma fold_round:
  assumes "\<And>t. t \<in> set ts \<Longrightarrow> W ! t = Wt M t \<and> k = Kt t \<and> f = ft t"
  shows "fold (sha1_round f k W) ts vs = fold (sha1_step M) ts vs"
  using assms
proof (induction ts arbitrary: vs)
  case (Cons t ts)
  have "sha1_round f k W t vs = sha1_step M t vs"
    using Cons.prems [of t] by (cases vs) (simp add: Let_def CircularShift_rotl add_ac)
  with Cons show ?case
    by simp
qed simp

lemma sha1_rounds_spec:
  assumes "\<And>t. t < 80 \<Longrightarrow> W ! t = Wt M t"
  shows "sha1_rounds W vs = fold (sha1_step M) [0..<80] vs"
proof -
  have "[0..<80] = [0..<20] @ [20..<40] @ [40..<60] @ [60..<(80::nat)]"
    using upt_add_eq_append [of 0 20 60] upt_add_eq_append [of 20 40 40]
      upt_add_eq_append [of 40 60 20] by simp
  moreover have "fold (sha1_round (\<lambda>B C D. (B AND C) OR (NOT B AND D)) 0x5A827999 W) [0..<20] vs
      = fold (sha1_step M) [0..<20] vs" for vs
    by (rule fold_round) (auto simp: assms Kt_def ft_def choose_or fun_eq_iff)
  moreover have "fold (sha1_round (\<lambda>B C D. B XOR C XOR D) 0x6ED9EBA1 W) [20..<40] vs
      = fold (sha1_step M) [20..<40] vs" for vs
    by (rule fold_round) (auto simp: assms Kt_def ft_def fun_eq_iff)
  moreover have "fold (sha1_round (\<lambda>B C D. (B AND C) OR (B AND D) OR (C AND D)) 0x8F1BBCDC W)
      [40..<60] vs = fold (sha1_step M) [40..<60] vs" for vs
    by (rule fold_round) (auto simp: assms Kt_def ft_def majority_or fun_eq_iff)
  moreover have "fold (sha1_round (\<lambda>B C D. B XOR C XOR D) 0xCA62C1D6 W) [60..<80] vs
      = fold (sha1_step M) [60..<80] vs" for vs
    by (rule fold_round) (auto simp: assms Kt_def ft_def fun_eq_iff)
  ultimately show ?thesis
    by (simp only: sha1_rounds_def Let_def fold_append comp_apply)
qed

lemma ProcessMessageBlock_spec:
  "ProcessMessageBlock s = s\<lparr>Hs := compress (Message_Block s) (Hs s), Message_Block_Index := 0\<rparr>"
proof -
  define W where "W = more_words (first_words (Message_Block s))"
  have "sha1_rounds W vs = fold (sha1_step (block_word (Message_Block s))) [0..<80] vs" for vs
    by (rule sha1_rounds_spec, unfold W_def, rule more_words_nth)
      (simp_all add: first_words_nth, simp add: first_words_def)
  then show ?thesis
    by (cases "fold (sha1_step (block_word (Message_Block s))) [0..<80]
        (Hs s ! 0, Hs s ! 1, Hs s ! 2, Hs s ! 3, Hs s ! 4)")
      (simp add: ProcessMessageBlock_def compress_def flip: W_def)
qed

section \<open>What a state has taken\<close>

definition sha1_rep :: "SHA1 \<Rightarrow> bytes \<Rightarrow> bool" where
  "sha1_rep s msg \<longleftrightarrow>
     sha1_fits msg \<and> \<not> Computed s \<and> \<not> Corrupted s \<and> length (Message_Block s) = 64 \<and>
     Message_Block_Index s = length msg mod 64 \<and>
     take (length msg mod 64) (Message_Block s) = drop (64 * (length msg div 64)) msg \<and>
     Hs s = fold compress (blocks msg) H0 \<and>
     unat (Length_High s) * 2 ^ 32 + unat (Length_Low s) = 8 * length msg"

lemma fill_block [sha1_simps]:
  "i < length blk \<Longrightarrow> take i blk = xs \<Longrightarrow> take (Suc i) (blk[i := b]) = xs @ [b]"
  by (simp add: take_Suc_conv_app_nth)

lemma split_tail:
  obtains full rest where "msg = full @ rest" "length full = 64 * (length msg div 64)"
    "length rest = length msg mod 64" "rest = drop (64 * (length msg div 64)) msg"
proof (rule that [of "take (64 * (length msg div 64)) msg" "drop (64 * (length msg div 64)) msg"])
  show "length (drop (64 * (length msg div 64)) msg) = length msg mod 64"
    by (simp add: minus_mult_div_eq_mod)
qed simp_all

lemma blocks_full:
  assumes "length full = 64 * n" "length rest < 64"
  shows "blocks (full @ rest) = blocks full"
  using assms by (simp add: blocks_append blocks_short)

text \<open>One more byte either extends the block in the buffer or completes it.\<close>

lemma blocks_snoc_part:
  assumes "length msg mod 64 < 63"
  shows "blocks (msg @ [b]) = blocks msg"
    and "drop (64 * (length (msg @ [b]) div 64)) (msg @ [b]) = drop (64 * (length msg div 64)) msg @ [b]"
    and "length (msg @ [b]) mod 64 = Suc (length msg mod 64)"
proof -
  have d: "Suc (length msg) div 64 = length msg div 64"
    and m: "Suc (length msg) mod 64 = Suc (length msg mod 64)"
    using assms by (simp_all add: div_Suc mod_Suc)
  then show "drop (64 * (length (msg @ [b]) div 64)) (msg @ [b]) = drop (64 * (length msg div 64)) msg @ [b]"
    "length (msg @ [b]) mod 64 = Suc (length msg mod 64)"
    by simp_all
  obtain full rest where r: "msg = full @ rest" "length full = 64 * (length msg div 64)"
      "length rest = length msg mod 64"
    by (rule split_tail)
  have "blocks (full @ rest) = blocks full" "blocks (full @ rest @ [b]) = blocks full"
    by (rule blocks_full [OF r(2)], use r(3) assms in simp)+
  then show "blocks (msg @ [b]) = blocks msg"
    by (metis r(1) append_assoc)
qed

lemma blocks_snoc_full:
  assumes "length msg mod 64 = 63"
  shows "blocks (msg @ [b]) = blocks msg @ [drop (64 * (length msg div 64)) msg @ [b]]"
    and "drop (64 * (length (msg @ [b]) div 64)) (msg @ [b]) = []"
    and "length (msg @ [b]) mod 64 = 0"
proof -
  have d: "Suc (length msg) div 64 = Suc (length msg div 64)" and m: "Suc (length msg) mod 64 = 0"
    using assms by (simp_all add: div_Suc mod_Suc)
  then show "length (msg @ [b]) mod 64 = 0"
    by simp
  have "64 * Suc (length msg div 64) = Suc (length msg)"
    using d m mult_div_mod_eq [of 64 "Suc (length msg)"] by simp
  then show "drop (64 * (length (msg @ [b]) div 64)) (msg @ [b]) = []"
    using d by simp
  obtain full rest where r: "msg = full @ rest" "length full = 64 * (length msg div 64)"
      "length rest = length msg mod 64" "rest = drop (64 * (length msg div 64)) msg"
    by (rule split_tail)
  have "blocks (msg @ [b]) = blocks full @ blocks (rest @ [b])"
    by (metis r(1) append_assoc blocks_append [OF r(2), of "rest @ [b]"])
  moreover have "blocks (rest @ [b]) = [rest @ [b]]"
    using r(3) assms by (simp add: blocks_single)
  moreover have "blocks msg = blocks full"
    by (metis r(1,3) assms blocks_full [OF r(2), of rest] mod_less_divisor zero_less_numeral)
  ultimately show "blocks (msg @ [b]) = blocks msg @ [drop (64 * (length msg div 64)) msg @ [b]]"
    using r(4) by simp
qed

text \<open>The two length words count bits with carry.\<close>

lemma count_up:
  fixes hi lo :: u32
  assumes "unat hi * 2 ^ 32 + unat lo = 8 * n" "8 * (n + 1) < 2 ^ 64"
  shows "lo + 8 = 0 \<Longrightarrow> hi + 1 \<noteq> 0 \<and> unat (hi + 1) * 2 ^ 32 = 8 * (n + 1)"
    and "lo + 8 \<noteq> 0 \<Longrightarrow> unat hi * 2 ^ 32 + unat (lo + 8) = 8 * (n + 1)"
proof -
  have lo: "unat lo < 2 ^ 32" and hi: "unat hi < 2 ^ 32"
    using unsigned_less [of lo] unsigned_less [of hi] by simp_all
  have add: "unat (lo + 8) = (unat lo + 8) mod 2 ^ 32" "unat (hi + 1) = (unat hi + 1) mod 2 ^ 32"
    by (simp_all add: unat_word_ariths)
  have le: "unat lo + 8 \<le> 2 ^ 32"
  proof -
    have "unat lo = 8 * (n - unat hi * 2 ^ 29)"
      using assms(1) by simp
    moreover have "8 * k < 2 ^ 32 \<Longrightarrow> 8 * k + 8 \<le> (2 :: nat) ^ 32" for k
      by (cases "k < 2 ^ 29") simp_all
    ultimately show ?thesis
      using lo by metis
  qed
  { assume "lo + 8 = 0"
    then have "(unat lo + 8) mod 2 ^ 32 = 0"
      using add(1) by simp
    with le have *: "unat lo + 8 = 2 ^ 32"
      by (cases "unat lo + 8 = 2 ^ 32") simp_all
    then have "(unat hi + 1) * 2 ^ 32 = 8 * (n + 1)"
      using assms(1) by (simp add: algebra_simps)
    moreover from this have "unat hi + 1 < 2 ^ 32"
      using assms(2) by simp
    ultimately show "hi + 1 \<noteq> 0 \<and> unat (hi + 1) * 2 ^ 32 = 8 * (n + 1)"
      using add(2) by auto }
  { assume "lo + 8 \<noteq> 0"
    then have "unat (lo + 8) \<noteq> 0"
      by (simp add: unat_eq_0)
    with add(1) le have "unat (lo + 8) = unat lo + 8"
      by (cases "unat lo + 8 = 2 ^ 32") simp_all
    then show "unat hi * 2 ^ 32 + unat (lo + 8) = 8 * (n + 1)"
      using assms(1) by simp }
qed

text \<open>What \<open>Input\<close> does to the members other than the buffer, in one step.\<close>

definition count_byte :: "SHA1 \<Rightarrow> SHA1" where
  "count_byte s =
     (if Length_Low s + 8 = 0
      then s\<lparr>Length_Low := 0, Length_High := Length_High s + 1,
             Corrupted := Corrupted s \<or> Length_High s + 1 = 0\<rparr>
      else s\<lparr>Length_Low := Length_Low s + 8\<rparr>)"

lemma input_byte_alt:
  "input_byte b s = (let s = count_byte (put b s)
     in if Message_Block_Index s = 64 then ProcessMessageBlock s else s)"
  by (simp add: input_byte_def count_byte_def Let_def put_def)

lemma put_simps [sha1_simps]:
  "Message_Block (put b s) = (Message_Block s)[Message_Block_Index s := b]"
  "Message_Block_Index (put b s) = Message_Block_Index s + 1"
  "Hs (put b s) = Hs s" "Length_Low (put b s) = Length_Low s" "Length_High (put b s) = Length_High s"
  "Computed (put b s) = Computed s" "Corrupted (put b s) = Corrupted s"
  by (simp_all add: put_def)

lemma count_byte_simps [sha1_simps]:
  "Message_Block (count_byte s) = Message_Block s"
  "Message_Block_Index (count_byte s) = Message_Block_Index s"
  "Hs (count_byte s) = Hs s" "Computed (count_byte s) = Computed s"
  by (simp_all add: count_byte_def)

lemma count_byte_up:
  assumes "unat (Length_High s) * 2 ^ 32 + unat (Length_Low s) = 8 * n" "8 * (n + 1) < 2 ^ 64"
  shows "unat (Length_High (count_byte s)) * 2 ^ 32 + unat (Length_Low (count_byte s)) = 8 * (n + 1)"
    and "Corrupted (count_byte s) = Corrupted s"
  using count_up [OF assms] by (auto simp: count_byte_def)

lemma input_byte_rep:
  assumes "sha1_rep s msg" "sha1_fits (msg @ [b])"
  shows "sha1_rep (input_byte b s) (msg @ [b])"
proof -
  let ?s = "count_byte (put b s)"
  have blk: "take (Suc (length msg mod 64)) (Message_Block ?s)
      = drop (64 * (length msg div 64)) msg @ [b]"
    using assms(1) by (simp add: sha1_rep_def sha1_simps)
  have cnt: "unat (Length_High ?s) * 2 ^ 32 + unat (Length_Low ?s) = 8 * (length msg + 1)"
      "Corrupted ?s = Corrupted s"
    using assms count_byte_up [of "put b s" "length msg"] by (simp_all add: sha1_rep_def sha1_fits_def sha1_simps)
  show ?thesis
  proof (cases "length msg mod 64 = 63")
    case True
    with blk assms cnt show ?thesis
      using blocks_snoc_full [OF True, of b]
      by (simp add: sha1_rep_def input_byte_alt Let_def sha1_simps ProcessMessageBlock_spec
        minus_mult_div_eq_mod)
  next
    case False
    then have "length msg mod 64 < 63"
      using mod_less_divisor [of 64 "length msg"] by simp
    with blk assms cnt show ?thesis
      using blocks_snoc_part [of msg b]
      by (simp add: sha1_rep_def input_byte_alt Let_def sha1_simps)
  qed
qed

lemma input_loop_rep: "sha1_rep s msg \<Longrightarrow> sha1_fits (msg @ bs) \<Longrightarrow> sha1_rep (input_loop bs s) (msg @ bs)"
proof (induction bs arbitrary: s msg)
  case (Cons b bs)
  then have "sha1_fits (msg @ [b])"
    by (auto simp: sha1_fits_def)
  with Cons.prems(1) have "sha1_rep (input_byte b s) (msg @ [b])"
    by (rule input_byte_rep)
  with Cons.IH [of "input_byte b s" "msg @ [b]"] Cons.prems show ?case
    by (simp add: sha1_rep_def)
qed simp

lemma Input_rep: "sha1_rep s msg \<Longrightarrow> sha1_fits (msg @ bs) \<Longrightarrow> sha1_rep (Input bs s) (msg @ bs)"
  using input_loop_rep [of s msg bs] by (auto simp: Input_def sha1_rep_def)

lemma Reset_rep: "raw_SHA1 s \<Longrightarrow> sha1_rep (Reset s) []"
  by (simp add: raw_SHA1_def sha1_rep_def Reset_def H0_def sha1_fits_def)

text \<open>The filling loop: what stood before the index stays, zeros follow up to the bound.\<close>

lemma zeros_to_spec:
  assumes "Message_Block_Index s \<le> n" "n \<le> length (Message_Block s)"
  shows "zeros_to n s = s\<lparr>Message_Block := take (Message_Block_Index s) (Message_Block s)
      @ replicate (n - Message_Block_Index s) 0 @ drop n (Message_Block s), Message_Block_Index := n\<rparr>"
  using assms
proof (induction n s rule: zeros_to.induct)
  case (1 n s)
  show ?case
  proof (cases "Message_Block_Index s < n")
    case True
    then have "n - Message_Block_Index s = Suc (n - Suc (Message_Block_Index s))"
      by simp
    with 1 True show ?thesis
      by (subst zeros_to.simps) (simp add: put_def take_Suc_conv_app_nth)
  next
    case False
    with 1 show ?thesis
      by (subst zeros_to.simps) simp
  qed
qed

lemma be64_words:
  fixes h l :: u32
  shows "be64 (unat h * 2 ^ 32 + unat l) = be32 h @ be32 l"
proof -
  define n where "n = unat h * 2 ^ 32 + unat l"
  have l: "unat l < 2 ^ 32"
    using unsigned_less [of l] by simp
  have hi: "n div 2 ^ (32 + k) = unat h div 2 ^ k" for k
    using l by (simp add: n_def power_add div_mult2_eq)
  have "n = (unat h * 2 ^ (32 - k)) * 2 ^ k + unat l" if "k \<le> 32" for k
    using that by (simp add: n_def flip: power_add)
  then have "n div 2 ^ k = unat h * 2 ^ (32 - k) + unat l div 2 ^ k" if "k \<le> 32" for k
    using that by simp
  then have lo: "n div 2 ^ k mod 256 = unat l div 2 ^ k mod 256" if "k \<le> 24" for k
    using that dvd_imp_mod_0 [OF le_imp_power_dvd [of 8 "32 - k" "2 :: nat"]]
    by (simp add: mod_add_left_eq [symmetric] mod_mult_right_eq [symmetric])
  have cast: "(word_of_nat a :: byte) = ucast (drop_bit k w)" if "a mod 256 = unat w div 2 ^ k mod 256"
    for a k and w :: u32
    using that by (simp add: unsigned_ucast_eq word_unat_eq_iff unat_of_nat unat_drop_bit take_bit_eq_mod)
  show ?thesis
    unfolding n_def [symmetric] be64_def be32_def
    using hi [of 24] hi [of 16] hi [of 8] hi [of 0] lo [of 24] lo [of 16] lo [of 8] lo [of 0]
      cast [of "n div 256 ^ 7" h 24] cast [of "n div 256 ^ 6" h 16] cast [of "n div 256 ^ 5" h 8]
      cast [of "n div 256 ^ 4" h 0] cast [of "n div 256 ^ 3" l 24] cast [of "n div 256 ^ 2" l 16]
      cast [of "n div 256 ^ 1" l 8] cast [of "n div 256 ^ 0" l 0]
    by simp
qed

lemma put_length_spec:
  assumes "length (Message_Block s) = 64"
  shows "put_length s = s\<lparr>Message_Block := take 56 (Message_Block s)
     @ be64 (unat (Length_High s) * 2 ^ 32 + unat (Length_Low s))\<rparr>"
proof -
  have "blk[56 := a, 57 := b, 58 := c, 59 := d, 60 := e, 61 := f, 62 := g, 63 := h]
      = take 56 blk @ [a, b, c, d, e, f, g, h]" if "length blk = 64" for blk and a b c d e f g h :: byte
    using that by (auto intro!: nth_equalityI simp: nth_list_update nth_append nth_Cons' less_Suc_eq)
  then show ?thesis
    unfolding be64_words be32_def using assms by (simp add: put_length_def and_ff)
qed

lemma blocks_pad:
  assumes "length full = 64 * n" "length rest < 64"
  shows "length rest \<le> 55 \<Longrightarrow> blocks (pad (full @ rest)) = blocks full @
      [rest @ [0x80] @ replicate (55 - length rest) 0 @ be64 (8 * length (full @ rest))]"
    and "55 < length rest \<Longrightarrow> blocks (pad (full @ rest)) = blocks full @
      [rest @ [0x80] @ replicate (63 - length rest) 0, replicate 56 0 @ be64 (8 * length (full @ rest))]"
proof -
  have r: "length (full @ rest) mod 64 = length rest"
    using assms by simp
  have pad: "blocks (pad (full @ rest)) = blocks full @
      blocks (rest @ [0x80] @ replicate (pad_zeros (length (full @ rest))) 0 @ be64 (8 * length (full @ rest)))"
    unfolding pad_def append_assoc by (rule blocks_append [OF assms(1)])
  { assume s: "length rest \<le> 55"
    then have "pad_zeros (length (full @ rest)) = 55 - length rest"
      unfolding pad_zeros_def r by (subst le_mod_geq) simp_all
    with s pad show "blocks (pad (full @ rest)) = blocks full @
      [rest @ [0x80] @ replicate (55 - length rest) 0 @ be64 (8 * length (full @ rest))]"
      by (simp add: blocks_single) }
  { assume s: "55 < length rest"
    then have z: "pad_zeros (length (full @ rest)) = (63 - length rest) + 56"
      unfolding pad_zeros_def r using assms(2) by simp
    have "blocks ((rest @ [0x80] @ replicate (63 - length rest) 0) @ (replicate 56 0 @ b)) =
        [rest @ [0x80] @ replicate (63 - length rest) 0, replicate 56 0 @ b]" if "length b = 8" for b :: bytes
      using s assms(2) that by (subst blocks_append [where n = 1]) (simp_all add: blocks_single)
    then show "blocks (pad (full @ rest)) = blocks full @
      [rest @ [0x80] @ replicate (63 - length rest) 0, replicate 56 0 @ be64 (8 * length (full @ rest))]"
      unfolding pad z by (simp add: replicate_add) }
qed

lemma PadMessage_short:
  assumes "length (Message_Block s) = 64" "Message_Block_Index s \<le> 55"
    and "blk = take (Message_Block_Index s) (Message_Block s) @ [0x80]
      @ replicate (55 - Message_Block_Index s) 0
      @ be64 (unat (Length_High s) * 2 ^ 32 + unat (Length_Low s))"
  shows "PadMessage s = s\<lparr>Message_Block_Index := 0, Message_Block := blk, Hs := compress blk (Hs s)\<rparr>"
  using assms
  by (intro SHA1.equality; simp add: PadMessage_def Let_def zeros_to_spec put_length_spec
    ProcessMessageBlock_spec put_def take_Suc_conv_app_nth take_Cons')

lemma PadMessage_long:
  assumes "length (Message_Block s) = 64" "55 < Message_Block_Index s" "Message_Block_Index s < 64"
    and "blk = take (Message_Block_Index s) (Message_Block s) @ [0x80]
        @ replicate (63 - Message_Block_Index s) 0"
      "blk' = replicate 56 0 @ be64 (unat (Length_High s) * 2 ^ 32 + unat (Length_Low s))"
  shows "PadMessage s = s\<lparr>Message_Block_Index := 0, Message_Block := blk',
    Hs := compress blk' (compress blk (Hs s))\<rparr>"
  using assms
  by (intro SHA1.equality; simp add: PadMessage_def Let_def zeros_to_spec put_length_spec
    ProcessMessageBlock_spec put_def take_Suc_conv_app_nth take_Cons')

lemma PadMessage_rep:
  assumes "sha1_rep s msg"
  obtains blk where "length blk = 64"
    "PadMessage s = s\<lparr>Message_Block_Index := 0, Message_Block := blk, Hs := sha1 msg\<rparr>"
proof -
  obtain full rest where r: "msg = full @ rest" "length full = 64 * (length msg div 64)"
      "length rest = length msg mod 64" "rest = drop (64 * (length msg div 64)) msg"
    by (rule split_tail)
  have l: "length rest < 64"
    using r(3) by simp
  have s: "length (Message_Block s) = 64" "Message_Block_Index s = length rest"
    "take (Message_Block_Index s) (Message_Block s) = rest" "Hs s = fold compress (blocks full) H0"
    "unat (Length_High s) * 2 ^ 32 + unat (Length_Low s) = 8 * length msg"
    using assms r(3,4) blocks_full [OF r(2) l] unfolding sha1_rep_def r(1) [symmetric] by simp_all
  show thesis
  proof (cases "length rest \<le> 55")
    case True
    then show thesis
      using PadMessage_short [OF s(1) _ refl] blocks_pad(1) [OF r(2) l True] s l
      unfolding r(1) [symmetric]
      by (intro that [of "rest @ [0x80] @ replicate (55 - length rest) 0 @ be64 (8 * length msg)"])
        (auto simp: sha1_def)
  next
    case False
    then show thesis
      using PadMessage_long [OF s(1) _ _ refl refl] blocks_pad(2) [OF r(2) l] s l
      unfolding r(1) [symmetric]
      by (intro that [of "replicate 56 0 @ be64 (8 * length msg)"]) (auto simp: sha1_def)
  qed
qed

lemma Result_rep:
  assumes "sha1_rep s msg"
  shows "snd (Result s) = Some (sha1 msg)" "Hs (fst (Result s)) = sha1 msg"
    "Computed (fst (Result s))" "\<not> Corrupted (fst (Result s))"
  by (rule PadMessage_rep [OF assms], use assms in \<open>simp add: Result_def sha1_rep_def\<close>)+

interpretation sha: sha1_stream raw_SHA1 new_SHA1 Input "snd \<circ> Result" sha1_rep
  by unfold_locales (auto simp: new_SHA1_def Reset_rep Input_rep Result_rep)

section \<open>Every object stays inside its arrays\<close>

text \<open>
  The five words, the 64 bytes, and an index below 64 whatever the calls and also once the
  object is corrupted: each write \<open>Message_Block[Message_Block_Index++]\<close> is then in range.
\<close>

definition sha1_ok :: "SHA1 \<Rightarrow> bool" where
  "sha1_ok s \<longleftrightarrow> length (Hs s) = 5 \<and> length (Message_Block s) = 64 \<and> Message_Block_Index s < 64"

lemma Reset_ok: "raw_SHA1 s \<Longrightarrow> sha1_ok (Reset s)"
  by (simp add: raw_SHA1_def sha1_ok_def Reset_def)

lemma input_byte_ok: "sha1_ok s \<Longrightarrow> sha1_ok (input_byte b s)"
  by (auto simp: sha1_ok_def input_byte_alt Let_def sha1_simps ProcessMessageBlock_spec)

lemma input_loop_ok: "sha1_ok s \<Longrightarrow> sha1_ok (input_loop bs s)"
  by (induction bs s rule: input_loop.induct) (auto intro: input_byte_ok)

lemma Input_ok: "sha1_ok s \<Longrightarrow> sha1_ok (Input bs s)"
  using input_loop_ok [of s bs] by (auto simp: Input_def sha1_ok_def)

lemma PadMessage_ok: "sha1_ok s \<Longrightarrow> sha1_ok (PadMessage s)"
  by (cases "Message_Block_Index s \<le> 55")
    (auto simp: sha1_ok_def PadMessage_short [OF _ _ refl] PadMessage_long [OF _ _ _ refl refl])

lemma Result_ok: "sha1_ok s \<Longrightarrow> sha1_ok (fst (Result s))"
  using PadMessage_ok [of s] by (auto simp: Result_def Let_def sha1_ok_def)

section \<open>Chains of characters, and the object after its digest\<close>

lemma Input_cstr_rep:
  "sha1_rep s msg \<Longrightarrow> sha1_fits (msg @ c_str arr) \<Longrightarrow> sha1_rep (Input_cstr arr s) (msg @ c_str arr)"
  using sha.rep_fold [of s msg "map (\<lambda>b. [b]) (c_str arr)"]
  by (simp add: Input_cstr_def fold_map comp_def)

lemma zeros_to_flags [sha1_simps]: "Corrupted (zeros_to n s) = Corrupted s"
  by (induction n s rule: zeros_to.induct) (subst zeros_to.simps, simp add: sha1_simps)

lemma PadMessage_flags [sha1_simps]: "Corrupted (PadMessage s) = Corrupted s"
  by (simp add: PadMessage_def Let_def ProcessMessageBlock_spec put_length_def sha1_simps)

lemma Result_again:
  "Result s = (s', Some d) \<Longrightarrow> Computed s' \<and> \<not> Corrupted s' \<and> Result s' = (s', Some d)"
  by (auto simp: Result_def Let_def sha1_simps split: if_splits)

section \<open>Properties\<close>

text \<open>
  C16: a new object of the class, given a message of less than 2 to the 64 bits by any sequence of
  \<open>Input\<close> calls, returns the SHA-1 digest of the message.
\<close>

theorem sha1_class_digest:
  assumes "raw_SHA1 s" "sha1_fits (concat xss)"
  shows "snd (Result (fold Input xss (new_SHA1 s))) = Some (sha1 (concat xss))"
  using sha.digest_chunks [OF assms] by simp

theorem sha1_class_digest_witness:
  "snd (Result (fold Input [[97], [], [98, 99]] (new_SHA1 \<lparr>Hs = [], Length_Low = 7, Length_High = 0,
     Message_Block = replicate 64 1, Message_Block_Index = 9, Computed = True, Corrupted = True\<rparr>)))
   = Some (sha1 [97, 98, 99])"
  using sha1_class_digest [of "\<lparr>Hs = [], Length_Low = 7, Length_High = 0,
     Message_Block = replicate 64 1, Message_Block_Index = 9, Computed = True, Corrupted = True\<rparr>"
     "[[97], [], [98, 99]]"]
  by (simp add: raw_SHA1_def sha1_fits_def)

text \<open>
  After a digest has been returned, asking again gives the same digest, and the next non-empty
  \<open>Input\<close> marks the object corrupted, so that \<open>Result\<close> fails from then on.
\<close>

theorem sha1_after_result:
  assumes "Result s = (s', Some d)" "bs \<noteq> []"
  shows "Result s' = (s', Some d) \<and> snd (Result (Input bs s')) = None"
proof
  show "Result s' = (s', Some d)"
    using Result_again [OF assms(1)] by blast
  show "snd (Result (Input bs s')) = None"
    using Result_again [OF assms(1)] assms(2) by (simp add: Input_def Result_def)
qed

theorem sha1_after_result_witness:
  "\<exists>s' d. Result s' = (s', Some d) \<and> snd (Result (Input [1] s')) = None"
proof -
  let ?s = "Reset \<lparr>Hs = [], Length_Low = 0, Length_High = 0, Message_Block = replicate 64 0,
    Message_Block_Index = 0, Computed = False, Corrupted = False\<rparr>"
  have "\<exists>s' d. Result ?s = (s', Some d)"
    by (simp add: Result_def Reset_def Let_def)
  then obtain s' d where "Result ?s = (s', Some d)"
    by blast
  from sha1_after_result [OF this, of "[1]"] show ?thesis
    by blast
qed

text \<open>The public calls on an object.\<close>

datatype sha1_call = Call_Reset | Call_Input bytes | Call_Chars bytes | Call_Result

fun sha1_do :: "sha1_call \<Rightarrow> SHA1 \<Rightarrow> SHA1" where
  "sha1_do Call_Reset s = Reset s"
| "sha1_do (Call_Input bs) s = Input bs s"
| "sha1_do (Call_Chars arr) s = Input_cstr arr s"
| "sha1_do Call_Result s = fst (Result s)"

lemma Input_cstr_ok: "sha1_ok s \<Longrightarrow> sha1_ok (Input_cstr arr s)"
proof -
  have "sha1_ok t \<Longrightarrow> sha1_ok (fold (\<lambda>b. Input [b]) bs t)" for bs t
    by (induction bs arbitrary: t) (simp_all add: Input_ok)
  then show "sha1_ok s \<Longrightarrow> sha1_ok (Input_cstr arr s)"
    by (simp add: Input_cstr_def)
qed

lemma sha1_do_ok: "sha1_ok s \<Longrightarrow> sha1_ok (sha1_do c s)"
proof -
  assume s: "sha1_ok s"
  then have "raw_SHA1 s"
    by (simp add: sha1_ok_def raw_SHA1_def)
  with s show ?thesis
    by (cases c) (simp_all add: Input_ok Input_cstr_ok Result_ok Reset_ok)
qed

text \<open>
  Whatever sequence of public calls is made on an object, corrupting ones included, the index
  into its block stays below 64 and its arrays keep their sizes.
\<close>

theorem sha1_in_bounds:
  assumes "raw_SHA1 s"
  shows "sha1_ok (fold sha1_do calls (new_SHA1 s))"
proof -
  have "sha1_ok t \<Longrightarrow> sha1_ok (fold sha1_do calls t)" for t
    by (induction calls arbitrary: t) (simp_all add: sha1_do_ok)
  with assms show ?thesis
    by (simp add: new_SHA1_def Reset_ok)
qed

theorem sha1_in_bounds_witness:
  "sha1_ok (fold sha1_do [Call_Input (replicate 60 1), Call_Result, Call_Input [2], Call_Result, Call_Reset]
     (new_SHA1 \<lparr>Hs = [], Length_Low = 0, Length_High = 0, Message_Block = replicate 64 0,
       Message_Block_Index = 0, Computed = False, Corrupted = False\<rparr>))"
  by (rule sha1_in_bounds) (simp add: raw_SHA1_def)

end
