(* ===== verification/Client_Sha1.thy ===== *)
theory Client_Sha1
  imports Sha1
begin

text \<open>
  SHA-1 of the client library (\<^verbatim>\<open>src/src/websocket-client.cc\<close>): the struct
  \<open>SHA1Context\<close> and its functions, written a second time in C, and \<open>sha1_hash\<close>, \<open>tolower\<close> and
  \<open>htoi\<close>, by which the client takes the digest through its hexadecimal form.  The functions
  are shown to simulate the server's class, so the contract of the class is theirs as well.
\<close>

record SHA1Context =
  Message_Digest :: "u32 list"
  c_Length_Low :: u32
  c_Length_High :: u32
  c_Message_Block :: bytes
  c_Message_Block_Index :: nat
  c_Computed :: int
  c_Corrupted :: int

section \<open>The functions\<close>

definition SHA1CircularShift :: "nat \<Rightarrow> u32 \<Rightarrow> u32" where
  "SHA1CircularShift bits w = (push_bit bits w AND 0xFFFFFFFF) OR drop_bit (32 - bits) w"

definition c_first_words :: "bytes \<Rightarrow> u32 list" where
  "c_first_words blk = map (\<lambda>t. push_bit 24 (ucast (blk ! (t * 4)))
     OR push_bit 16 (ucast (blk ! (t * 4 + 1)))
     OR push_bit 8 (ucast (blk ! (t * 4 + 2)))
     OR ucast (blk ! (t * 4 + 3))) [0..<16]"

definition c_next_word :: "nat \<Rightarrow> u32 list \<Rightarrow> u32 list" where
  "c_next_word t W =
     W @ [SHA1CircularShift 1 (W ! (t - 3) XOR W ! (t - 8) XOR W ! (t - 14) XOR W ! (t - 16))]"

fun c_round ::
  "(u32 \<Rightarrow> u32 \<Rightarrow> u32 \<Rightarrow> u32) \<Rightarrow> u32 \<Rightarrow> u32 list \<Rightarrow> nat \<Rightarrow> vars \<Rightarrow> vars" where
  "c_round f k W t (A, B, C, D, E) =
     (let temp = SHA1CircularShift 5 A + f B C D + E + W ! t + k
      in (temp AND 0xFFFFFFFF, A, SHA1CircularShift 30 B, C, D))"

definition c_more_words :: "u32 list \<Rightarrow> u32 list" where
  "c_more_words ws = fold c_next_word [16..<80] ws"

definition c_rounds :: "u32 list \<Rightarrow> vars \<Rightarrow> vars" where
  "c_rounds W vs =
     (let vs = fold (c_round (\<lambda>B C D. (B AND C) OR (NOT B AND D)) 0x5A827999 W) [0..<20] vs;
          vs = fold (c_round (\<lambda>B C D. B XOR C XOR D) 0x6ED9EBA1 W) [20..<40] vs;
          vs = fold (c_round (\<lambda>B C D. (B AND C) OR (B AND D) OR (C AND D)) 0x8F1BBCDC W) [40..<60] vs
      in fold (c_round (\<lambda>B C D. B XOR C XOR D) 0xCA62C1D6 W) [60..<80] vs)"

definition SHA1ProcessMessageBlock :: "SHA1Context \<Rightarrow> SHA1Context" where
  "SHA1ProcessMessageBlock c =
     (let W = c_more_words (c_first_words (c_Message_Block c));
          H = Message_Digest c;
          (A, B, C, D, E) = c_rounds W (H ! 0, H ! 1, H ! 2, H ! 3, H ! 4)
      in c\<lparr>Message_Digest := [(H ! 0 + A) AND 0xFFFFFFFF, (H ! 1 + B) AND 0xFFFFFFFF,
                 (H ! 2 + C) AND 0xFFFFFFFF, (H ! 3 + D) AND 0xFFFFFFFF, (H ! 4 + E) AND 0xFFFFFFFF],
           c_Message_Block_Index := 0\<rparr>)"

definition SHA1Reset :: "SHA1Context \<Rightarrow> SHA1Context" where
  "SHA1Reset c = c\<lparr>c_Length_Low := 0, c_Length_High := 0, c_Message_Block_Index := 0,
     Message_Digest := [0x67452301, 0xEFCDAB89, 0x98BADCFE, 0x10325476, 0xC3D2E1F0],
     c_Computed := 0, c_Corrupted := 0\<rparr>"

definition c_put :: "byte \<Rightarrow> SHA1Context \<Rightarrow> SHA1Context" where
  "c_put b c = c\<lparr>c_Message_Block := (c_Message_Block c)[c_Message_Block_Index c := b],
     c_Message_Block_Index := c_Message_Block_Index c + 1\<rparr>"

function c_zeros_to :: "nat \<Rightarrow> SHA1Context \<Rightarrow> SHA1Context" where
  "c_zeros_to n c = (if c_Message_Block_Index c < n then c_zeros_to n (c_put 0 c) else c)"
  by pat_completeness auto
termination
  by (relation "measure (\<lambda>(n, c). n - c_Message_Block_Index c)") (auto simp: c_put_def)

declare c_zeros_to.simps [simp del]

definition SHA1PadMessage :: "SHA1Context \<Rightarrow> SHA1Context" where
  "SHA1PadMessage c =
     (let c = (if 55 < c_Message_Block_Index c
               then c_zeros_to 56 (SHA1ProcessMessageBlock (c_zeros_to 64 (c_put 0x80 c)))
               else c_zeros_to 56 (c_put 0x80 c));
          hi = c_Length_High c; lo = c_Length_Low c
      in SHA1ProcessMessageBlock (c\<lparr>c_Message_Block := (c_Message_Block c)
           [56 := ucast (drop_bit 24 hi AND 0xFF), 57 := ucast (drop_bit 16 hi AND 0xFF),
            58 := ucast (drop_bit 8 hi AND 0xFF), 59 := ucast (hi AND 0xFF),
            60 := ucast (drop_bit 24 lo AND 0xFF), 61 := ucast (drop_bit 16 lo AND 0xFF),
            62 := ucast (drop_bit 8 lo AND 0xFF), 63 := ucast (lo AND 0xFF)]\<rparr>))"

definition SHA1Result :: "SHA1Context \<Rightarrow> SHA1Context \<times> int" where
  "SHA1Result c =
     (if c_Corrupted c \<noteq> 0 then (c, 0)
      else if c_Computed c = 0 then ((SHA1PadMessage c)\<lparr>c_Computed := 1\<rparr>, 1)
      else (c, 1))"

definition c_input_byte :: "byte \<Rightarrow> SHA1Context \<Rightarrow> SHA1Context" where
  "c_input_byte b c =
     (let c = c_put b c;
          c = c\<lparr>c_Length_Low := (c_Length_Low c + 8) AND 0xFFFFFFFF\<rparr>;
          c = (if c_Length_Low c = 0
               then let c = c\<lparr>c_Length_High := (c_Length_High c + 1) AND 0xFFFFFFFF\<rparr>
                    in if c_Length_High c = 0 then c\<lparr>c_Corrupted := 1\<rparr> else c
               else c)
      in if c_Message_Block_Index c = 64 then SHA1ProcessMessageBlock c else c)"

fun c_input_loop :: "bytes \<Rightarrow> SHA1Context \<Rightarrow> SHA1Context" where
  "c_input_loop [] c = c"
| "c_input_loop (b # bs) c = (if c_Corrupted c \<noteq> 0 then c else c_input_loop bs (c_input_byte b c))"

definition SHA1Input :: "bytes \<Rightarrow> SHA1Context \<Rightarrow> SHA1Context" where
  "SHA1Input bs c =
     (if bs = [] then c
      else if c_Computed c \<noteq> 0 \<or> c_Corrupted c \<noteq> 0 then c\<lparr>c_Corrupted := 1\<rparr>
      else c_input_loop bs c)"

section \<open>The simulation\<close>

definition sha_of :: "SHA1Context \<Rightarrow> SHA1" where
  "sha_of c = \<lparr>Hs = Message_Digest c, Length_Low = c_Length_Low c, Length_High = c_Length_High c,
     Message_Block = c_Message_Block c, Message_Block_Index = c_Message_Block_Index c,
     Computed = (c_Computed c \<noteq> 0), Corrupted = (c_Corrupted c \<noteq> 0)\<rparr>"

lemma SHA1CircularShift_eq: "SHA1CircularShift = CircularShift"
  by (simp add: fun_eq_iff SHA1CircularShift_def CircularShift_def)

lemma c_round_eq: "c_round = sha1_round"
  by (auto simp: fun_eq_iff SHA1CircularShift_eq)

lemma c_rounds_eq: "c_rounds = sha1_rounds"
  by (simp only: fun_eq_iff c_rounds_def sha1_rounds_def c_round_eq) blast

lemma c_next_word_eq: "c_next_word = next_word"
  by (simp only: fun_eq_iff c_next_word_def next_word_def SHA1CircularShift_eq) blast

lemma c_words_eq: "c_more_words = more_words" "c_first_words = first_words"
  by (simp_all only: fun_eq_iff c_more_words_def more_words_def c_next_word_eq
    c_first_words_def first_words_def) blast+

lemma sim_block: "sha_of (SHA1ProcessMessageBlock c) = ProcessMessageBlock (sha_of c)"
  by (simp add: SHA1ProcessMessageBlock_def ProcessMessageBlock_def c_rounds_eq
    c_words_eq Let_def sha_of_def split: prod.split)

lemma sim_reset: "sha_of (SHA1Reset c) = Reset (sha_of c)"
  by (simp add: sha_of_def SHA1Reset_def Reset_def)

lemma sim_put: "sha_of (c_put b c) = put b (sha_of c)"
  by (simp add: sha_of_def c_put_def put_def)

lemma sim_zeros: "sha_of (c_zeros_to n c) = zeros_to n (sha_of c)"
proof (induction n c rule: c_zeros_to.induct)
  case (1 n c)
  then show ?case
    by (subst c_zeros_to.simps, subst zeros_to.simps) (simp add: sim_put, simp add: sha_of_def)
qed

lemma sim_pad: "sha_of (SHA1PadMessage c) = PadMessage (sha_of c)"
proof -
  have "sha_of (c\<lparr>c_Message_Block := (c_Message_Block c)
           [56 := ucast (drop_bit 24 (c_Length_High c) AND 0xFF), 57 := ucast (drop_bit 16 (c_Length_High c) AND 0xFF),
            58 := ucast (drop_bit 8 (c_Length_High c) AND 0xFF), 59 := ucast (c_Length_High c AND 0xFF),
            60 := ucast (drop_bit 24 (c_Length_Low c) AND 0xFF), 61 := ucast (drop_bit 16 (c_Length_Low c) AND 0xFF),
            62 := ucast (drop_bit 8 (c_Length_Low c) AND 0xFF), 63 := ucast (c_Length_Low c AND 0xFF)]\<rparr>)
      = put_length (sha_of c)" for c
    by (simp add: sha_of_def put_length_def)
  moreover have "c_Message_Block_Index c = Message_Block_Index (sha_of c)"
    by (simp add: sha_of_def)
  ultimately show ?thesis
    by (simp add: SHA1PadMessage_def PadMessage_def Let_def sim_block sim_zeros sim_put)
qed

lemma sim_byte: "sha_of (c_input_byte b c) = input_byte b (sha_of c)"
proof -
  have i: "c_Message_Block_Index c = Message_Block_Index (sha_of c)" for c
    by (simp add: sha_of_def)
  show ?thesis
    by (auto simp: c_input_byte_def input_byte_def Let_def sim_block i)
      (simp_all add: sha_of_def c_put_def put_def)
qed

lemma sim_input_loop: "sha_of (c_input_loop bs c) = input_loop bs (sha_of c)"
  by (induction bs c rule: c_input_loop.induct) (auto simp: sim_byte, simp_all add: sha_of_def)

lemma sim_input: "sha_of (SHA1Input bs c) = Input bs (sha_of c)"
  by (auto simp: SHA1Input_def Input_def sim_input_loop) (simp_all add: sha_of_def)

lemma sim_result:
  "sha_of (fst (SHA1Result c)) = fst (Result (sha_of c))"
  "snd (SHA1Result c) = (if snd (Result (sha_of c)) = None then 0 else 1)"
  by (auto simp: SHA1Result_def Result_def Let_def simp flip: sim_pad) (simp_all add: sha_of_def)

text \<open>
  \<open>SHA1Result\<close> leaves the digest in the context; the caller reads it when the result is 1.
\<close>

definition context_digest :: "SHA1Context \<Rightarrow> u32 list option" where
  "context_digest c = (let (c, ok) = SHA1Result c in if ok = 0 then None else Some (Message_Digest c))"

lemma context_digest_rep:
  assumes "sha1_rep (sha_of c) msg"
  shows "context_digest c = Some (sha1 msg)"
proof -
  have "Message_Digest (fst (SHA1Result c)) = Hs (sha_of (fst (SHA1Result c)))"
    by (simp add: sha_of_def)
  then show ?thesis
    using Result_rep [OF assms]
    by (simp add: context_digest_def sim_result case_prod_beta Let_def)
qed

interpretation ctx: sha1_stream "raw_SHA1 \<circ> sha_of" SHA1Reset SHA1Input context_digest "sha1_rep \<circ> sha_of"
  by unfold_locales (auto simp: sim_reset Reset_rep sim_input Input_rep context_digest_rep)

section \<open>The digest in hexadecimal\<close>

text \<open>\<open>sprintf\<close> with \<open>%08X\<close>.\<close>

definition hex_char :: "nat \<Rightarrow> byte" where
  "hex_char d = word_of_nat (if d < 10 then 48 + d else 55 + d)"

definition hex8 :: "u32 \<Rightarrow> bytes" where
  "hex8 w = map (\<lambda>k. hex_char (unat (drop_bit k w) mod 16)) [28, 24, 20, 16, 12, 8, 4, 0]"

text \<open>
  The hash of the C string at \<open>source\<close>, on a context with any content; the result is the buffer
  of 128 bytes that was zeroed first.  The length goes through an \<open>unsigned\<close> parameter.
\<close>

definition sha1_hash :: "SHA1Context \<Rightarrow> bytes \<Rightarrow> bytes option" where
  "sha1_hash sha source =
     (let src = c_str source;
          (sha, ok) = SHA1Result (SHA1Input (take (length src mod 2 ^ 32) src) (SHA1Reset sha))
      in if ok = 0 then None
         else let D = Message_Digest sha
              in Some (hex8 (D ! 0) @ hex8 (D ! 1) @ hex8 (D ! 2) @ hex8 (D ! 3) @ hex8 (D ! 4)
                   @ replicate 88 NUL))"

definition tolower :: "int \<Rightarrow> int" where
  "tolower c = (if 65 \<le> c \<and> c \<le> 90 then c + 97 - 65 else c)"

definition is_hex :: "int \<Rightarrow> bool" where
  "is_hex c \<longleftrightarrow> 48 \<le> c \<and> c \<le> 57 \<or> 97 \<le> c \<and> c \<le> 102 \<or> 65 \<le> c \<and> c \<le> 70"

text \<open>\<open>r\<close> is \<open>len - j\<close>, the digits still to take; a \<open>char\<close> is signed.\<close>

fun htoi_loop :: "bytes \<Rightarrow> nat \<Rightarrow> nat \<Rightarrow> int \<Rightarrow> int option" where
  "htoi_loop s i r n = do {
     c \<leftarrow> get s i;
     if is_hex (sint c) then
       (case r of
          0 \<Rightarrow> Some n
        | Suc r' \<Rightarrow> htoi_loop s (i + 1) r'
            (if 57 < tolower (sint c) then 16 * n + (10 + tolower (sint c) - 97)
             else 16 * n + (tolower (sint c) - 48)))
     else Some n }"

declare htoi_loop.simps [simp del]

definition htoi :: "bytes \<Rightarrow> nat \<Rightarrow> nat \<Rightarrow> int option" where
  "htoi s start len = do {
     c0 \<leftarrow> get s 0;
     pre \<leftarrow> (if c0 = 48 then do { c1 \<leftarrow> get s 1; Some (c1 = 120 \<or> c1 = 88) } else Some False);
     htoi_loop s ((if pre then 2 else 0) + start) len 0 }"

text \<open>Reading back two digits at an even place of the text.\<close>

lemma hex_char_facts:
  assumes "d < 16"
  shows "is_hex (sint (hex_char d))" "hex_char d \<noteq> 120" "hex_char d \<noteq> 88" "hex_char d \<noteq> 0"
    "(if 57 < tolower (sint (hex_char d)) then 10 + tolower (sint (hex_char d)) - 97
      else tolower (sint (hex_char d)) - 48) = int d"
proof -
  have "list_all (\<lambda>d. is_hex (sint (hex_char d)) \<and> hex_char d \<noteq> 120 \<and> hex_char d \<noteq> 88 \<and> hex_char d \<noteq> 0 \<and>
    (if 57 < tolower (sint (hex_char d)) then 10 + tolower (sint (hex_char d)) - 97
      else tolower (sint (hex_char d)) - 48) = int d) [0..<16]"
    by code_simp
  then show "is_hex (sint (hex_char d))" "hex_char d \<noteq> 120" "hex_char d \<noteq> 88" "hex_char d \<noteq> 0"
    "(if 57 < tolower (sint (hex_char d)) then 10 + tolower (sint (hex_char d)) - 97
      else tolower (sint (hex_char d)) - 48) = int d"
    using assms by (auto simp: list_all_iff)
qed

lemma htoi_step:
  assumes "get s i = Some (hex_char d)" "d < 16"
  shows "htoi_loop s i (Suc r) n = htoi_loop s (Suc i) r (16 * n + int d)"
proof -
  have "(if 57 < tolower (sint (hex_char d)) then 16 * n + (10 + tolower (sint (hex_char d)) - 97)
      else 16 * n + (tolower (sint (hex_char d)) - 48)) = 16 * n + int d"
    using hex_char_facts(5) [OF assms(2)] by (auto split: if_splits)
  then show ?thesis
    using assms(1) hex_char_facts(1) [OF assms(2)] by (subst htoi_loop.simps) simp
qed

lemma htoi_pair:
  assumes "s ! 0 = hex_char d0" "s ! 1 = hex_char d1" "d0 < 16" "d1 < 16"
    and "s ! i = hex_char a" "s ! Suc i = hex_char b" "a < 16" "b < 16" "i + 2 < length s"
  shows "htoi s i 2 = Some (int (16 * a + b))"
proof -
  have "get s 0 = Some (hex_char d0)" "get s 1 = Some (hex_char d1)"
    using assms(1,2,9) by (auto simp: get_def)
  then have "htoi s i 2 = htoi_loop s i (Suc (Suc 0)) 0"
    using hex_char_facts(2,3) [OF assms(4)] by (simp add: htoi_def numeral_2_eq_2)
  also have "\<dots> = htoi_loop s (Suc (Suc i)) 0 (int (16 * a + b))"
    using assms(5-9) by (simp add: htoi_step [of s i a] htoi_step [of s "Suc i" b])
  also have "\<dots> = Some (int (16 * a + b))"
    using assms(9) by (subst htoi_loop.simps) simp
  finally show ?thesis .
qed

text \<open>The text of a digest, byte by byte.\<close>

definition hex2 :: "byte \<Rightarrow> bytes" where
  "hex2 b = [hex_char (unat b div 16), hex_char (unat b mod 16)]"

lemma nibbles: "y div 16 mod 16 = y mod 256 div 16" "y mod 16 = y mod 256 mod 16" for y :: nat
proof -
  show "y mod 16 = y mod 256 mod 16"
    by (simp add: mod_mod_cancel)
  show "y div 16 mod 16 = y mod 256 div 16"
    using mod_mult2_eq [of y 16 16] by simp
qed

lemma hex8_be32: "hex8 w = concat (map hex2 (be32 w))"
proof -
  have "unat (drop_bit (k + 4) w) mod 16 = unat (ucast (drop_bit k w) :: byte) div 16"
    "unat (drop_bit k w) mod 16 = unat (ucast (drop_bit k w) :: byte) mod 16" for k
    using nibbles [of "unat (drop_bit k w)"]
    by (simp_all add: unat_drop_bit power_add div_mult2_eq unsigned_ucast_eq unat_take_bit take_bit_eq_mod)
  from this(1) [of 24] this(2) [of 24] this(1) [of 16] this(2) [of 16] this(1) [of 8] this(2) [of 8]
    this(1) [of 0] this(2) [of 0]
  show ?thesis
    by (simp add: hex8_def be32_def hex2_def)
qed

lemma length_hex: "length (concat (map hex2 bs)) = 2 * length bs"
  by (induction bs) (auto simp: hex2_def)

lemma nth_hex:
  "i < length bs \<Longrightarrow> concat (map hex2 bs) ! (2 * i) = hex_char (unat (bs ! i) div 16)"
  "i < length bs \<Longrightarrow> concat (map hex2 bs) ! Suc (2 * i) = hex_char (unat (bs ! i) mod 16)"
  by (induction bs arbitrary: i; case_tac i; simp add: hex2_def)+

definition digest_text :: "bytes \<Rightarrow> bytes" where
  "digest_text msg = concat (map hex2 (sha1_bytes msg)) @ replicate 88 NUL"

lemma hex2_not_NUL: "NUL \<notin> set (hex2 b)"
  using hex_char_facts(4) [of "unat b div 16"] hex_char_facts(4) [of "unat b mod 16"] byte_less [of b]
  by (auto simp: hex2_def)

lemma digest_text_c_str: "c_str (digest_text msg) = concat (map hex2 (sha1_bytes msg))"
proof -
  have "digest_text msg = concat (map hex2 (sha1_bytes msg)) @ NUL # replicate 87 NUL"
    by (simp add: digest_text_def flip: replicate_Suc)
  then show ?thesis
    using hex2_not_NUL by (auto intro: c_str_stop)
qed

lemma htoi_digest:
  assumes "i < 20"
  shows "htoi (digest_text msg) (2 * i) 2 = Some (int (unat (sha1_bytes msg ! i)))"
proof -
  have pos: "digest_text msg ! (2 * j) = hex_char (unat (sha1_bytes msg ! j) div 16)"
      "digest_text msg ! Suc (2 * j) = hex_char (unat (sha1_bytes msg ! j) mod 16)" if "j < 20" for j
    using that by (simp_all add: digest_text_def nth_append length_hex nth_hex)
  have "htoi (digest_text msg) (2 * i) 2 =
      Some (int (16 * (unat (sha1_bytes msg ! i) div 16) + unat (sha1_bytes msg ! i) mod 16))"
    using pos [of 0] pos [OF assms] byte_less [of "sha1_bytes msg ! 0"] byte_less [of "sha1_bytes msg ! i"] assms
    by (intro htoi_pair [where ?d0.0 = "unat (sha1_bytes msg ! 0) div 16"
          and ?d1.0 = "unat (sha1_bytes msg ! 0) mod 16"])
      (auto simp: digest_text_def length_hex)
  then show ?thesis
    by simp
qed

lemma sha1_hash_text:
  assumes "raw_SHA1 (sha_of sha)" "length (c_str source) < 2 ^ 32"
  shows "sha1_hash sha source = Some (digest_text (c_str source))"
proof -
  have "sha1_fits (c_str source)"
    using assms(2) by (simp add: sha1_fits_def)
  then have "context_digest (SHA1Input (c_str source) (SHA1Reset sha)) = Some (sha1 (c_str source))"
    using assms(1) ctx.digest by (simp add: comp_def)
  moreover obtain c ok where r: "SHA1Result (SHA1Input (c_str source) (SHA1Reset sha)) = (c, ok)"
    by fastforce
  ultimately have ok: "ok \<noteq> 0" "Message_Digest c = sha1 (c_str source)"
    by (auto simp: context_digest_def split: if_splits)
  obtain a b d e f where "sha1 (c_str source) = [a, b, d, e, f]"
    using length_sha1 [of "c_str source"] list_5 by blast
  then show ?thesis
    using ok assms(2) by (simp add: sha1_hash_def r digest_text_def sha1_bytes_def hex8_be32)
qed

section \<open>Properties\<close>

text \<open>
  C19: the client's SHA-1 functions return the digest of what they were given, in any pieces.
\<close>

theorem sha1_client_digest:
  assumes "raw_SHA1 (sha_of c)" "sha1_fits (concat xss)"
  shows "context_digest (fold SHA1Input xss (SHA1Reset c)) = Some (sha1 (concat xss))"
  using ctx.digest_chunks [of c xss] assms by simp

theorem sha1_client_digest_witness:
  "context_digest (fold SHA1Input [[1], [2, 3]] (SHA1Reset \<lparr>Message_Digest = [], c_Length_Low = 3,
     c_Length_High = 4, c_Message_Block = replicate 64 9, c_Message_Block_Index = 5, c_Computed = 1,
     c_Corrupted = 1\<rparr>)) = Some (sha1 [1, 2, 3])"
  using sha1_client_digest [of "\<lparr>Message_Digest = [], c_Length_Low = 3,
     c_Length_High = 4, c_Message_Block = replicate 64 9, c_Message_Block_Index = 5, c_Computed = 1,
     c_Corrupted = 1\<rparr>" "[[1], [2, 3]]"]
  by (simp add: raw_SHA1_def sha_of_def sha1_fits_def)

text \<open>
  \<open>htoi\<close> reads the hexadecimal text of \<open>sha1_hash\<close> back, two digits at a time and inside the
  buffer, as the bytes of the digest.
\<close>

theorem sha1_hash_htoi:
  assumes "raw_SHA1 (sha_of sha)" "length (c_str source) < 2 ^ 32" "i < 20"
  shows "(sha1_hash sha source \<bind> (\<lambda>text. htoi text (2 * i) 2))
    = Some (int (unat (sha1_bytes (c_str source) ! i)))"
  using assms by (simp add: sha1_hash_text htoi_digest)

theorem sha1_hash_htoi_witness:
  "(sha1_hash \<lparr>Message_Digest = [], c_Length_Low = 3, c_Length_High = 4,
      c_Message_Block = replicate 64 9, c_Message_Block_Index = 5, c_Computed = 1,
      c_Corrupted = 1\<rparr> [97, 0] \<bind> (\<lambda>text. htoi text (2 * 19) 2))
    = Some (int (unat (sha1_bytes (c_str [97, 0]) ! 19)))"
  by (rule sha1_hash_htoi) (simp_all add: raw_SHA1_def sha_of_def c_str_def)

end
