(* ===== verification/Ws_Frame.thy ===== *)
theory Ws_Frame
  imports Prelude
begin

text \<open>
  WebSocket frames as RFC 6455 lays them out on the wire, and the contracts of whoever sends and
  whoever receives them.  A sender chooses the width of the length field and whether to mask; a
  receiver has to take every choice it may meet.
\<close>

section \<open>Masking\<close>

definition xor_mask :: "nat \<Rightarrow> bytes \<Rightarrow> bytes \<Rightarrow> bytes" where
  "xor_mask off key xs = map (\<lambda>i. xs ! i XOR key ! ((off + i) mod 4)) [0..<length xs]"

lemma length_xor_mask [simp]: "length (xor_mask off key xs) = length xs"
  by (simp add: xor_mask_def)

lemma nth_xor_mask [simp]: "i < length xs \<Longrightarrow> xor_mask off key xs ! i = xs ! i XOR key ! ((off + i) mod 4)"
  by (simp add: xor_mask_def)

lemma xor_mask_Nil [simp]: "xor_mask off key [] = []"
  by (simp add: xor_mask_def)

lemma xor_mask_Cons: "xor_mask off key (x # xs) = (x XOR key ! (off mod 4)) # xor_mask (Suc off) key xs"
  by (rule nth_equalityI) (auto simp: nth_Cons' add_ac)

lemma xor_mask_append:
  "xor_mask off key (xs @ ys) = xor_mask off key xs @ xor_mask (off + length xs) key ys"
  by (rule nth_equalityI) (auto simp: nth_append add_ac)

lemma xor_mask_twice [simp]: "xor_mask off key (xor_mask off key xs) = xs"
  by (rule nth_equalityI) (auto simp: xor.assoc)

lemma xor_mask_mod: "xor_mask (off mod 4) key xs = xor_mask off key xs"
  by (simp add: xor_mask_def mod_simps)

section \<open>Headers and frames\<close>

datatype len_form = Short | Medium | Long

fun form_ok :: "len_form \<Rightarrow> nat \<Rightarrow> bool" where
  "form_ok Short n \<longleftrightarrow> n < 126"
| "form_ok Medium n \<longleftrightarrow> n < 2 ^ 16"
| "form_ok Long n \<longleftrightarrow> n < 2 ^ 32"

definition be16 :: "nat \<Rightarrow> bytes" where
  "be16 n = [word_of_nat (n div 256), word_of_nat n]"

fun form_code :: "len_form \<Rightarrow> nat \<Rightarrow> byte" where
  "form_code Short n = word_of_nat n"
| "form_code Medium n = 126"
| "form_code Long n = 127"

fun form_ext :: "len_form \<Rightarrow> nat \<Rightarrow> bytes" where
  "form_ext Short n = []"
| "form_ext Medium n = be16 n"
| "form_ext Long n = [0, 0, 0, 0] @ be32 (word_of_nat n)"

definition key_bytes :: "bytes option \<Rightarrow> bytes" where
  "key_bytes key = (case key of None \<Rightarrow> [] | Some k \<Rightarrow> k)"

definition key_ok :: "bytes option \<Rightarrow> bool" where
  "key_ok key \<longleftrightarrow> (case key of None \<Rightarrow> True | Some k \<Rightarrow> length k = 4)"

definition mask_code :: "bytes option \<Rightarrow> byte \<Rightarrow> byte" where
  "mask_code key v = (case key of None \<Rightarrow> v | Some _ \<Rightarrow> 0x80 OR v)"

definition masked :: "bytes option \<Rightarrow> bytes \<Rightarrow> bytes" where
  "masked key xs = (case key of None \<Rightarrow> xs | Some k \<Rightarrow> xor_mask 0 k xs)"

definition ws_head :: "byte \<Rightarrow> len_form \<Rightarrow> bytes option \<Rightarrow> nat \<Rightarrow> bytes" where
  "ws_head b0 form key n = [b0, mask_code key (form_code form n)] @ form_ext form n @ key_bytes key"

definition ws_frame :: "byte \<Rightarrow> len_form \<Rightarrow> bytes option \<Rightarrow> bytes \<Rightarrow> bytes" where
  "ws_frame b0 form key xs = ws_head b0 form key (length xs) @ masked key xs"

definition frame_ok :: "len_form \<Rightarrow> bytes option \<Rightarrow> bytes \<Rightarrow> bool" where
  "frame_ok form key xs \<longleftrightarrow> form_ok form (length xs) \<and> key_ok key"

lemma length_masked [simp]: "length (masked key xs) = length xs"
  by (simp add: masked_def split: option.split)

lemma masked_simps [simp]: "masked None xs = xs" "masked (Some k) xs = xor_mask 0 k xs"
  by (simp_all add: masked_def)

lemma key_simps [simp]:
  "key_bytes None = []" "key_bytes (Some k) = k" "key_ok None" "key_ok (Some k) \<longleftrightarrow> length k = 4"
  by (simp_all add: key_bytes_def key_ok_def)

fun ext_length :: "len_form \<Rightarrow> nat" where
  "ext_length Short = 0"
| "ext_length Medium = 2"
| "ext_length Long = 8"

lemma length_form_ext [simp]: "length (form_ext form n) = ext_length form"
  by (cases form) (simp_all add: be16_def)

lemma length_key_bytes: "key_ok key \<Longrightarrow> length (key_bytes key) = (if key = None then 0 else 4)"
  by (cases key) simp_all

lemma length_ws_head:
  "key_ok key \<Longrightarrow> length (ws_head b0 form key n) = 2 + ext_length form + (if key = None then 0 else 4)"
  by (simp add: ws_head_def length_key_bytes)

text \<open>Reading the second byte back.\<close>

lemma and_80: "b AND 0x80 = 0x80 \<longleftrightarrow> bit b 7" for b :: byte
proof -
  have "b AND 0x80 = (if bit b 7 then 0x80 else 0)"
    by (rule byte_bits_eqI; simp add: bit_simps bit_numeral_rec)
  then show ?thesis
    by simp
qed

lemma form_code_less: "form_ok form n \<Longrightarrow> unat (form_code form n) < 128"
  by (cases form) (simp_all add: unat_of_nat)

lemma small_byte: "unat v < 128 \<Longrightarrow> \<not> bit (v :: byte) 7"
proof -
  assume "unat v < 128"
  then have "unat (drop_bit 7 v) = 0"
    by (simp add: unat_drop_bit)
  then show ?thesis
    by (simp add: bit_iff_odd_drop_bit unat_eq_0)
qed

lemma mask_code_bits:
  assumes "unat v < 128"
  shows "mask_code key v AND 0x80 = 0x80 \<longleftrightarrow> key \<noteq> None" "mask_code key v AND 0x7F = v"
proof -
  have v: "\<not> bit v 7"
    using assms by (rule small_byte)
  then show "mask_code key v AND 0x80 = 0x80 \<longleftrightarrow> key \<noteq> None"
    unfolding and_80 by (cases key) (simp_all add: mask_code_def bit_simps bit_numeral_rec)
  show "mask_code key v AND 0x7F = v"
    by (rule byte_bits_eqI; cases key; simp add: mask_code_def v bit_simps bit_numeral_rec)
qed

lemma be16_value:
  "n < 2 ^ 16 \<Longrightarrow> unat (word_of_nat (n div 256) :: byte) * 256 + unat (word_of_nat n :: byte) = n"
  by (simp add: unat_of_nat take_bit_eq_mod)

lemma be32_nat:
  "((unat (be32 w ! 0) * 256 + unat (be32 w ! 1)) * 256 + unat (be32 w ! 2)) * 256
    + unat (be32 w ! 3) = unat w"
proof -
  define v where "v = unat w"
  have v: "v < 2 ^ 32"
    using unsigned_less [of w] by (simp add: v_def)
  have "unat (be32 w ! 0) = v div 2 ^ 24 mod 256" "unat (be32 w ! 1) = v div 2 ^ 16 mod 256"
    "unat (be32 w ! 2) = v div 2 ^ 8 mod 256" "unat (be32 w ! 3) = v mod 256"
    by (simp_all add: be32_def v_def unsigned_ucast_eq unat_take_bit unat_drop_bit take_bit_eq_mod)
  moreover have "v div 2 ^ 24 mod 256 = v div 2 ^ 24"
    using v by simp
  moreover have "v div 2 ^ 24 * 256 + v div 2 ^ 16 mod 256 = v div 2 ^ 16"
    "v div 2 ^ 16 * 256 + v div 2 ^ 8 mod 256 = v div 2 ^ 8" "v div 2 ^ 8 * 256 + v mod 256 = v"
    using div_mult_mod_eq [of "v div 2 ^ 16" 256] div_mult_mod_eq [of "v div 2 ^ 8" 256]
      div_mult_mod_eq [of v 256] by (simp_all flip: div_mult2_eq)
  ultimately show ?thesis
    by (simp flip: v_def)
qed

section \<open>The contracts\<close>

text \<open>
  A sender turns a first byte and a payload into one frame; \<open>keys\<close> says whether it masks.  A
  receiver reads a frame of a kind it accepts off the front of a stream.  Their link loses nothing.
\<close>

locale frame_sender =
  fixes send :: "byte \<Rightarrow> bytes \<Rightarrow> bytes option"
    and sends :: "byte \<Rightarrow> bytes \<Rightarrow> bool"
    and sends_masked :: bool
  assumes send_frame: "sends b xs \<Longrightarrow> \<exists>form key. frame_ok form key xs \<and>
    (key \<noteq> None \<longleftrightarrow> sends_masked) \<and> send b xs = Some (ws_frame b form key xs)"
begin

lemma send_length:
  assumes "sends b xs" "send b xs = Some ys"
  shows "length xs + 2 \<le> length ys \<and> length ys \<le> length xs + 14"
proof -
  obtain form key where "frame_ok form key xs" "send b xs = Some (ws_frame b form key xs)"
    using send_frame [OF assms(1)] by blast
  then show ?thesis
    using assms(2) by (cases form) (auto simp: ws_frame_def length_ws_head frame_ok_def)
qed

end

locale frame_receiver =
  fixes recv :: "bytes \<Rightarrow> (byte \<times> bytes \<times> bytes) option"
    and takes :: "byte \<Rightarrow> bytes option \<Rightarrow> bytes \<Rightarrow> bool"
    and limit :: nat
  assumes recv_frame: "takes b key xs \<Longrightarrow> frame_ok form key xs \<Longrightarrow>
    length (ws_frame b form key xs @ rest) < limit \<Longrightarrow>
    recv (ws_frame b form key xs @ rest) = Some (b, xs, rest)"

locale frame_link = frame_sender send sends sends_masked + frame_receiver recv takes limit
  for send sends sends_masked recv takes limit +
  assumes link: "sends b xs \<Longrightarrow> key_ok key \<Longrightarrow> (key \<noteq> None \<longleftrightarrow> sends_masked) \<Longrightarrow> takes b key xs"
begin

lemma recv_send:
  assumes "sends b xs" "send b xs = Some ys" "length (ys @ rest) < limit"
  shows "recv (ys @ rest) = Some (b, xs, rest)"
proof -
  obtain form key where f: "frame_ok form key xs" "key \<noteq> None \<longleftrightarrow> sends_masked"
      "send b xs = Some (ws_frame b form key xs)"
    using send_frame [OF assms(1)] by blast
  then have "takes b key xs"
    by (intro link [OF assms(1)]) (simp_all add: frame_ok_def)
  with f assms(2,3) show ?thesis
    by (simp add: recv_frame)
qed

text \<open>The frames of several messages in one stream come back one by one.\<close>

fun recv_all :: "nat \<Rightarrow> bytes \<Rightarrow> (byte \<times> bytes) list option" where
  "recv_all 0 ys = (if ys = [] then Some [] else None)"
| "recv_all (Suc n) ys =
     do { (b, xs, rest) \<leftarrow> recv ys; ms \<leftarrow> recv_all n rest; Some ((b, xs) # ms) }"

lemma recv_all_send:
  "list_all (\<lambda>(b, xs). sends b xs) ms \<Longrightarrow>
   length (concat (map (\<lambda>(b, xs). the (send b xs)) ms)) < limit \<Longrightarrow>
   recv_all (length ms) (concat (map (\<lambda>(b, xs). the (send b xs)) ms)) = Some ms"
proof (induction ms)
  case (Cons m ms)
  obtain b xs where m: "m = (b, xs)"
    by fastforce
  with Cons.prems(1) obtain ys where "send b xs = Some ys"
    using send_frame [of b xs] by auto
  then show ?case
    using Cons m recv_send [of b xs ys] by simp
qed simp

end

end
