(* ===== verification/Client_Frame.thy ===== *)
theory Client_Frame
  imports Ws_Frame
begin

text \<open>
  The client's frame codec: \<open>webSocket_enPackage\<close> and \<open>webSocket_dePackage\<close> of
  \<^verbatim>\<open>src/src/websocket-client.cc\<close>.  Arrays are byte lists of their real length and every
  access is checked: \<open>None\<close> is an access outside an array.  The \<open>packageMaxLen\<close> and \<open>dataLen\<close>
  arguments are separate 32-bit words, as in the code, and so is the arithmetic on them.
\<close>

datatype WebsocketData_Type =
  WDT_MINDATA | WDT_TXTDATA | WDT_BINDATA | WDT_DISCONN | WDT_PING | WDT_PONG | WDT_ERR | WDT_NULL

text \<open>The values of the enumeration.\<close>

fun wdt_int :: "WebsocketData_Type \<Rightarrow> int" where
  "wdt_int WDT_MINDATA = -20" | "wdt_int WDT_TXTDATA = -19" | "wdt_int WDT_BINDATA = -18"
| "wdt_int WDT_DISCONN = -17" | "wdt_int WDT_PING = -16" | "wdt_int WDT_PONG = -15"
| "wdt_int WDT_ERR = -1" | "wdt_int WDT_NULL = 0"

text \<open>\<open>rand i\<close> is what the \<open>i\<close>-th call of \<open>rand()\<close> returns.\<close>

definition webSocket_getRandomString :: "(nat \<Rightarrow> nat) \<Rightarrow> nat \<Rightarrow> bytes" where
  "webSocket_getRandomString rand len = map (\<lambda>i.
     let temp = (word_of_nat (rand i mod 256) :: byte) in if temp = 0 then 128 else temp) [0..<len]"

section \<open>Packing\<close>

fun type_byte :: "WebsocketData_Type \<Rightarrow> byte option" where
  "type_byte WDT_MINDATA = Some 0x00"
| "type_byte WDT_TXTDATA = Some 0x81"
| "type_byte WDT_BINDATA = Some 0x82"
| "type_byte WDT_DISCONN = Some 0x88"
| "type_byte WDT_PING = Some 0x89"
| "type_byte WDT_PONG = Some 0x8A"
| "type_byte _ = None"

definition or_byte :: "nat \<Rightarrow> byte \<Rightarrow> bytes \<Rightarrow> bytes option" where
  "or_byte i b xs = do { old \<leftarrow> get xs i; put_byte i (old OR b) xs }"

text \<open>The length field at position 1; the results are the array, the position and \<open>len\<close>.
  Of a failing call (\<open>return -1\<close>) only the failure is kept, as \<open>Some None\<close>.\<close>

definition enPackage_len :: "u32 \<Rightarrow> u32 \<Rightarrow> bytes \<Rightarrow> (bytes \<times> nat \<times> u32) option option" where
  "enPackage_len dataLen packageMaxLen package =
     (if dataLen < 126 then do {
        package \<leftarrow> or_byte 1 (ucast (dataLen AND 0x7F)) package;
        Some (Some (package, 2, 2)) }
      else if dataLen < 65536 then
        if packageMaxLen < 4 then Some None
        else do {
          package \<leftarrow> or_byte 1 0x7E package;
          package \<leftarrow> put_byte 2 (ucast (drop_bit 8 dataLen AND 0xFF)) package;
          package \<leftarrow> put_byte 3 (ucast (drop_bit 0 dataLen AND 0xFF)) package;
          Some (Some (package, 4, 4)) }
      else if dataLen < 0xFFFFFFFF then
        if packageMaxLen < 10 then Some None
        else do {
          package \<leftarrow> or_byte 1 0x7F package;
          package \<leftarrow> put_byte 2 0 package;
          package \<leftarrow> put_byte 3 0 package;
          package \<leftarrow> put_byte 4 0 package;
          package \<leftarrow> put_byte 5 0 package;
          package \<leftarrow> put_byte 6 (ucast (drop_bit 24 dataLen AND 0xFF)) package;
          package \<leftarrow> put_byte 7 (ucast (drop_bit 16 dataLen AND 0xFF)) package;
          package \<leftarrow> put_byte 8 (ucast (drop_bit 8 dataLen AND 0xFF)) package;
          package \<leftarrow> put_byte 9 (ucast (drop_bit 0 dataLen AND 0xFF)) package;
          Some (Some (package, 10, 10)) }
      else Some (Some (package, 1, 1)))"

text \<open>The loop that XORs \<open>n\<close> bytes from \<open>src\<close> into \<open>dst\<close> under the key, one by one.\<close>

fun xor_copy :: "bytes \<Rightarrow> bytes \<Rightarrow> nat \<Rightarrow> nat \<Rightarrow> bytes \<Rightarrow> nat \<Rightarrow> nat \<Rightarrow> bytes option" where
  "xor_copy key src i 0 dst p count = Some dst"
| "xor_copy key src i (Suc n) dst p count = do {
     temp1 \<leftarrow> get key count;
     temp2 \<leftarrow> get src i;
     dst \<leftarrow> put_byte p ((NOT temp1 AND temp2) OR (temp1 AND NOT temp2)) dst;
     let count = count + 1;
     xor_copy key src (i + 1) n dst (p + 1) (if 4 \<le> count then 0 else count) }"

text \<open>The masked payload from position \<open>p\<close> on: the key, the bytes, a NUL.\<close>

definition put_masked :: "bytes \<Rightarrow> bytes \<Rightarrow> u32 \<Rightarrow> bytes \<Rightarrow> nat \<Rightarrow> bytes option" where
  "put_masked maskKey data dataLen package p = do {
     package \<leftarrow> put_byte p (maskKey ! 0) package;
     package \<leftarrow> put_byte (p + 1) (maskKey ! 1) package;
     package \<leftarrow> put_byte (p + 2) (maskKey ! 2) package;
     package \<leftarrow> put_byte (p + 3) (maskKey ! 3) package;
     package \<leftarrow> xor_copy maskKey data 0 (unat dataLen) package (p + 4) 0;
     put_byte (p + 4 + unat dataLen) NUL package }"

definition webSocket_enPackage ::
  "(nat \<Rightarrow> nat) \<Rightarrow> bytes \<Rightarrow> u32 \<Rightarrow> bytes \<Rightarrow> u32 \<Rightarrow> bool \<Rightarrow> WebsocketData_Type \<Rightarrow>
   (bytes \<times> u32) option option" where
  "webSocket_enPackage rand data dataLen package packageMaxLen isMask type =
     (if packageMaxLen < 2 then Some None
      else case type_byte type of
        None \<Rightarrow> Some None
      | Some b0 \<Rightarrow> do {
          package \<leftarrow> put_byte 0 b0 package;
          package \<leftarrow> (if isMask then put_byte 1 0x80 package else Some package);
          r \<leftarrow> enPackage_len dataLen packageMaxLen package;
          case r of
            None \<Rightarrow> Some None
          | Some (package, p, len) \<Rightarrow>
              if isMask then
                if packageMaxLen < len + dataLen + 4 then Some None
                else do {
                  package \<leftarrow> put_masked (webSocket_getRandomString rand 4) data dataLen package p;
                  Some (Some (package, len + 4 + dataLen)) }
              else
                if packageMaxLen < len + dataLen then Some None
                else do {
                  package \<leftarrow> memcpy package p data 0 (unat dataLen);
                  package \<leftarrow> put_byte (p + unat dataLen) NUL package;
                  Some (Some (package, len + dataLen)) } })"

section \<open>Unpacking\<close>

definition package_type :: "byte \<Rightarrow> WebsocketData_Type option" where
  "package_type d0 =
     (let type = d0 AND 0x0F in
      if d0 AND 0x80 = 0x80 then
        if type = 0x01 then Some WDT_TXTDATA
        else if type = 0x02 then Some WDT_BINDATA
        else if type = 0x08 then Some WDT_DISCONN
        else if type = 0x09 then Some WDT_PING
        else if type = 0x0A then Some WDT_PONG
        else None
      else if type = 0x00 then Some WDT_MINDATA
      else None)"

text \<open>
  What follows once the length is known; the three branches of the code differ in the offset \<open>h\<close>
  alone.  The lengths are stored for the caller before the checks, so they stand also on an error.
\<close>

definition dePackage_data ::
  "WebsocketData_Type \<Rightarrow> bool \<Rightarrow> bytes \<Rightarrow> u32 \<Rightarrow> bytes \<Rightarrow> u32 \<Rightarrow> u32 \<Rightarrow> u32 \<Rightarrow>
   (WebsocketData_Type \<times> bytes \<times> u32 \<times> u32) option" where
  "dePackage_data ret Mask data dataLen package packageMaxLen len h =
     (let count = (if Mask then 4 else 0); err = Some (WDT_ERR, package, len, h + count) in
      if dataLen < len + h + count then err
      else do {
        maskKey \<leftarrow> (if Mask then slice (unat h) 4 data else Some [0, 0, 0, 0]);
        let dataStart = h + count;
        if dataLen < len + dataStart then err
        else if packageMaxLen < len + 1 then err
        else if Mask then do {
          package \<leftarrow> xor_copy maskKey data (unat dataStart) (unat len) package 0 0;
          package \<leftarrow> put_byte (unat len) NUL package;
          Some (ret, package, len, h + count) }
        else do {
          package \<leftarrow> memcpy package 0 data (unat dataStart) (unat len);
          package \<leftarrow> put_byte (unat len) NUL package;
          Some (ret, package, len, h + count) } })"

definition webSocket_dePackage ::
  "bytes \<Rightarrow> u32 \<Rightarrow> bytes \<Rightarrow> u32 \<Rightarrow> u32 \<Rightarrow> u32 \<Rightarrow>
   (WebsocketData_Type \<times> bytes \<times> u32 \<times> u32) option" where
  "webSocket_dePackage data dataLen package packageMaxLen packageLen packageHeadLen =
     (let err = Some (WDT_ERR, package, packageLen, packageHeadLen) in
      if dataLen < 2 then err
      else do {
        d0 \<leftarrow> get data 0;
        case package_type d0 of
          None \<Rightarrow> err
        | Some ret \<Rightarrow> do {
            d1 \<leftarrow> get data 1;
            let Mask = (d1 AND 0x80 = 0x80);
            let len = d1 AND 0x7F;
            if len = 126 then
              if dataLen < 4 then err
              else do {
                d2 \<leftarrow> get data 2;
                d3 \<leftarrow> get data 3;
                dePackage_data ret Mask data dataLen package packageMaxLen
                  (push_bit 8 (ucast d2) + ucast d3) 4 }
            else if len = 127 then
              if dataLen < 10 then err
              else do {
                hi \<leftarrow> slice 2 4 data;
                lo \<leftarrow> slice 6 4 data;
                if hi \<noteq> [0, 0, 0, 0] then err
                else dePackage_data ret Mask data dataLen package packageMaxLen
                  (push_bit 8 (push_bit 8 (push_bit 8 (ucast (lo ! 0)) + ucast (lo ! 1)) + ucast (lo ! 2))
                    + ucast (lo ! 3)) 10 }
            else dePackage_data ret Mask data dataLen package packageMaxLen (ucast len) 2 } })"

section \<open>The loop\<close>

lemma xor_of_code: "(NOT a AND b) OR (a AND NOT b) = b XOR a" for a b :: byte
  by (rule byte_bits_eqI; auto simp: bit_simps)

lemma xor_copy_spec:
  assumes "length key = 4" "count < 4" "i + n \<le> length src" "p + n \<le> length dst"
  shows "xor_copy key src i n dst p count =
    Some (take p dst @ xor_mask count key (take n (drop i src)) @ drop (p + n) dst)"
  using assms
proof (induction n arbitrary: i dst p count)
  case (Suc n)
  define c where "c = (if 4 \<le> count + 1 then 0 else count + 1)"
  define x where "x = src ! i XOR key ! count"
  have c: "c < 4" "c = Suc count mod 4"
    unfolding c_def using Suc.prems(2) by (cases "count = 3"; simp)+
  have src: "take (Suc n) (drop i src) = src ! i # take n (drop (Suc i) src)"
    using Suc.prems(3) by (simp add: drop_eq_Cons)
  have "xor_copy key src i (Suc n) dst p count = xor_copy key src (Suc i) n (dst[p := x]) (Suc p) c"
    using Suc.prems by (simp add: xor_of_code put_byte_def c_def x_def)
  also have "\<dots> = Some (take (Suc p) (dst[p := x]) @ xor_mask c key (take n (drop (Suc i) src))
      @ drop (Suc p + n) (dst[p := x]))"
    using Suc.prems c(1) by (intro Suc.IH) simp_all
  also have "\<dots> = Some (take p dst @ xor_mask count key (take (Suc n) (drop i src)) @ drop (p + Suc n) dst)"
    using Suc.prems(2,4) by (simp add: src xor_mask_Cons x_def c(2) xor_mask_mod take_Suc_conv_app_nth)
  finally show ?case .
qed simp

section \<open>A packed frame\<close>

definition enc_form :: "nat \<Rightarrow> len_form" where
  "enc_form n = (if n < 126 then Short else if n < 65536 then Medium else Long)"

definition enc_key :: "(nat \<Rightarrow> nat) \<Rightarrow> bool \<Rightarrow> bytes option" where
  "enc_key rand isMask = (if isMask then Some (webSocket_getRandomString rand 4) else None)"

lemma length_random [simp]: "length (webSocket_getRandomString rand n) = n"
  by (simp add: webSocket_getRandomString_def)

lemma random_nonzero: "NUL \<notin> set (webSocket_getRandomString rand n)"
  by (auto simp: webSocket_getRandomString_def Let_def)

lemma enc_key_ok [simp]: "key_ok (enc_key rand isMask)"
  by (simp add: enc_key_def)

lemma enc_form_ok: "n < 2 ^ 32 \<Longrightarrow> form_ok (enc_form n) n"
  by (simp add: enc_form_def)

lemma length_bytes:
  fixes d :: u32
  shows "unat d < 126 \<Longrightarrow> ucast (d AND 0x7F) = (ucast d :: byte)"
    and "word_of_nat (unat d div 256) = (ucast (drop_bit 8 d) :: byte)"
proof -
  have "d AND 0x7F = take_bit 7 d"
    by (simp add: take_bit_eq_mask mask_eq_exp_minus_1)
  then have "unat d < 126 \<Longrightarrow> unat (d AND 0x7F) = unat d"
    by (simp only: unat_take_bit) simp
  then show "unat d < 126 \<Longrightarrow> ucast (d AND 0x7F) = (ucast d :: byte)"
    by (metis unsigned_word_eqI)
  show "word_of_nat (unat d div 256) = (ucast (drop_bit 8 d) :: byte)"
    by (simp add: word_unat_eq_iff unsigned_ucast_eq unat_take_bit unat_drop_bit take_bit_eq_mod unat_of_nat)
qed

lemma enPackage_len_spec:
  fixes d :: u32
  assumes "unat d < 2 ^ 32 - 1" "10 \<le> m" "length pkg = 8"
  shows "enPackage_len d m (b0 # b1 # pkg @ rest) = Some (Some
    (b0 # (b1 OR form_code (enc_form (unat d)) (unat d)) # form_ext (enc_form (unat d)) (unat d)
      @ drop (ext_length (enc_form (unat d))) pkg @ rest,
     2 + ext_length (enc_form (unat d)), word_of_nat (2 + ext_length (enc_form (unat d)))))"
proof -
  have "length pkg = Suc (Suc (Suc (Suc (Suc (Suc (Suc (Suc 0)))))))"
    using assms(3) by simp
  then obtain x2 x3 x4 x5 x6 x7 x8 x9 where pkg: "pkg = [x2, x3, x4, x5, x6, x7, x8, x9]"
    by (auto simp: length_Suc_conv)
  have m: "\<not> m < 4" "\<not> m < 10"
    using assms(2) by (auto simp: not_less word_le_nat_alt)
  consider "unat d < 126" | "126 \<le> unat d" "unat d < 65536" | "65536 \<le> unat d"
    by linarith
  then show ?thesis
    using assms(1) m
    by cases (simp_all add: enPackage_len_def pkg or_byte_def enc_form_def word_less_nat_alt
      length_bytes and_ff be16_def be32_def)
qed

lemma put_byte_append: "length xs = i \<Longrightarrow> put_byte (i + k) b (xs @ ys) = map_option ((@) xs) (put_byte k b ys)"
  by (auto simp: put_byte_def list_update_append)

lemma put_key:
  assumes "length key = 4" "length H = p" "4 \<le> length t"
  shows "do { pkg \<leftarrow> put_byte p (key ! 0) (H @ t); pkg \<leftarrow> put_byte (p + 1) (key ! 1) pkg;
      pkg \<leftarrow> put_byte (p + 2) (key ! 2) pkg; pkg \<leftarrow> put_byte (p + 3) (key ! 3) pkg; f pkg }
    = f (H @ key @ drop 4 t)"
proof -
  obtain a b c d where k: "key = [a, b, c, d]"
    using list_4 [of key] assms(1) by auto
  obtain t0 t1 t2 t3 t' where t: "t = t0 # t1 # t2 # t3 # t'"
    using assms(3) list_4 [of "take 4 t"] append_take_drop_id [of 4 t] by (metis append_Cons append_Nil length_take min_absorb2)
  show ?thesis
    using put_byte_append [OF assms(2), of 0] put_byte_append [OF assms(2), of 1]
      put_byte_append [OF assms(2), of 2] put_byte_append [OF assms(2), of 3]
    by (simp add: k t)
qed

lemma put_masked_spec:
  assumes "length key = 4" "length H = p" "unat d \<le> length data" "unat d + 5 \<le> length t"
  shows "put_masked key data d (H @ t) p
    = Some ((H @ key @ xor_mask 0 key (take (unat d) data)) @ NUL # drop (5 + unat d) t)"
proof -
  have "xor_copy key data 0 (unat d) (H @ key @ drop 4 t) (p + 4) 0
      = Some (H @ key @ xor_mask 0 key (take (unat d) data) @ drop (4 + unat d) t)"
    using assms by (subst xor_copy_spec) (simp_all add: add.commute)
  moreover have "put_byte (p + 4 + unat d) NUL (H @ key @ xor_mask 0 key (take (unat d) data) @ drop (4 + unat d) t)
      = Some (H @ key @ xor_mask 0 key (take (unat d) data) @ NUL # drop (5 + unat d) t)"
    using assms put_byte_at [of "H @ key @ xor_mask 0 key (take (unat d) data)" "p + 4 + unat d" NUL
        "t ! (4 + unat d)" "drop (5 + unat d) t"]
    by (simp add: drop_eq_Cons [of "4 + unat d" t])
  moreover have "4 \<le> length t"
    using assms(4) by simp
  ultimately show ?thesis
    unfolding put_masked_def put_key [OF assms(1,2) \<open>4 \<le> length t\<close>] by simp
qed

lemma enPackage_spec:
  fixes d m :: u32
  assumes b0: "type_byte type = Some b0"
    and n: "n = unat d" "n \<le> length data" "n + 15 \<le> length pkg" "n + 14 \<le> unat m" "n + 15 < 2 ^ 32"
    and pkg: "pkg ! 1 = 0"
    and F: "F = ws_frame b0 (enc_form n) (enc_key rand isMask) (take n data)"
  shows "webSocket_enPackage rand data d pkg m isMask type
    = Some (Some (F @ NUL # drop (Suc (length F)) pkg, word_of_nat (length F)))"
proof -
  obtain x0 p8 rest where p: "pkg = x0 # 0 # p8 @ rest" "length p8 = 8" "n + 5 \<le> length rest"
  proof -
    have "pkg = pkg ! 0 # pkg ! 1 # drop 2 pkg"
      using n(3) by (cases pkg; cases "tl pkg") auto
    moreover have "drop 2 pkg = take 8 (drop 2 pkg) @ drop 10 pkg"
      using append_take_drop_id [of 8 "drop 2 pkg"] by simp
    ultimately have "pkg = pkg ! 0 # 0 # take 8 (drop 2 pkg) @ drop 10 pkg"
      using pkg by metis
    then show thesis
      using that n(3) by simp
  qed
  define e where "e = ext_length (enc_form n)"
  define key where "key = webSocket_getRandomString rand 4"
  define b1 :: byte where "b1 = (if isMask then 0x80 else 0)"
  define H where "H = b0 # (b1 OR form_code (enc_form n) n) # form_ext (enc_form n) n"
  define t where "t = drop e p8 @ rest"
  have e: "e \<le> 8"
    by (cases "enc_form n") (simp_all add: e_def)
  have H: "length H = 2 + e"
    by (simp add: H_def e_def)
  have len: "enPackage_len d m (b0 # b1 # p8 @ rest) = Some (Some (H @ t, 2 + e, word_of_nat (2 + e)))"
    using n(1,4,5) p(2) by (simp add: enPackage_len_spec word_le_nat_alt H_def t_def e_def)
  have Hm: "H @ key_bytes (enc_key rand isMask) = ws_head b0 (enc_form n) (enc_key rand isMask) n"
    by (simp add: H_def b1_def ws_head_def mask_code_def enc_key_def)
  have le: "unat (word_of_nat (2 + e) + d + 4 :: u32) = 2 + e + n + 4" "unat (word_of_nat (2 + e) + d :: u32) = 2 + e + n"
    using n(1,5) e by (simp_all add: unat_word_ariths unat_of_nat)
  have t: "n + 5 \<le> length t"
    using p(3) by (simp add: t_def)
  have dropH: "drop k t = drop (2 + e + k) pkg" for k
    using p(1,2) e by (simp add: t_def add.commute)
  show ?thesis
  proof (cases isMask)
    case True
    have "put_masked key data d (H @ t) (2 + e) = Some (F @ NUL # drop (5 + n) t)"
      using put_masked_spec [of key H "2 + e" d data t] H n(1,2) t Hm True
      by (simp add: key_def F ws_frame_def enc_key_def)
    moreover have "length F = 6 + e + n"
      using n(2) True by (simp add: F ws_frame_def length_ws_head enc_key_def e_def)
    ultimately show ?thesis
      using b0 p(1) True len le n(1,4) e
      by (simp add: webSocket_enPackage_def b1_def word_less_nat_alt dropH key_def add_ac)
  next
    case False
    have "memcpy (H @ t) (2 + e) data 0 n = Some (H @ take n data @ drop n t)"
      using n(2) t H by (simp add: memcpy_def slice_def put_bytes_def)
    moreover have "put_byte (2 + e + n) NUL (H @ take n data @ drop n t) = Some (H @ take n data @ NUL # drop (1 + n) t)"
      using t H n(2) put_byte_at [of "H @ take n data" "2 + e + n" NUL "t ! n" "drop (1 + n) t"]
      by (simp add: drop_eq_Cons [of n t])
    moreover have "H @ take n data = F"
      using Hm False n(2) by (simp add: F ws_frame_def enc_key_def)
    moreover have "length F = 2 + e + n"
      using H n(2) by (simp flip: calculation(3))
    ultimately show ?thesis
      using b0 p(1) False len le n(1,4) e H t
      by (simp add: webSocket_enPackage_def b1_def word_less_nat_alt dropH)
  qed
qed

section \<open>Unpacking a frame\<close>

lemma dePackage_data_spec:
  fixes d m h :: u32
  assumes data: "data = P @ key_bytes key @ masked key xs @ rest" "key_ok key" "length P = unat h"
    and n: "n = length xs" "unat h \<le> 10" "unat h + (if key = None then 0 else 4) + n \<le> unat d"
      "n + 14 < 2 ^ 32" "n < unat m" "n < length pkg"
  shows "dePackage_data ret (key \<noteq> None) data d pkg m (word_of_nat n) h
    = Some (ret, xs @ NUL # drop (Suc n) pkg, word_of_nat n, h + (if key = None then 0 else 4))"
proof -
  let ?c = "if key = None then 0 else 4 :: u32"
  have c: "unat (h + ?c) = unat h + unat ?c" "unat ?c = length (key_bytes key)"
    using n(2) data(2) by (auto simp: unat_word_ariths length_key_bytes)
  have le: "unat (word_of_nat n + h + ?c) = n + unat h + unat ?c"
    "unat (word_of_nat n + (h + ?c)) = n + unat h + unat ?c" "unat (word_of_nat n + 1 :: u32) = n + 1"
    "unat (word_of_nat n :: u32) = n"
    using n(2,4) by (auto simp: unat_word_ariths unat_of_nat)
  have nul: "put_byte n NUL (xs @ drop n pkg) = Some (xs @ NUL # drop (Suc n) pkg)"
    using n(1,6) by (simp add: drop_eq_Cons put_byte_at)
  show ?thesis
  proof (cases key)
    case None
    have "memcpy pkg 0 data (unat h) n = Some (xs @ drop n pkg)"
      using data n None by (simp add: memcpy_def slice_def put_bytes_def)
    then show ?thesis
      using None c le n nul by (simp add: dePackage_data_def Let_def word_less_nat_alt)
  next
    case (Some k)
    have k: "length k = 4" "slice (unat h) 4 data = Some k"
      using data Some by (simp_all add: slice_at)
    have "xor_copy k data (unat (h + 4)) n pkg 0 0 = Some (xs @ drop n pkg)"
      using data n Some k c by (subst xor_copy_spec) simp_all
    then show ?thesis
      using Some c le n nul k(2) by (simp add: dePackage_data_def Let_def word_less_nat_alt)
  qed
qed

lemma be32_value:
  "push_bit 8 (push_bit 8 (push_bit 8 (ucast (be32 w ! 0)) + ucast (be32 w ! 1)) + ucast (be32 w ! 2))
    + ucast (be32 w ! 3) = (w :: u32)"
proof -
  have "word_of_nat (((unat (be32 w ! 0) * 256 + unat (be32 w ! 1)) * 256 + unat (be32 w ! 2)) * 256
      + unat (be32 w ! 3)) = w"
    unfolding be32_nat by simp
  then show ?thesis
    by (simp add: push_bit_eq_mult)
qed

lemma be16_word:
  "n < 2 ^ 16 \<Longrightarrow> push_bit 8 (ucast (be16 n ! 0)) + ucast (be16 n ! 1) = (word_of_nat n :: u32)"
proof -
  assume "n < 2 ^ 16"
  then have "unat (be16 n ! 0) * 256 + unat (be16 n ! 1) = n"
    using be16_value by (simp add: be16_def)
  then have "word_of_nat (unat (be16 n ! 0) * 256 + unat (be16 n ! 1)) = (word_of_nat n :: u32)"
    by simp
  then show ?thesis
    by (simp add: push_bit_eq_mult)
qed

lemma dePackage_spec:
  fixes d m :: u32
  assumes ret: "package_type b0 = Some ret"
    and ok: "frame_ok form key xs"
    and F: "F = ws_frame b0 form key xs"
    and n: "length F \<le> unat d" "length xs + 14 < 2 ^ 32" "length xs < unat m" "length xs < length pkg"
  shows "webSocket_dePackage (F @ rest) d pkg m pl hl
    = Some (ret, xs @ NUL # drop (Suc (length xs)) pkg, word_of_nat (length xs),
        word_of_nat (length F - length xs))"
proof -
  have len: "length F - length xs = 2 + ext_length form + (if key = None then 0 else 4)" "length xs \<le> length F"
    using ok by (simp_all add: F ws_frame_def length_ws_head frame_ok_def)
  have code: "mask_code key (form_code form (length xs)) AND 0x80 = 0x80 \<longleftrightarrow> key \<noteq> None"
    "mask_code key (form_code form (length xs)) AND 0x7F = form_code form (length xs)"
    using ok mask_code_bits [OF form_code_less] by (auto simp: frame_ok_def)
  have data: "dePackage_data ret (key \<noteq> None) (F @ rest) d pkg m (word_of_nat (length xs)) (word_of_nat h)
    = Some (ret, xs @ NUL # drop (Suc (length xs)) pkg, word_of_nat (length xs),
        word_of_nat (length F - length xs))" if h: "h = 2 + ext_length form" for h
  proof -
    have "h \<le> 10"
      unfolding h by (cases form) simp_all
    then have u: "unat (word_of_nat h :: u32) = h"
      by (simp add: unat_of_nat)
    have P: "F @ rest = take h F @ key_bytes key @ masked key xs @ rest"
      by (simp add: F ws_frame_def ws_head_def h)
    have "length F - length xs = h + (if key = None then 0 else 4)"
      using len(1) h by simp
    moreover have "length (take h F) = unat (word_of_nat h :: u32)"
      "unat (word_of_nat h :: u32) + (if key = None then 0 else 4) + length xs \<le> unat d"
      using u calculation len(2) n(1) by simp_all
    ultimately show ?thesis
      using dePackage_data_spec [OF P _ _ refl] ok n u \<open>h \<le> 10\<close> by (simp add: frame_ok_def)
  qed
  have rd: "get (F @ rest) 0 = Some b0" "get (F @ rest) 1 = Some (mask_code key (form_code form (length xs)))"
    by (simp_all add: F ws_frame_def ws_head_def get_def)
  have d: "2 + ext_length form \<le> unat d"
    using len n(1) by simp
  show ?thesis
  proof (cases form)
    case Short
    then have n: "length xs < 126"
      using ok by (simp add: frame_ok_def)
    have "form_code form (length xs) \<noteq> 126" "form_code form (length xs) \<noteq> 127"
      "ucast (form_code form (length xs)) = (word_of_nat (length xs) :: u32)"
      using n by (simp_all add: Short word_unat_eq_iff unat_of_nat unsigned_ucast_eq take_bit_nat_eq_self)
    then show ?thesis
      using data [of 2] ret code d rd Short
      by (simp add: webSocket_dePackage_def word_less_nat_alt Let_def)
  next
    case Medium
    have "get (F @ rest) 2 = Some (be16 (length xs) ! 0)" "get (F @ rest) 3 = Some (be16 (length xs) ! 1)"
      by (simp_all add: F ws_frame_def ws_head_def Medium be16_def get_def)
    then show ?thesis
      using data [of 4] ret code d rd Medium ok be16_word [of "length xs"]
      by (simp add: webSocket_dePackage_def word_less_nat_alt Let_def frame_ok_def)
  next
    case Long
    have "slice 2 4 (F @ rest) = Some [0, 0, 0, 0]" "slice 6 4 (F @ rest) = Some (be32 (word_of_nat (length xs)))"
      by (simp_all add: F ws_frame_def ws_head_def Long be32_def slice_def)
    then show ?thesis
      using data [of 10] ret code d rd Long be32_value [of "word_of_nat (length xs)"]
      by (simp add: webSocket_dePackage_def word_less_nat_alt Let_def)
  qed
qed

section \<open>Unpacking stays inside its arrays\<close>

text \<open>
  The bounds checks compare sums of 32-bit words.  They are sound as long as the length in the
  header leaves room for the header; \<open>claimed_length\<close> is what the 64-bit form announces.
\<close>

definition claimed_length :: "bytes \<Rightarrow> nat" where
  "claimed_length data = (case slice 6 4 data of None \<Rightarrow> 0
     | Some lo \<Rightarrow> unat (push_bit 8 (push_bit 8 (push_bit 8 (ucast (lo ! 0)) + ucast (lo ! 1))
         + ucast (lo ! 2)) + ucast (lo ! 3) :: u32))"

lemma dePackage_data_safe:
  fixes d m len h :: u32
  assumes "unat d \<le> length data" "unat m \<le> length pkg" "unat len + 14 < 2 ^ 32" "unat h \<le> 10"
  shows "dePackage_data ret Mask data d pkg m len h \<noteq> None"
proof -
  define c :: u32 where "c = (if Mask then 4 else 0)"
  have c: "unat c \<le> 4" "Mask \<Longrightarrow> unat c = 4"
    by (simp_all add: c_def)
  have sum: "unat (len + h + c) = unat len + unat h + unat c" "unat (h + c) = unat h + unat c"
    "unat (len + (h + c)) = unat len + unat h + unat c" "unat (len + 1) = unat len + 1"
    using assms(3,4) c(1) by (simp_all add: unat_word_ariths)
  consider (err) "d < len + h + c \<or> d < len + (h + c) \<or> m < len + 1"
    | (ok) "unat len + unat h + unat c \<le> length data" "unat len < length pkg"
    using sum assms(1,2) by (fastforce simp: word_less_nat_alt)
  then show ?thesis
  proof cases
    case err
    have "unat h + 4 \<le> length data" if "Mask" "\<not> d < len + h + c"
      using that assms(1) sum c(2) by (simp add: word_less_nat_alt)
    with err show ?thesis
      by (auto simp: dePackage_data_def Let_def slice_def simp flip: c_def)
  next
    case ok
    have "memcpy pkg 0 data (unat (h + c)) (unat len) \<noteq> None"
      using ok sum by (simp add: memcpy_None)
    moreover have "length key = 4 \<Longrightarrow> xor_copy key data (unat (h + c)) (unat len) pkg 0 0 = Some
        (xor_mask 0 key (take (unat len) (drop (unat (h + c)) data)) @ drop (unat len) pkg)" for key
      using ok sum by (subst xor_copy_spec) simp_all
    moreover have "slice (unat h) 4 data = Some (take 4 (drop (unat h) data))" if Mask
      using ok(1) c(2) that by (simp add: slice_def)
    ultimately show ?thesis
      using ok sum c(2) memcpy_length [of pkg 0 data "unat (h + c)" "unat len"]
      by (auto simp: dePackage_data_def Let_def put_byte_in simp flip: c_def)
  qed
qed

lemma dePackage_safe_lemma:
  fixes d m :: u32
  assumes "unat d \<le> length data" "unat m \<le> length pkg" "10 \<le> unat d \<Longrightarrow> claimed_length data + 14 < 2 ^ 32"
  shows "webSocket_dePackage data d pkg m pl hl \<noteq> None"
proof -
  have short: "unat (ucast (b AND 0x7F :: byte) :: u32) + 14 < 2 ^ 32"
    "unat (push_bit 8 (ucast a) + ucast b :: u32) + 14 < 2 ^ 32" for a b :: byte
  proof -
    have u: "unat (ucast x :: u32) = unat x" for x :: byte
      using byte_less [of x] by (simp add: unsigned_ucast_eq take_bit_nat_eq_self)
    show "unat (ucast (b AND 0x7F :: byte) :: u32) + 14 < 2 ^ 32"
      using u [of "b AND 0x7F"] byte_less [of "b AND 0x7F"] by simp
    have "unat (push_bit 8 (ucast a) + ucast b :: u32) = unat a * 256 + unat b"
      using u [of a] u [of b] byte_less [of a] byte_less [of b] by (simp add: unat_bits)
    then show "unat (push_bit 8 (ucast a) + ucast b :: u32) + 14 < 2 ^ 32"
      using byte_less [of a] byte_less [of b] by simp
  qed
  have "claimed_length data = unat (push_bit 8 (push_bit 8 (push_bit 8 (ucast (lo ! 0)) + ucast (lo ! 1))
         + ucast (lo ! 2)) + ucast (lo ! 3) :: u32)" if "slice 6 4 data = Some lo" for lo
    using that by (simp add: claimed_length_def)
  with assms(3) have long: "unat (push_bit 8 (push_bit 8 (push_bit 8 (ucast (lo ! 0)) + ucast (lo ! 1))
         + ucast (lo ! 2)) + ucast (lo ! 3) :: u32) + 14 < 2 ^ 32" if "slice 6 4 data = Some lo" "10 \<le> unat d" for lo
    using that by simp
  note safe = dePackage_data_safe [OF assms(1,2), unfolded not_None_eq split_paired_Ex]
  have rd: "get data i \<noteq> None" if "i < unat d" for i
    using that assms(1) by (simp add: get_def)
  have sl: "slice i 4 data \<noteq> None" if "i + 4 \<le> unat d" for i
    using that assms(1) by (simp add: slice_def)
  show ?thesis
    using rd [of 0] rd [of 1] rd [of 2] rd [of 3] sl [of 2] sl [of 6]
    by (auto simp: webSocket_dePackage_def Let_def word_less_nat_alt not_less
      intro!: safe short long [simplified] split: option.split)
qed

text \<open>
  With the largest 32-bit length the sums wrap to small numbers and all checks pass.
\<close>

lemma dePackage_overflow_lemma:
  fixes d m :: u32
  assumes "package_type b0 = Some ret" "data = [b0, 127, 0, 0, 0, 0, 255, 255, 255, 255] @ rest"
    "unat d = length data" "length data < 2 ^ 32 - 1"
  shows "webSocket_dePackage data d pkg m pl hl = None"
proof -
  have d: "\<not> d < 2" "\<not> d < 10" "\<not> d < 9"
    using assms(2,3) by (simp_all add: word_less_nat_alt)
  have "memcpy pkg 0 data 10 4294967295 = None"
    using assms(4) by (simp add: memcpy_None)
  then have "dePackage_data ret False data d pkg m 4294967295 10 = None"
    using d by (simp add: dePackage_data_def Let_def word_less_nat_alt)
  then show ?thesis
    using d assms(1,2) by (simp add: webSocket_dePackage_def slice_def)
qed

end
