(* ===== verification/Client_Send.thy ===== *)
theory Client_Send
  imports Client_Frame
begin

text \<open>
  The client's sending side around the frame codec (\<open>webSocket_send\<close> of
  \<^verbatim>\<open>src/src/websocket-client.cc\<close>), and the client as a sender and a receiver of frames.
\<close>

text \<open>
  The bytes \<open>webSocket_send\<close> hands to \<open>send()\<close>: it packs into a zeroed array with 128 bytes to
  spare.  \<open>Some None\<close> is the call with the negative length of a failed packing.
\<close>

definition webSocket_send ::
  "(nat \<Rightarrow> nat) \<Rightarrow> bytes \<Rightarrow> bool \<Rightarrow> WebsocketData_Type \<Rightarrow> bytes option option" where
  "webSocket_send rand data isMask type =
     (let dataLen = length data in do {
        r \<leftarrow> webSocket_enPackage rand data (word_of_nat dataLen) (replicate (dataLen + 128) 0)
          (word_of_nat (dataLen + 128)) isMask type;
        Some (map_option (\<lambda>(package, retLen). take (unat retLen) package) r) })"

text \<open>An \<open>int\<close> length that leaves room for the 128 bytes.\<close>

definition sendable :: "bytes \<Rightarrow> bool" where
  "sendable data \<longleftrightarrow> length data + 128 < 2 ^ 31"

lemma webSocket_send_frame:
  assumes "sendable data" "type_byte type = Some b0"
  shows "webSocket_send rand data isMask type
    = Some (Some (ws_frame b0 (enc_form (length data)) (enc_key rand isMask) data))"
proof -
  define F where "F = ws_frame b0 (enc_form (length data)) (enc_key rand isMask) (take (length data) data)"
  have n: "unat (word_of_nat (length data) :: u32) = length data"
    "unat (word_of_nat (length data + 128) :: u32) = length data + 128"
    using assms(1) by (simp_all only: sendable_def unat_of_nat) simp_all
  have "length F \<le> length data + 14"
    unfolding F_def by (cases "enc_form (length data)") (simp_all add: ws_frame_def length_ws_head)
  then have "unat (word_of_nat (length F) :: u32) = length F"
    using assms(1) by (simp add: sendable_def unat_of_nat)
  moreover have "webSocket_enPackage rand data (word_of_nat (length data)) (replicate (length data + 128) 0)
      (word_of_nat (length data + 128)) isMask type
    = Some (Some (F @ NUL # drop (Suc (length F)) (replicate (length data + 128) 0), word_of_nat (length F)))"
    using assms n by (intro enPackage_spec [OF assms(2), where n = "length data"]) (simp_all add: F_def sendable_def)
  ultimately show ?thesis
    by (simp add: webSocket_send_def Let_def F_def)
qed

text \<open>The first bytes the client writes.\<close>

definition client_op :: "byte \<Rightarrow> bool" where
  "client_op b \<longleftrightarrow> b \<in> {0x00, 0x81, 0x82, 0x88, 0x89, 0x8A}"

lemma client_op_type: "client_op b \<Longrightarrow> \<exists>type. package_type b = Some type \<and> type_byte type = Some b"
  by (auto simp: client_op_def package_type_def Let_def)

lemma type_byte_back: "type_byte type = Some b \<Longrightarrow> package_type b = Some type \<and> client_op b"
  by (cases type) (auto simp: client_op_def package_type_def)

definition client_send :: "(nat \<Rightarrow> nat) \<Rightarrow> bool \<Rightarrow> byte \<Rightarrow> bytes \<Rightarrow> bytes option" where
  "client_send rand isMask b xs =
     (case package_type b of None \<Rightarrow> None
      | Some type \<Rightarrow> Option.bind (webSocket_send rand xs isMask type) id)"

text \<open>
  What \<open>webSocket_dePackage\<close> makes of \<open>data\<close> with an array as large as \<open>webSocket_recv\<close> gives it: the
  first byte, the payload, and what follows by the two lengths it stores.
\<close>

definition client_recv :: "bytes \<Rightarrow> (byte \<times> bytes \<times> bytes) option" where
  "client_recv data =
     (let n = length data in do {
        (ret, package, len, hl) \<leftarrow> webSocket_dePackage data (word_of_nat n) (replicate (n + 128) 0)
          (word_of_nat (n + 128)) 0 0;
        if ret = WDT_ERR then None
        else Some (data ! 0, take (unat len) package, drop (unat hl + unat len) data) })"

lemma client_recv_frame:
  assumes "package_type b \<noteq> None" "frame_ok form key xs"
    and "length (ws_frame b form key xs @ rest) + 128 < 2 ^ 31"
  shows "client_recv (ws_frame b form key xs @ rest) = Some (b, xs, rest)"
proof -
  define F where "F = ws_frame b form key xs"
  obtain ret where ret: "package_type b = Some ret"
    using assms(1) by blast
  then have err: "ret \<noteq> WDT_ERR"
    by (auto simp: package_type_def Let_def split: if_splits)
  have len: "length xs \<le> length F" "length F \<le> length xs + 14"
    using assms(2) by (cases form; simp add: F_def ws_frame_def length_ws_head frame_ok_def)+
  define n where "n = length (F @ rest)"
  have n: "unat (word_of_nat n :: u32) = n" "unat (word_of_nat (n + 128) :: u32) = n + 128"
    "unat (word_of_nat (length xs) :: u32) = length xs"
    "unat (word_of_nat (length F - length xs) :: u32) = length F - length xs"
    using assms(3) len by (simp_all only: F_def [symmetric] n_def unat_of_nat) simp_all
  have "webSocket_dePackage (F @ rest) (word_of_nat n) (replicate (n + 128) 0) (word_of_nat (n + 128)) 0 0
    = Some (ret, xs @ NUL # drop (Suc (length xs)) (replicate (n + 128) 0), word_of_nat (length xs),
        word_of_nat (length F - length xs))"
    using assms(3) len n by (intro dePackage_spec [OF ret assms(2) F_def]) (simp_all add: F_def [symmetric] n_def)
  moreover have "(F @ rest) ! 0 = b"
    by (simp add: F_def ws_frame_def ws_head_def)
  ultimately show ?thesis
    using err n(3,4) len unfolding F_def [symmetric] by (simp add: client_recv_def Let_def n_def)
qed

interpretation cli_out: frame_sender "client_send rand isMask" "\<lambda>b xs. client_op b \<and> sendable xs" isMask
proof
  fix b xs
  assume a: "client_op b \<and> sendable xs"
  then obtain type where "package_type b = Some type" "type_byte type = Some b"
    using client_op_type by blast
  then have "client_send rand isMask b xs = Some (ws_frame b (enc_form (length xs)) (enc_key rand isMask) xs)"
    using a by (simp add: client_send_def webSocket_send_frame)
  moreover have "frame_ok (enc_form (length xs)) (enc_key rand isMask) xs"
    using a by (simp add: frame_ok_def sendable_def enc_form_ok)
  moreover have "enc_key rand isMask \<noteq> None \<longleftrightarrow> isMask"
    by (simp add: enc_key_def)
  ultimately show "\<exists>form key. frame_ok form key xs \<and> (key \<noteq> None \<longleftrightarrow> isMask) \<and>
      client_send rand isMask b xs = Some (ws_frame b form key xs)"
    by blast
qed

interpretation cli_in: frame_receiver client_recv "\<lambda>b key xs. package_type b \<noteq> None" "2 ^ 31 - 128"
  by unfold_locales (rule client_recv_frame, simp_all)

interpretation cli_cli: frame_link "client_send rand isMask" "\<lambda>b xs. client_op b \<and> sendable xs" isMask
  client_recv "\<lambda>b key xs. package_type b \<noteq> None" "2 ^ 31 - 128"
  by unfold_locales (use client_op_type in force)

section \<open>Properties\<close>

text \<open>
  C11: for each of the six types and both masking modes, \<open>webSocket_send\<close> hands one well-formed
  frame of RFC 6455 to the socket, with the shortest length field, its payload masked with the
  random key when asked.
\<close>

theorem client_send_is_frame:
  assumes "sendable data" "type_byte type = Some b0"
  shows "webSocket_send rand data isMask type
    = Some (Some (ws_frame b0 (enc_form (length data)) (enc_key rand isMask) data))"
  using assms by (rule webSocket_send_frame)

theorem client_send_is_frame_witness:
  "webSocket_send (\<lambda>i. i + 255) [1, 2, 3] True WDT_BINDATA
    = Some (Some (ws_frame 0x82 (enc_form (length [1, 2, 3 :: byte])) (enc_key (\<lambda>i. i + 255) True) [1, 2, 3]))"
  using client_send_is_frame [where data = "[1, 2, 3]" and type = WDT_BINDATA and ?b0.0 = "0x82"
    and rand = "\<lambda>i. i + 255" and isMask = True]
  unfolding sendable_def by simp

text \<open>
  \<open>webSocket_dePackage\<close> takes any well-formed frame, whatever width of length field and whether
  masked or not, off the front of the data: it returns the type, the payload and the lengths.
\<close>

theorem client_unpacks_frame:
  assumes "package_type b \<noteq> None" "frame_ok form key xs"
    and "length (ws_frame b form key xs @ rest) + 128 < 2 ^ 31"
  shows "client_recv (ws_frame b form key xs @ rest) = Some (b, xs, rest)"
  using assms by (rule client_recv_frame)

theorem client_unpacks_frame_witness:
  "client_recv (ws_frame 0x81 Medium (Some [1, 2, 3, 4]) [104, 105] @ [9]) = Some (0x81, [104, 105], [9])"
  by (rule client_unpacks_frame)
    (simp_all add: package_type_def Let_def frame_ok_def ws_frame_def ws_head_def be16_def)

text \<open>
  \<open>webSocket_dePackage\<close> accesses no array out of its bounds, on any input, unless the eight-byte
  length field announces at least 2 to the 32 minus 14 bytes.
\<close>

theorem dePackage_safe:
  fixes dataLen packageMaxLen :: u32
  assumes "unat dataLen \<le> length data" "unat packageMaxLen \<le> length package"
    and "claimed_length data + 14 < 2 ^ 32"
  shows "webSocket_dePackage data dataLen package packageMaxLen pl hl \<noteq> None"
  using assms by (rule dePackage_safe_lemma)

theorem dePackage_safe_witness:
  "webSocket_dePackage [0x81, 127, 0, 0, 0, 0, 255, 255, 255, 0, 1] 11 (replicate 139 0) 139 0 0 \<noteq> None"
  by (rule dePackage_safe) (simp_all add: claimed_length_def slice_def)

text \<open>
  With the length 4294967295 in an unmasked frame the 32-bit sums of the checks wrap, all checks
  pass, and the copy leaves its arrays.
\<close>

theorem dePackage_overflow:
  fixes dataLen packageMaxLen :: u32
  assumes "package_type b0 = Some ret" "unat dataLen = length rest + 10" "length rest + 11 < 2 ^ 32"
  shows "webSocket_dePackage ([b0, 127, 0, 0, 0, 0, 255, 255, 255, 255] @ rest) dataLen
    package packageMaxLen pl hl = None"
  using assms by (intro dePackage_overflow_lemma [OF assms(1) refl]) simp_all

theorem dePackage_overflow_witness:
  "webSocket_dePackage ([0x82, 127, 0, 0, 0, 0, 255, 255, 255, 255] @ [7]) 11 (replicate 139 0) 139 0 0 = None"
  by (rule dePackage_overflow) (simp_all add: package_type_def Let_def)

end
