(* ===== verification/Client_Recv.thy ===== *)
theory Client_Recv
  imports Client_Send
begin

text \<open>
  The client's receiving side around the frame codec (\<open>webSocket_recv\<close> of
  \<^verbatim>\<open>src/src/websocket-client.cc\<close>): one frame is read from the socket into an array, a frame whose
  length is known and that has not arrived whole is waited for, a ping with a payload is answered.
\<close>

section \<open>The code\<close>

text \<open>
  \<open>stream\<close> is what the peer has sent and will send.  \<open>calls i\<close> is the \<open>i\<close>-th \<open>recv\<close>: how many bytes of
  it there are for that call, and whether \<open>errno\<close> then is \<open>EAGAIN\<close> or \<open>EINTR\<close>; a call that gets no byte
  returns 0 or -1, which the code treats alike.
\<close>

type_synonym recv_calls = "nat \<Rightarrow> nat \<times> bool"

record recv_result =
  rr_data :: bytes
  rr_type :: WebsocketData_Type
  rr_ret :: int
  rr_sent :: "bytes list"
  rr_rest :: bytes

definition recv_call :: "recv_calls \<Rightarrow> nat \<Rightarrow> nat \<Rightarrow> bytes \<Rightarrow> bytes" where
  "recv_call calls i room stream = take (min (fst (calls i)) room) stream"

text \<open>
  The loop that waits for the rest of a frame: \<open>got\<close> is the part of \<open>recvBuf\<close> that is filled.  The first
  result is false where the code jumps to \<open>recv_return_null\<close>.
\<close>

function recv_more :: "recv_calls \<Rightarrow> nat \<Rightarrow> int \<Rightarrow> nat \<Rightarrow> nat \<Rightarrow> bytes \<Rightarrow> bytes \<Rightarrow> bool \<times> bytes \<times> bytes" where
  "recv_more calls dataMaxLen target i timeOut got stream =
     (if int (length got) < target then
        let xs = recv_call calls i (dataMaxLen - length got) stream;
            stream = drop (length xs) stream;
            timeOut = (if xs \<noteq> [] then 50 else timeOut) in
        if xs = [] \<and> \<not> snd (calls i) then (False, got, stream)
        else if timeOut - 1 < 1 then (False, got @ xs, stream)
        else recv_more calls dataMaxLen target (i + 1) (timeOut - 1) (got @ xs) stream
      else (True, got, stream))"
  by pat_completeness auto
termination
  by (relation "measures [\<lambda>(calls, dataMaxLen, target, i, timeOut, got, stream). nat (target - int (length got)),
      \<lambda>(calls, dataMaxLen, target, i, timeOut, got, stream). timeOut]") auto

declare recv_more.simps [simp del]

definition recv_unpack ::
  "nat \<Rightarrow> bytes \<Rightarrow> u32 \<Rightarrow> u32 \<Rightarrow> (WebsocketData_Type \<times> bytes \<times> u32 \<times> u32) option" where
  "recv_unpack dataMaxLen got retLen retHeadLen =
     webSocket_dePackage (got @ replicate (dataMaxLen - length got) 0) (word_of_nat (length got))
       (replicate (length got + 128) 0) (word_of_nat (length got + 128)) retLen retHeadLen"

text \<open>What is done with a complete frame: the caller's array, the number returned, what is sent.\<close>

definition recv_deliver ::
  "(nat \<Rightarrow> nat) \<Rightarrow> bytes \<Rightarrow> WebsocketData_Type \<Rightarrow> bytes \<Rightarrow> int \<Rightarrow> (bytes \<times> int \<times> bytes list) option" where
  "recv_deliver rand data dpRet package retLen =
     (if retLen > 0 then
        if dpRet = WDT_PING then do {
          payload \<leftarrow> slice 0 (nat retLen) package;
          sent \<leftarrow> webSocket_send rand payload True WDT_PONG;
          pong \<leftarrow> sent;
          Some (data, retLen, [pong]) }
        else if dpRet = WDT_PONG then Some (data, retLen, [])
        else do {
          data \<leftarrow> memcpy data 0 package 0 (nat retLen);
          Some (data, retLen, []) }
      else Some (data, 0, []))"

text \<open>Bytes that are no frame: they are handed over as they are, with the negative of their number.\<close>

definition recv_raw :: "bytes \<Rightarrow> nat \<Rightarrow> bytes \<Rightarrow> (bytes \<times> int) option" where
  "recv_raw data dataMaxLen got = do {
     data \<leftarrow> memcpy data 0 (replicate dataMaxLen 0) 0 dataMaxLen;
     if length got < dataMaxLen then do {
       data \<leftarrow> memcpy data 0 got 0 (length got);
       Some (data, - int (length got)) }
     else do {
       data \<leftarrow> memcpy data 0 got 0 dataMaxLen;
       Some (data, - int dataMaxLen) } }"

definition webSocket_recv ::
  "(nat \<Rightarrow> nat) \<Rightarrow> recv_calls \<Rightarrow> bytes \<Rightarrow> bytes \<Rightarrow> nat \<Rightarrow> recv_result option" where
  "webSocket_recv rand calls stream data dataMaxLen =
     (let got = recv_call calls 0 dataMaxLen stream;
          stream = drop (length got) stream;
          result = (\<lambda>data ty ret sent stream.
            \<lparr>rr_data = data, rr_type = ty, rr_ret = ret, rr_sent = sent, rr_rest = stream\<rparr>) in
      if got = [] then Some (result data WDT_NULL 0 [] stream)
      else do {
        (dpRet, package, retLen, retHeadLen) \<leftarrow> recv_unpack dataMaxLen got 0 0;
        if dpRet = WDT_ERR \<and> retLen = 0 then do {
          (data, ret) \<leftarrow> recv_raw data dataMaxLen got;
          Some (result data dpRet ret [] stream) }
        else if sint retLen > int dataMaxLen then Some (result data dpRet 0 [] stream)
        else if sint retHeadLen + sint retLen \<ge> 2 ^ 31 then None
        else if int (length got) < sint retHeadLen + sint retLen then
          (case recv_more calls dataMaxLen (sint retHeadLen + sint retLen) 1 50 got stream of
             (False, _, stream) \<Rightarrow> Some (result data dpRet 0 [] stream)
           | (True, got, stream) \<Rightarrow> do {
               (dpRet, package, retLen, retHeadLen) \<leftarrow> recv_unpack dataMaxLen got retLen retHeadLen;
               (data, ret, sent) \<leftarrow> recv_deliver rand data dpRet package (sint retLen);
               Some (result data dpRet ret sent stream) })
        else do {
          (data, ret, sent) \<leftarrow> recv_deliver rand data dpRet package (sint retLen);
          Some (result data dpRet ret sent stream) } })"

section \<open>The waiting loop\<close>

lemma length_recv_call: "length (recv_call calls i room s) = min (length s) (min (fst (calls i)) room)"
  by (simp add: recv_call_def)

lemma recv_call_take: "take (length (recv_call calls i room s)) s = recv_call calls i room s"
  by (simp add: recv_call_def min_def)

lemma recv_more_keeps:
  assumes "recv_more calls dataMaxLen target i timeOut got stream = (ok, got', stream')" "length got \<le> dataMaxLen"
  shows "got' @ stream' = got @ stream \<and> length got \<le> length got' \<and> length got' \<le> dataMaxLen \<and>
    (ok \<longrightarrow> target \<le> int (length got'))"
  using assms
proof (induction calls dataMaxLen target i timeOut got stream rule: recv_more.induct)
  case (1 calls dataMaxLen target i timeOut got stream)
  define xs where "xs = recv_call calls i (dataMaxLen - length got) stream"
  have xs: "xs @ drop (length xs) stream = stream" "length xs \<le> dataMaxLen - length got"
    by (simp_all add: xs_def recv_call_def append_eq_conv_conj min_def)
  note IH = "1.IH" [OF _ xs_def refl refl]
  show ?case
    using "1.prems" xs IH
    by (subst (asm) recv_more.simps) (fastforce simp flip: xs_def simp: Let_def split: if_splits)
qed

text \<open>
  Where no call fails for good and never 49 calls in a row come back empty, the loop gets all it
  waits for.
\<close>

definition arrives :: "recv_calls \<Rightarrow> bool" where
  "arrives calls \<longleftrightarrow> (\<forall>i. snd (calls i)) \<and> (\<forall>i. \<exists>j < 49. 0 < fst (calls (i + j)))"

lemma recv_more_arrives:
  assumes "arrives calls" "target \<le> int (length got + length stream)" "target \<le> int dataMaxLen"
    and "\<exists>j < timeOut. 0 < fst (calls (i + j))"
  shows "fst (recv_more calls dataMaxLen target i timeOut got stream)"
  using assms
proof (induction calls dataMaxLen target i timeOut got stream rule: recv_more.induct)
  case (1 calls dataMaxLen target i timeOut got stream)
  define xs where "xs = recv_call calls i (dataMaxLen - length got) stream"
  show ?case
  proof (cases "int (length got) < target")
    case True
    have again: "snd (calls i)" and next': "\<exists>j < 49. 0 < fst (calls (i + 1 + j))"
      using "1.prems"(1) unfolding arrives_def by blast+
    have xs: "length xs \<le> length stream" "xs = [] \<longleftrightarrow> fst (calls i) = 0"
      using True "1.prems"(2,3) by (auto simp: xs_def recv_call_def)
    note IH = "1.IH" [OF True xs_def refl refl _ _ "1.prems"(1)]
    show ?thesis
    proof (cases "xs = []")
      case empty: True
      obtain j where j: "j < timeOut" "0 < fst (calls (i + j))"
        using "1.prems"(4) by blast
      have "j \<noteq> 0"
        using j(2) xs(2) empty by (cases j) simp_all
      then have "\<exists>j < timeOut - 1. 0 < fst (calls (i + 1 + j))" "\<not> timeOut - 1 < 1"
        using j by (auto intro!: exI [of _ "j - 1"])
      then show ?thesis
        using IH "1.prems"(2,3) True empty again
        by (subst recv_more.simps) (simp flip: xs_def add: Let_def)
    next
      case False
      then show ?thesis
        using IH "1.prems"(2,3) True again next' xs(1)
        by (subst recv_more.simps) (simp flip: xs_def add: Let_def)
    qed
  qed (subst recv_more.simps, simp)
qed

section \<open>Unpacking a part of a frame\<close>

text \<open>Once the length field is there, the header is taken for what it says.\<close>

lemma dePackage_head:
  fixes d m :: u32
  assumes ret: "package_type b0 = Some ret" and ok: "form_ok form n" and h: "h = 2 + ext_length form" "h \<le> unat d"
    and data: "take h data = take h (ws_head b0 form key n)" "h \<le> length data"
  shows "webSocket_dePackage data d pkg m pl hl
    = dePackage_data ret (key \<noteq> None) data d pkg m (word_of_nat n) (word_of_nat h)"
proof -
  have code: "mask_code key (form_code form n) AND 0x80 = 0x80 \<longleftrightarrow> key \<noteq> None"
    "mask_code key (form_code form n) AND 0x7F = form_code form n"
    using mask_code_bits [OF form_code_less [OF ok]] by auto
  have "take h (ws_head b0 form key n) = [b0, mask_code key (form_code form n)] @ form_ext form n"
    by (simp add: ws_head_def h(1))
  with data(1) have split: "data = b0 # mask_code key (form_code form n) # form_ext form n @ drop h data"
    by (metis append_Cons append_Nil append_take_drop_id append_assoc)
  show ?thesis
  proof (cases form)
    case Short
    then have n: "n < 126"
      using ok by simp
    have "form_code form n \<noteq> 126" "form_code form n \<noteq> 127" "ucast (form_code form n) = (word_of_nat n :: u32)"
      using n by (simp_all add: Short word_unat_eq_iff unat_of_nat unsigned_ucast_eq take_bit_nat_eq_self)
    moreover have "get data 0 = Some b0" "get data 1 = Some (mask_code key (form_code form n))"
      by (subst split; simp add: get_def)+
    ultimately show ?thesis
      using ret code h Short by (simp add: webSocket_dePackage_def word_less_nat_alt Let_def)
  next
    case Medium
    have "get data 0 = Some b0" "get data 1 = Some (mask_code key 126)"
      "get data 2 = Some (be16 n ! 0)" "get data 3 = Some (be16 n ! 1)"
      by (subst split; simp add: Medium be16_def get_def)+
    then show ?thesis
      using ret code h Medium ok be16_word [of n]
      by (simp add: webSocket_dePackage_def word_less_nat_alt Let_def)
  next
    case Long
    have "get data 0 = Some b0" "get data 1 = Some (mask_code key 127)"
      "slice 2 4 data = Some [0, 0, 0, 0]" "slice 6 4 data = Some (be32 (word_of_nat n))"
      by (subst split; simp add: Long be32_def get_def slice_def)+
    then show ?thesis
      using ret code h Long be32_value [of "word_of_nat n"]
      by (simp add: webSocket_dePackage_def word_less_nat_alt Let_def)
  qed
qed

lemma dePackage_data_short:
  fixes d m h :: u32
  assumes "unat h \<le> 10" "n + 14 < 2 ^ 32" "unat d < n + unat h + (if Mask then 4 else 0)"
  shows "dePackage_data ret Mask data d pkg m (word_of_nat n) h = Some (WDT_ERR, pkg, word_of_nat n, h + (if Mask then 4 else 0))"
proof -
  let ?c = "if Mask then 4 else 0 :: u32"
  have "unat (word_of_nat n + h + ?c) = n + unat h + unat ?c"
    using assms(1,2) by (auto simp: unat_word_ariths unat_of_nat)
  then have "d < word_of_nat n + h + ?c"
    using assms(3) by (auto simp: word_less_nat_alt)
  then show ?thesis
    by (simp add: dePackage_data_def Let_def)
qed

section \<open>Safety\<close>

lemma put_byte_same_length: "put_byte i b xs = Some ys \<Longrightarrow> length ys = length xs"
  by (auto simp: put_byte_def split: if_splits)

lemma xor_copy_length: "xor_copy key src i n dst p count = Some ys \<Longrightarrow> length ys = length dst"
  by (induction n arbitrary: i dst p count) (fastforce simp: bind_eq_Some_conv Let_def dest: put_byte_same_length)+

text \<open>The array keeps its length, and the header's is at most 14, where one is stored at all.\<close>

definition unpacked :: "bytes \<Rightarrow> u32 \<Rightarrow> (WebsocketData_Type \<times> bytes \<times> u32 \<times> u32) option \<Rightarrow> bool" where
  "unpacked pkg hl m \<longleftrightarrow> (\<forall>t pkg' len h. m = Some (t, pkg', len, h) \<longrightarrow> length pkg' = length pkg \<and> (h = hl \<or> unat h \<le> 14))"

lemma unpacked_simps [simp]: "unpacked pkg hl None" "unpacked pkg hl (Some (t, pkg, len, hl))"
  by (simp_all add: unpacked_def)

lemma unpacked_bind: "(\<And>x. m = Some x \<Longrightarrow> unpacked pkg hl (f x)) \<Longrightarrow> unpacked pkg hl (m \<bind> f)"
  by (cases m) simp_all

lemma dePackage_data_unpacked:
  assumes "unat h \<le> 10"
  shows "unpacked pkg hl (dePackage_data ret Mask data d pkg m len h)"
proof -
  have h: "unat (h + 4) \<le> 14" "unat h \<le> 14"
    using assms by (simp_all add: unat_word_ariths)
  show ?thesis
    unfolding unpacked_def dePackage_data_def Let_def
    using h by (cases Mask) (auto simp: bind_eq_Some_conv split: if_splits
      dest!: put_byte_same_length xor_copy_length memcpy_length)
qed

lemma dePackage_unpacked: "unpacked pkg hl (webSocket_dePackage data d pkg m pl hl)"
  unfolding webSocket_dePackage_def Let_def
  by (auto intro!: unpacked_bind dePackage_data_unpacked split: option.split)

text \<open>A header that was understood is understood the same when more has arrived.\<close>

lemma dePackage_header_stays:
  fixes d d' :: u32
  assumes first: "webSocket_dePackage data d pkg m 0 hl = Some (t, pkg1, l, h)" "t \<noteq> WDT_ERR \<or> l \<noteq> 0"
    and more: "take (unat d) data' = take (unat d) data" "d \<le> d'" "unat d \<le> length data" "unat d \<le> length data'"
  shows "\<exists>ret Mask h0. unat h0 \<le> 10 \<and> h = h0 + (if Mask then 4 else 0) \<and>
    webSocket_dePackage data' d' pkg' m' pl hl' = dePackage_data ret Mask data' d' pkg' m' l h0"
proof -
  have same: "get data' i = get data i" if "i < unat d" for i
    using that more(3,4) arg_cong [OF more(1), of "\<lambda>xs. xs ! i"] by (simp add: get_def)
  have same_slice: "slice i n data' = slice i n data" if "i + n \<le> unat d" for i n
  proof -
    have "take n (drop i (take (unat d) data')) = take n (drop i (take (unat d) data))"
      using more(1) by simp
    then have "take n (drop i data') = take n (drop i data)"
      using that by (simp add: drop_take min_def split: if_splits)
    then show ?thesis
      using that more(3,4) by (simp add: slice_def)
  qed
  have d: "\<not> d < 2"
    using first by (auto simp: webSocket_dePackage_def)
  have le: "\<not> d' < k" if "\<not> d < k" for k
    using that more(2) by simp
  from d have two: "2 \<le> unat d"
    by (simp add: word_less_nat_alt)
  obtain d0 where d0: "get data 0 = Some d0"
    using two more(3) by (cases data) (auto simp: get_def)
  obtain d1 where d1: "get data 1 = Some d1"
    using two more(3) by (auto simp: get_def)
  obtain ret where ret: "package_type d0 = Some ret"
    using first d d0 by (cases "package_type d0") (auto simp: webSocket_dePackage_def Let_def)
  have rd: "get data' 0 = Some d0" "get data' 1 = Some d1"
    using d0 d1 two by (simp_all add: same)
  define Mask where "Mask = (d1 AND 0x80 = 0x80)"
  have result: "l = len \<and> h = h0 + (if Mask then 4 else 0)"
    if "dePackage_data ret Mask data d pkg m len h0 = Some (t, pkg1, l, h)" for len h0
    using that by (auto simp: dePackage_data_def Let_def bind_eq_Some_conv split: if_splits)
  consider (m) "d1 AND 0x7F = 126" | (l) "d1 AND 0x7F = 127" | (s) "d1 AND 0x7F \<noteq> 126" "d1 AND 0x7F \<noteq> 127"
    by blast
  then show ?thesis
  proof cases
    case m
    have d4: "\<not> d < 4"
      using first m d d0 d1 ret by (auto simp: webSocket_dePackage_def)
    then have four: "4 \<le> unat d"
      by (simp add: word_less_nat_alt)
    obtain d2 d3 where r: "get data 2 = Some d2" "get data 3 = Some d3"
      using four more(3) by (auto simp: get_def)
    have "dePackage_data ret Mask data d pkg m (push_bit 8 (ucast d2) + ucast d3) 4 = Some (t, pkg1, l, h)"
      using first(1) m d d0 d1 ret d4 r by (simp add: webSocket_dePackage_def Let_def Mask_def)
    note res = result [OF this]
    have "webSocket_dePackage data' d' pkg' m' pl hl' = dePackage_data ret Mask data' d' pkg' m' l 4"
      using m le [OF d] rd ret le [OF d4] r four res by (simp add: webSocket_dePackage_def Let_def Mask_def same)
    then show ?thesis
      using res by (intro exI [of _ ret] exI [of _ Mask] exI [of _ 4]) simp
  next
    case l
    have d10: "\<not> d < 10"
      using first l d d0 d1 ret by (auto simp: webSocket_dePackage_def)
    then have ten: "10 \<le> unat d"
      by (simp add: word_less_nat_alt)
    obtain hi lo where r: "slice 2 4 data = Some hi" "slice 6 4 data = Some lo"
      using ten more(3) by (auto simp: slice_def)
    have hi: "hi = [0, 0, 0, 0]"
      using first l d d0 d1 ret d10 r by (auto simp: webSocket_dePackage_def Let_def split: if_splits)
    let ?len = "push_bit 8 (push_bit 8 (push_bit 8 (ucast (lo ! 0)) + ucast (lo ! 1)) + ucast (lo ! 2)) + ucast (lo ! 3) :: u32"
    have "dePackage_data ret Mask data d pkg m ?len 10 = Some (t, pkg1, l, h)"
      using first(1) l d d0 d1 ret d10 r hi by (simp add: webSocket_dePackage_def Let_def Mask_def)
    note res = result [OF this]
    have "webSocket_dePackage data' d' pkg' m' pl hl' = dePackage_data ret Mask data' d' pkg' m' ?len 10"
      using l le [OF d] rd ret le [OF d10] r hi ten by (simp add: webSocket_dePackage_def Let_def Mask_def same_slice)
    then show ?thesis
      using res by (intro exI [of _ ret] exI [of _ Mask] exI [of _ 10]) simp
  next
    case s
    have "dePackage_data ret Mask data d pkg m (ucast (d1 AND 0x7F)) 2 = Some (t, pkg1, l, h)"
      using first(1) s d d0 d1 ret by (simp add: webSocket_dePackage_def Let_def Mask_def)
    note res = result [OF this]
    have "webSocket_dePackage data' d' pkg' m' pl hl' = dePackage_data ret Mask data' d' pkg' m' l 2"
      using s le [OF d] rd ret res by (simp add: webSocket_dePackage_def Let_def Mask_def)
    then show ?thesis
      using res by (intro exI [of _ ret] exI [of _ Mask] exI [of _ 2]) simp
  qed
qed

lemma sint_small:
  fixes w :: u32
  assumes "unat w < 2 ^ 31"
  shows "sint w = int (unat w)"
proof -
  have "0 \<le> int (unat w)" "int (unat w) < 2 ^ 31"
    using assms by (simp_all del: of_nat_unat)
  then have "signed_take_bit 31 (int (unat w)) = int (unat w)"
    by (intro signed_take_bit_int_eq_self) linarith+
  then show ?thesis
    by (simp add: sint_uint)
qed

lemma sint_of_nat:
  assumes "n < 2 ^ 31"
  shows "sint (word_of_nat n :: u32) = int n"
proof -
  have "unat (word_of_nat n :: u32) = n"
    using assms by (simp add: unat_of_nat)
  then show ?thesis
    using sint_small [of "word_of_nat n"] assms by metis
qed

lemma claimed_prefix: "10 \<le> length got \<Longrightarrow> claimed_length (got @ xs) = claimed_length (got @ ys)"
  by (simp add: claimed_length_def slice_def)

lemma recv_unpack_safe:
  assumes "length got \<le> dataMaxLen" "dataMaxLen + 128 < 2 ^ 31" "claimed_length (got @ ws) + 14 < 2 ^ 32"
  shows "\<exists>t package l h. recv_unpack dataMaxLen got pl hl = Some (t, package, l, h) \<and>
    length package = length got + 128 \<and> (h = hl \<or> unat h \<le> 14)"
proof -
  have n: "unat (word_of_nat (length got) :: u32) = length got" "unat (word_of_nat (length got + 128) :: u32) = length got + 128"
    using assms(1,2) by (simp_all only: unat_of_nat) simp_all
  have "recv_unpack dataMaxLen got pl hl \<noteq> None"
    unfolding recv_unpack_def
  proof (rule dePackage_safe_lemma)
    assume "10 \<le> unat (word_of_nat (length got) :: u32)"
    then show "claimed_length (got @ replicate (dataMaxLen - length got) 0) + 14 < 2 ^ 32"
      using assms(3) claimed_prefix [of got "replicate (dataMaxLen - length got) 0" ws] n(1) by simp
  qed (use n assms(1) in simp_all)
  moreover have "unpacked (replicate (length got + 128) 0) hl (recv_unpack dataMaxLen got pl hl)"
    unfolding recv_unpack_def by (rule dePackage_unpacked)
  ultimately show ?thesis
    by (auto simp: unpacked_def)
qed

lemma recv_unpack_stays:
  assumes "recv_unpack dataMaxLen got 0 hl = Some (t, package, l, h)" "t \<noteq> WDT_ERR \<or> l \<noteq> 0"
    and "recv_unpack dataMaxLen (got @ xs) pl hl' = Some (t', package', l', h')"
    and "length (got @ xs) \<le> dataMaxLen" "dataMaxLen + 128 < 2 ^ 31"
  shows "l' = l"
proof -
  have n: "unat (word_of_nat (length got) :: u32) = length got"
    "unat (word_of_nat (length (got @ xs)) :: u32) = length (got @ xs)"
    using assms(4,5) by (simp_all only: unat_of_nat) simp_all
  from dePackage_header_stays [OF assms(1) [unfolded recv_unpack_def] assms(2),
      of "(got @ xs) @ replicate (dataMaxLen - length (got @ xs)) 0" "word_of_nat (length (got @ xs))"]
  obtain ret Mask h0 where "recv_unpack dataMaxLen (got @ xs) pl hl' = dePackage_data ret Mask
      ((got @ xs) @ replicate (dataMaxLen - length (got @ xs)) 0) (word_of_nat (length (got @ xs)))
      (replicate (length (got @ xs) + 128) 0) (word_of_nat (length (got @ xs) + 128)) l h0"
    using n unfolding recv_unpack_def by (fastforce simp: word_le_nat_alt)
  with assms(3) show ?thesis
    by (auto simp: dePackage_data_def Let_def bind_eq_Some_conv split: if_splits)
qed

lemma recv_deliver_safe:
  assumes "retLen \<le> int (length data)" "retLen \<le> int (length package)" "retLen + 128 < 2 ^ 31"
  shows "\<exists>data' ret sent. recv_deliver rand data t package retLen = Some (data', ret, sent) \<and>
    length data' = length data \<and> ret = max 0 retLen"
proof -
  have "sendable (take (nat retLen) package)"
    using assms(3) by (simp add: sendable_def)
  then have pong: "\<exists>f. webSocket_send rand (take (nat retLen) package) True WDT_PONG = Some (Some f)"
    using webSocket_send_frame by force
  have "memcpy data 0 package 0 (nat retLen) \<noteq> None"
    using assms(1,2) by (simp add: memcpy_None not_less nat_le_iff)
  then show ?thesis
    using pong assms(2) by (auto simp: recv_deliver_def slice_def dest: memcpy_length)
qed

lemma recv_raw_safe:
  assumes "length got \<le> dataMaxLen" "dataMaxLen \<le> length data"
  shows "recv_raw data dataMaxLen got
    = Some (got @ replicate (dataMaxLen - length got) 0 @ drop dataMaxLen data, - int (length got))"
  using assms by (auto simp: recv_raw_def memcpy_def slice_def put_bytes_def drop_append)

text \<open>
  C13: whatever bytes arrive, in whatever pieces and with whatever errors between them, \<open>webSocket_recv\<close>
  ends and stays inside its arrays and the caller's, unless the eight-byte length field announces at
  least 2 to the 32 minus 14 bytes, and what it returns is at most the room it was given.
\<close>

theorem webSocket_recv_safe:
  assumes "dataMaxLen \<le> length data" "dataMaxLen + 128 < 2 ^ 31" "claimed_length stream + 14 < 2 ^ 32"
  shows "\<exists>r. webSocket_recv rand calls stream data dataMaxLen = Some r \<and> length (rr_data r) = length data \<and>
    \<bar>rr_ret r\<bar> \<le> int dataMaxLen"
proof -
  define got where "got = recv_call calls 0 dataMaxLen stream"
  define rest where "rest = drop (length got) stream"
  have got: "got @ rest = stream" "length got \<le> dataMaxLen"
    by (simp_all add: got_def rest_def recv_call_def append_eq_conv_conj min_def)
  obtain t package l h where unpack: "recv_unpack dataMaxLen got 0 0 = Some (t, package, l, h)"
      "length package = length got + 128" "h = 0 \<or> unat h \<le> 14"
    using recv_unpack_safe [OF got(2) assms(2), of rest 0 0] assms(3) got(1) by blast
  have h: "0 \<le> sint h" "sint h \<le> 14"
    using unpack(3) sint_small [of h] by (auto simp del: of_nat_unat)
  have deliver: "\<exists>data' ret sent. recv_deliver rand data ty package' (sint l) = Some (data', ret, sent) \<and>
      length data' = length data \<and> ret = max 0 (sint l)"
    if "sint l \<le> int dataMaxLen" "sint l \<le> int (length package')" for ty package'
    using recv_deliver_safe [of "sint l" data package' rand ty] that assms(1,2) by simp
  note res = webSocket_recv_def Let_def got_def [symmetric] rest_def [symmetric] unpack(1)
  consider (none) "got = []" | (raw) "got \<noteq> []" "t = WDT_ERR" "l = 0" | (long) "got \<noteq> []" "t \<noteq> WDT_ERR \<or> l \<noteq> 0" "sint l > int dataMaxLen"
    | (frame) "got \<noteq> []" "t \<noteq> WDT_ERR \<or> l \<noteq> 0" "sint l \<le> int dataMaxLen"
    by linarith
  then show ?thesis
  proof cases
    case none
    then show ?thesis
      by (simp add: res)
  next
    case raw
    then show ?thesis
      using got(2) assms(1) by (simp add: res recv_raw_safe)
  next
    case long
    then show ?thesis
      using assms(2) by (auto simp: res)
  next
    case frame
    have target: "\<not> sint h + sint l \<ge> 2 ^ 31"
      using h frame(3) assms(2) by simp
    show ?thesis
    proof (cases "int (length got) < sint h + sint l")
      case False
      then have "sint l \<le> int (length package)"
        using unpack(2) h(1) by simp
      then obtain data' ret sent where "recv_deliver rand data t package (sint l) = Some (data', ret, sent)"
          "length data' = length data" "ret = max 0 (sint l)"
        using deliver frame(3) by blast
      then show ?thesis
        using frame target False by (auto simp: res)
    next
      case True
      obtain ok got' rest' where m: "recv_more calls dataMaxLen (sint h + sint l) 1 50 got rest = (ok, got', rest')"
        by (metis prod_cases3)
      note keeps = recv_more_keeps [OF this got(2)]
      show ?thesis
      proof (cases ok)
        case False
        then show ?thesis
          using frame target True m by (auto simp: res)
      next
        case ok: True
        obtain xs where xs: "got' = got @ xs"
          using keeps by (metis append_eq_append_conv_if append_take_drop_id)
        obtain t2 package2 l2 h2 where unpack2: "recv_unpack dataMaxLen got' l h = Some (t2, package2, l2, h2)"
            "length package2 = length got' + 128"
          using recv_unpack_safe [of got' dataMaxLen rest' l h] keeps assms(2,3) got(1) by auto
        have l2: "l2 = l"
          using recv_unpack_stays [OF unpack(1) frame(2)] unpack2(1) keeps assms(2) unfolding xs by blast
        then have "sint l \<le> int (length package2)"
          using unpack2(2) h(1) keeps ok by simp
        then obtain data' ret sent where "recv_deliver rand data t2 package2 (sint l2) = Some (data', ret, sent)"
            "length data' = length data" "ret = max 0 (sint l2)"
          using deliver frame(3) l2 by blast
        then show ?thesis
          using frame target True m ok unpack2(1) l2 by (auto simp: res)
      qed
    qed
  qed
qed

theorem webSocket_recv_safe_witness:
  "\<exists>r. webSocket_recv id (\<lambda>i. (3, False)) [0x81, 127, 0, 0, 0, 0, 1] (replicate 16 0) 16 = Some r \<and>
    length (rr_data r) = length (replicate 16 (0 :: byte)) \<and> \<bar>rr_ret r\<bar> \<le> int 16"
  by (rule webSocket_recv_safe) (simp_all add: claimed_length_def slice_def)

section \<open>A whole frame\<close>

definition delivered :: "WebsocketData_Type \<Rightarrow> bytes \<Rightarrow> bytes \<Rightarrow> bytes" where
  "delivered ty data xs = (if ty = WDT_PING \<or> ty = WDT_PONG then data else xs @ drop (length xs) data)"

definition answered :: "(nat \<Rightarrow> nat) \<Rightarrow> WebsocketData_Type \<Rightarrow> bytes \<Rightarrow> bytes list" where
  "answered rand ty xs =
     (if ty = WDT_PING then [ws_frame 0x8A (enc_form (length xs)) (enc_key rand True) xs] else [])"

lemma recv_deliver_payload:
  assumes "xs \<noteq> []" "length xs \<le> length data" "sendable xs"
  shows "recv_deliver rand data ty (xs @ tail) (int (length xs))
    = Some (delivered ty data xs, int (length xs), answered rand ty xs)"
  using assms
  by (simp add: recv_deliver_def delivered_def answered_def slice_def memcpy_def put_bytes_def webSocket_send_frame)

lemma head_word:
  assumes "frame_ok form key xs" "F = ws_frame b form key xs"
  shows "length F - length xs = 2 + ext_length form + (if key = None then 0 else 4)" "length xs \<le> length F"
    and "sint (word_of_nat (length F - length xs) :: u32) = int (length F) - int (length xs)"
proof -
  show len: "length F - length xs = 2 + ext_length form + (if key = None then 0 else 4)" "length xs \<le> length F"
    using assms by (auto simp: ws_frame_def length_ws_head frame_ok_def)
  have "length F - length xs \<le> 14"
    unfolding len(1) by (cases form) simp_all
  then have "sint (word_of_nat (length F - length xs) :: u32) = int (length F - length xs)"
    by (intro sint_of_nat) (rule le_less_trans, assumption, simp)
  then show "sint (word_of_nat (length F - length xs) :: u32) = int (length F) - int (length xs)"
    using len(2) by linarith
qed

lemma recv_unpack_whole:
  assumes "package_type b = Some ty" "frame_ok form key xs" "F = ws_frame b form key xs"
    and "length (F @ ys) \<le> dataMaxLen" "dataMaxLen + 128 < 2 ^ 31"
  shows "\<exists>tail. recv_unpack dataMaxLen (F @ ys) pl hl
    = Some (ty, xs @ tail, word_of_nat (length xs), word_of_nat (length F - length xs))"
proof -
  have n: "unat (word_of_nat (length (F @ ys)) :: u32) = length (F @ ys)"
    "unat (word_of_nat (length (F @ ys) + 128) :: u32) = length (F @ ys) + 128"
    using assms(4,5) by (simp_all only: unat_of_nat) simp_all
  show ?thesis
    using dePackage_spec [OF assms(1-3), of "word_of_nat (length (F @ ys))" "word_of_nat (length (F @ ys) + 128)"
        "replicate (length (F @ ys) + 128) 0" "ys @ replicate (dataMaxLen - length (F @ ys)) 0" pl hl]
      head_word(2) [OF assms(2,3)] assms(4,5) n
    by (simp add: recv_unpack_def)
qed

lemma recv_unpack_part:
  assumes "package_type b = Some ty" "frame_ok form key xs" "F = ws_frame b form key xs"
    and "2 + ext_length form \<le> length got" "length got < length F" "got = take (length got) F"
    and "length got \<le> dataMaxLen" "length F + 128 < 2 ^ 31"
  shows "\<exists>package. recv_unpack dataMaxLen got pl hl
    = Some (WDT_ERR, package, word_of_nat (length xs), word_of_nat (length F - length xs))"
proof -
  define h where "h = 2 + ext_length form"
  have h: "h \<le> 10" "unat (word_of_nat h :: u32) = h"
    unfolding h_def by (cases form; simp)+
  have n: "unat (word_of_nat (length got) :: u32) = length got"
    using assms(5,8) by (simp only: unat_of_nat) simp
  have "take h got = take h F"
    using assms(4,6) by (metis h_def min.absorb1 take_take)
  moreover have "take h F = take h (ws_head b form key (length xs))"
    unfolding assms(3) ws_frame_def h_def by (simp add: ws_head_def)
  ultimately have "webSocket_dePackage (got @ replicate (dataMaxLen - length got) 0) (word_of_nat (length got)) pkg m pl hl
    = dePackage_data ty (key \<noteq> None) (got @ replicate (dataMaxLen - length got) 0) (word_of_nat (length got)) pkg m
        (word_of_nat (length xs)) (word_of_nat h)" for pkg m
    using assms(1,2,4) n by (intro dePackage_head) (simp_all add: h_def frame_ok_def)
  moreover have "word_of_nat (length F - length xs) = word_of_nat h + (if key \<noteq> None then 4 else 0 :: u32)"
    unfolding head_word(1) [OF assms(2,3)] h_def by simp
  moreover have "unat (word_of_nat (length got) :: u32) < length xs + unat (word_of_nat h :: u32) + (if key \<noteq> None then 4 else 0)"
    using n h(2) assms(5) head_word(1,2) [OF assms(2,3)] h_def by (auto split: if_splits)
  ultimately show ?thesis
    unfolding recv_unpack_def
    using dePackage_data_short [of "word_of_nat h" "length xs" "word_of_nat (length got)" "key \<noteq> None"] h
      assms(8) head_word(2) [OF assms(2,3)] by simp
qed

lemma recv_frame_at_once:
  assumes ty: "package_type b = Some ty" and ok: "frame_ok form key xs" "xs \<noteq> []" and F: "F = ws_frame b form key xs"
    and size: "dataMaxLen \<le> length data" "dataMaxLen + 128 < 2 ^ 31"
    and call: "recv_call calls 0 dataMaxLen stream = F @ ys"
  shows "webSocket_recv rand calls stream data dataMaxLen
    = Some \<lparr>rr_data = delivered ty data xs, rr_type = ty, rr_ret = int (length xs), rr_sent = answered rand ty xs,
        rr_rest = drop (length (F @ ys)) stream\<rparr>"
proof -
  note head = head_word [OF ok(1) F]
  have len: "length (F @ ys) \<le> dataMaxLen"
    using length_recv_call [of calls 0 dataMaxLen stream] by (simp add: call)
  have l: "sint (word_of_nat (length xs) :: u32) = int (length xs)" "(word_of_nat (length xs) :: u32) \<noteq> 0"
    using sint_of_nat [of "length xs"] ok(2) head(2) len size(2) by auto
  obtain tail where "recv_unpack dataMaxLen (F @ ys) 0 0
      = Some (ty, xs @ tail, word_of_nat (length xs), word_of_nat (length F - length xs))"
    using recv_unpack_whole [OF ty ok(1) F len size(2)] by blast
  moreover have "recv_deliver rand data ty (xs @ tail) (int (length xs))
      = Some (delivered ty data xs, int (length xs), answered rand ty xs)" for tail
    using ok(2) head(2) len size by (intro recv_deliver_payload) (simp_all add: sendable_def)
  moreover have "\<not> int (length xs) > int dataMaxLen" "\<not> int (length F) \<ge> 2 ^ 31" "F \<noteq> []"
    using head(2) len size(2) ok(2) by auto
  ultimately show ?thesis
    by (simp add: webSocket_recv_def Let_def call head(3) l del: of_nat_diff)
qed

text \<open>
  C12: \<open>webSocket_recv\<close> returns the payload of the next frame, if that is not empty, in whatever pieces
  the frame comes after a first call that brings its length field (its first two, four or ten bytes),
  when the pieces keep coming: text and data are in the caller's array, a ping with a payload is
  answered with a masked pong of the same payload.  A first call with less hands over raw bytes
  (\<open>recv_splits_head\<close>), and a ping without payload is not answered (\<open>recv_empty_ping\<close>).
\<close>

theorem recv_frame:
  assumes ty: "package_type b = Some ty" and ok: "frame_ok form key xs" "xs \<noteq> []" and F: "F = ws_frame b form key xs"
    and size: "length F \<le> dataMaxLen" "dataMaxLen \<le> length data" "dataMaxLen + 128 < 2 ^ 31"
    and calls: "2 + ext_length form \<le> fst (calls 0)" "arrives calls"
  shows "\<exists>m \<ge> length F. m \<le> dataMaxLen \<and> webSocket_recv rand calls (F @ rest) data dataMaxLen
    = Some \<lparr>rr_data = delivered ty data xs, rr_type = ty, rr_ret = int (length xs), rr_sent = answered rand ty xs,
        rr_rest = drop m (F @ rest)\<rparr>"
proof -
  define got where "got = recv_call calls 0 dataMaxLen (F @ rest)"
  note head = head_word [OF ok(1) F]
  have "2 + ext_length form \<le> length F"
    using head(1,2) by linarith
  then have got: "got = take (length got) (F @ rest)" "length got \<le> dataMaxLen" "2 + ext_length form \<le> length got"
    using calls(1) size(1) recv_call_take [of calls 0 dataMaxLen "F @ rest"]
    by (simp_all add: got_def length_recv_call del: take_append)
  have l: "sint (word_of_nat (length xs) :: u32) = int (length xs)" "(word_of_nat (length xs) :: u32) \<noteq> 0"
    using sint_of_nat [of "length xs"] ok(2) head(2) size(1,3) by auto
  have target: "sint (word_of_nat (length F - length xs) :: u32) + sint (word_of_nat (length xs) :: u32) = int (length F)"
    using head(3) l(1) by simp
  have deliver: "recv_deliver rand data ty (xs @ tail) (sint (word_of_nat (length xs) :: u32))
      = Some (delivered ty data xs, int (length xs), answered rand ty xs)" for tail
    unfolding l(1) using ok(2) head(2) size by (intro recv_deliver_payload) (simp_all add: sendable_def)
  have bounds: "\<not> sint (word_of_nat (length xs) :: u32) > int dataMaxLen" "\<not> int (length F) \<ge> 2 ^ 31" "got \<noteq> []"
    using l(1) head(2) size(1,3) got(3) by auto
  note res = webSocket_recv_def Let_def got_def [symmetric] head(3)
  show ?thesis
  proof (cases "length got < length F")
    case False
    then obtain ys where ys: "got = F @ ys"
      using got(1) by (metis append_take_drop_id linorder_not_less take_append take_all)
    then show ?thesis
      using recv_frame_at_once [OF ty ok F size(2,3) got_def [symmetric, unfolded ys]] got(2)
      by (intro exI [of _ "length got"]) simp
  next
    case True
    then obtain package where first: "recv_unpack dataMaxLen got 0 0
        = Some (WDT_ERR, package, word_of_nat (length xs), word_of_nat (length F - length xs))"
      using recv_unpack_part [OF ty ok(1) F got(3)] got(1,2) size(1,3) by fastforce
    define rest1 where "rest1 = drop (length got) (F @ rest)"
    have whole: "got @ rest1 = F @ rest"
      using got(1) unfolding rest1_def by (metis append_take_drop_id)
    obtain ok' got' rest' where m: "recv_more calls dataMaxLen (int (length F)) 1 50 got rest1 = (ok', got', rest')"
      by (metis prod_cases3)
    have "length F \<le> length got + length rest1"
      using arg_cong [OF whole, of length] by simp
    moreover have "\<exists>j < 50. 0 < fst (calls (1 + j))"
      using calls(2) unfolding arrives_def by (meson less_trans numeral_less_iff semiring_norm)
    ultimately have "ok'"
      using recv_more_arrives [OF calls(2), of "int (length F)" got rest1 dataMaxLen 50 1] size(1) m by simp
    then have keeps: "got' @ rest' = F @ rest" "length F \<le> length got'" "length got' \<le> dataMaxLen"
      using recv_more_keeps [OF m got(2)] whole by simp_all
    then obtain ys where ys: "got' = F @ ys"
      by (metis append_eq_append_conv_if append_take_drop_id)
    obtain tail where "recv_unpack dataMaxLen got' (word_of_nat (length xs)) (word_of_nat (length F - length xs))
        = Some (ty, xs @ tail, word_of_nat (length xs), word_of_nat (length F - length xs))"
      using recv_unpack_whole [OF ty ok(1) F, of ys dataMaxLen] keeps(3) size(3) unfolding ys by blast
    moreover have "rest' = drop (length got') (F @ rest)"
      using keeps(1) by (metis append_eq_conv_conj)
    ultimately show ?thesis
      using True bounds deliver l first m [unfolded rest1_def] \<open>ok'\<close> keeps
      by (intro exI [of _ "length got'"]) (simp add: res del: of_nat_diff)
  qed
qed

theorem recv_frame_witness:
  "\<exists>m \<ge> length (ws_frame 0x81 Short None [104, 105]). m \<le> 8 \<and>
    webSocket_recv id (\<lambda>i. (2, True)) (ws_frame 0x81 Short None [104, 105] @ []) (replicate 8 0) 8
      = Some \<lparr>rr_data = delivered WDT_TXTDATA (replicate 8 0) [104, 105], rr_type = WDT_TXTDATA,
          rr_ret = int (length [104, 105 :: byte]), rr_sent = answered id WDT_TXTDATA [104, 105],
          rr_rest = drop m (ws_frame 0x81 Short None [104, 105] @ [])\<rparr>"
proof (rule recv_frame [OF _ _ _ refl])
  show "arrives (\<lambda>i. (2, True))"
    by (auto simp: arrives_def intro: exI [of _ 0])
qed (simp_all add: package_type_def Let_def frame_ok_def ws_frame_def ws_head_def)

section \<open>What gets lost\<close>

text \<open>Of what one \<open>recv\<close> brings only the first frame is looked at.\<close>

lemma recv_drops_next:
  assumes "package_type b = Some ty" "frame_ok form key xs" "xs \<noteq> []" "F = ws_frame b form key xs"
    and "dataMaxLen \<le> length data" "dataMaxLen + 128 < 2 ^ 31"
    and "length (F @ next) \<le> dataMaxLen" "length (F @ next) \<le> fst (calls 0)"
  shows "\<exists>r. webSocket_recv rand calls (F @ next) data dataMaxLen = Some r \<and> rr_data r = delivered ty data xs \<and> rr_rest r = []"
  using recv_frame_at_once [OF assms(1-6), where calls = calls and stream = "F @ next" and ys = "next"] assms(7,8) by (simp add: recv_call_def)

text \<open>A frame whose first byte comes alone is handed over as bytes that are no frame, and its rest follows.\<close>

lemma recv_splits_head:
  assumes "fst (calls 0) = 1" "0 < dataMaxLen" "dataMaxLen \<le> length data" "dataMaxLen + 128 < 2 ^ 31"
  shows "\<exists>r. webSocket_recv rand calls (b # s) data dataMaxLen = Some r \<and> rr_ret r = -1 \<and> rr_data r ! 0 = b \<and> rr_rest r = s"
proof -
  have "recv_unpack dataMaxLen [b] 0 0 = Some (WDT_ERR, replicate 129 0, 0, 0)"
    by (simp add: recv_unpack_def webSocket_dePackage_def)
  then show ?thesis
    using assms by (simp add: webSocket_recv_def recv_call_def Let_def recv_raw_safe)
qed

text \<open>A ping without payload is not answered.\<close>

lemma recv_empty_ping:
  assumes "2 \<le> fst (calls 0)" "2 \<le> dataMaxLen" "dataMaxLen \<le> length data" "dataMaxLen + 128 < 2 ^ 31"
  shows "\<exists>r. webSocket_recv rand calls [0x89, 0] data dataMaxLen = Some r \<and> rr_type r = WDT_PING \<and> rr_ret r = 0 \<and> rr_sent r = []"
proof -
  have F: "[0x89, 0] = ws_frame 0x89 Short None []"
    by (simp add: ws_frame_def ws_head_def mask_code_def)
  have "\<exists>tail. recv_unpack dataMaxLen ([0x89, 0] @ []) 0 0
      = Some (WDT_PING, [] @ tail, word_of_nat (length ([] :: bytes)), word_of_nat (length [0x89, 0 :: byte] - length ([] :: bytes)))"
    using assms by (intro recv_unpack_whole [OF _ _ F]) (simp_all add: package_type_def Let_def frame_ok_def)
  then obtain tail where u: "recv_unpack dataMaxLen [0x89, 0] 0 0 = Some (WDT_PING, tail, 0, 2)"
    by auto
  have "recv_call calls 0 dataMaxLen [0x89, 0] = [0x89, 0]"
    using assms(1,2) by (simp add: recv_call_def)
  then show ?thesis
    using u by (simp add: webSocket_recv_def Let_def recv_deliver_def)
qed

end
