(* ===== verification/Server_Frame.thy ===== *)
theory Server_Frame
  imports Ws_Frame
begin

text \<open>
  The server's frame codec: the packet buffer (\<^verbatim>\<open>src/src/packet-buffer.h\<close>), the
  incremental parser \<open>WebSocketData::readAndParsePacket\<close> and the writer
  \<open>WebSocketData::sendResult\<close> (\<^verbatim>\<open>src/src/websocket-data.cc\<close>), with the status codes of
  \<^verbatim>\<open>src/src/dog-status.h\<close>.
\<close>

section \<open>Status codes\<close>

datatype ERROR_TYPE =
  ERROR_NO | ERROR_CLIENT_CLOSE | ERROR_INTERNAL | ERROR_PARSE_DATA | ERROR_READ | ERROR_WRITE
| ERROR_PARSE_HEAD

fun error_code :: "ERROR_TYPE \<Rightarrow> int" where
  "error_code ERROR_NO = 0" | "error_code ERROR_CLIENT_CLOSE = 1" | "error_code ERROR_INTERNAL = 2"
| "error_code ERROR_PARSE_DATA = 3" | "error_code ERROR_READ = 4" | "error_code ERROR_WRITE = 5"
| "error_code ERROR_PARSE_HEAD = 400"

definition WEBSOCKET_APPEND_DATA :: byte where "WEBSOCKET_APPEND_DATA = 0x0"
definition WEBSOCKET_TEXT_DATA :: byte where "WEBSOCKET_TEXT_DATA = 0x1"
definition WEBSOCKET_BINARY_DATA :: byte where "WEBSOCKET_BINARY_DATA = 0x2"
definition WEBSOCKET_CONNECT_CLOSE :: byte where "WEBSOCKET_CONNECT_CLOSE = 0x8"
definition WEBSOCKET_PING_PACK :: byte where "WEBSOCKET_PING_PACK = 0x9"
definition WEBSOCKET_PANG_PACK :: byte where "WEBSOCKET_PANG_PACK = 0xA"

section \<open>The packet buffer\<close>

datatype PacketState = PACKET_INIT | PACKET_HEAD_126 | PACKET_HEAD_127 | PACKET_MASK | PACKET_DATA

text \<open>
  The members carry a prefix: \<open>p_data\<close> is \<open>data_\<close>, the allocated array (\<open>NULL\<close> is the empty one);
  \<open>p_size\<close> is \<open>size_\<close>, what the class takes its size to be; \<open>p_key\<close> is \<open>masking_key_\<close>.
\<close>

record Packet =
  p_data :: bytes
  p_len :: nat
  p_size :: int
  p_fin :: byte
  p_opcode :: byte
  p_mask :: byte
  p_key :: bytes
  p_body_size :: u64
  p_head_size :: nat
  p_state :: PacketState

text \<open>The constructor leaves \<open>p_key\<close> as the storage has it.\<close>

definition new_Packet :: "bytes \<Rightarrow> Packet" where
  "new_Packet stale = \<lparr>p_data = [], p_len = 0, p_size = 0, p_fin = 0, p_opcode = 0, p_mask = 0,
     p_key = stale, p_body_size = 0, p_head_size = 0, p_state = PACKET_INIT\<rparr>"

definition reset :: "Packet \<Rightarrow> Packet" where
  "reset p = p\<lparr>p_len := 0, p_fin := 0, p_opcode := 0, p_mask := 0, p_body_size := 0, p_head_size := 0,
     p_state := PACKET_INIT\<rparr>"

text \<open>\<open>realloc\<close> keeps the old bytes; the new ones are written before they are read, so their
  first content is taken to be zero.\<close>

definition resize :: "int \<Rightarrow> Packet \<Rightarrow> Packet" where
  "resize len p = (if p_size p < len
     then p\<lparr>p_data := p_data p @ replicate (nat len - length (p_data p)) 0, p_size := len\<rparr> else p)"

definition packet_ok :: "Packet \<Rightarrow> bool" where
  "packet_ok p \<longleftrightarrow> p_size p = int (length (p_data p)) \<and> length (p_key p) = 4"

section \<open>The socket\<close>

text \<open>
  What has arrived and not been read, and which of the coming \<open>read\<close> calls fail: each call takes
  one entry of \<open>faults\<close>, and an empty list fails none.
\<close>

record Sock =
  avail :: bytes
  faults :: "bool list"

definition FIONREAD :: "Sock \<Rightarrow> nat" where
  "FIONREAD s = length (avail s)"

definition sock_read :: "nat \<Rightarrow> Sock \<Rightarrow> bytes option \<times> Sock" where
  "sock_read n s = (case faults s of
       True # fs \<Rightarrow> (None, s\<lparr>faults := fs\<rparr>)
     | fs \<Rightarrow> (Some (take n (avail s)), s\<lparr>avail := drop n (avail s), faults := tl fs\<rparr>))"

definition arrive :: "bytes \<Rightarrow> Sock \<Rightarrow> Sock" where
  "arrive xs s = s\<lparr>avail := avail s @ xs\<rparr>"

section \<open>The incremental parser\<close>

text \<open>
  The function is a run of \<open>if (p_state == ...)\<close> blocks, each of which may return.  \<open>Stop\<close> is a
  return with its value and \<open>error_\<close>, \<open>Go\<close> falls through with what is left of \<open>bytes\<close>.
\<close>

datatype stage = Stop int "ERROR_TYPE option" Packet Sock | Go Packet Sock nat

fun and_then :: "stage \<Rightarrow> (Packet \<Rightarrow> Sock \<Rightarrow> nat \<Rightarrow> stage) \<Rightarrow> stage" where
  "and_then (Stop r e p s) f = Stop r e p s"
| "and_then (Go p s bytes) f = f p s bytes"

text \<open>\<open>read(fd_, buf, n)\<close> followed by the test that \<open>n\<close> bytes came.\<close>

definition read_exact ::
  "nat \<Rightarrow> Packet \<Rightarrow> Sock \<Rightarrow> (bytes \<Rightarrow> Sock \<Rightarrow> stage) \<Rightarrow> stage" where
  "read_exact n p s f =
     (case sock_read n s of
        (Some buf, s) \<Rightarrow> if length buf = n then f buf s else Stop (-1) (Some ERROR_READ) p s
      | (None, s) \<Rightarrow> Stop (-1) (Some ERROR_READ) p s)"

definition parse_init :: "Packet \<Rightarrow> Sock \<Rightarrow> nat \<Rightarrow> stage" where
  "parse_init p s bytes =
     (if p_state p = PACKET_INIT then
        let p = reset p in
        if bytes < 2 then Stop 0 None p s
        else read_exact 2 p s (\<lambda>head s.
          let p = p\<lparr>p_head_size := p_head_size p + 2, p_fin := drop_bit 7 (head ! 0),
                p_opcode := head ! 0 AND 0x0f, p_mask := drop_bit 7 (head ! 1),
                p_body_size := ucast (head ! 1 AND 0x7f)\<rparr>;
              p = (if p_body_size p < 126 then p\<lparr>p_state := PACKET_MASK\<rparr>
                   else if p_body_size p = 126 then p\<lparr>p_state := PACKET_HEAD_126\<rparr>
                   else if p_body_size p = 127 then p\<lparr>p_state := PACKET_HEAD_127\<rparr> else p)
          in Go p s (bytes - 2))
      else Go p s bytes)"

definition parse_126 :: "Packet \<Rightarrow> Sock \<Rightarrow> nat \<Rightarrow> stage" where
  "parse_126 p s bytes =
     (if p_state p = PACKET_HEAD_126 then
        if bytes < 2 then Stop 0 None p s
        else read_exact 2 p s (\<lambda>buf s.
          Go (p\<lparr>p_head_size := p_head_size p + 2,
                p_body_size := word_of_nat (unat (buf ! 0) * 256 + unat (buf ! 1)),
                p_state := PACKET_MASK\<rparr>) s (bytes - 2))
      else Go p s bytes)"

definition parse_127 :: "Packet \<Rightarrow> Sock \<Rightarrow> nat \<Rightarrow> stage" where
  "parse_127 p s bytes =
     (if p_state p = PACKET_HEAD_127 then
        if bytes < 8 then Stop 0 None p s
        else read_exact 8 p s (\<lambda>buf s.
          let p = p\<lparr>p_head_size := p_head_size p + 8\<rparr> in
          if buf ! 0 \<noteq> 0 \<and> buf ! 1 \<noteq> 0 \<and> buf ! 2 \<noteq> 0 \<and> buf ! 3 \<noteq> 0
          then Stop (-1) (Some ERROR_PARSE_DATA) p s
          else Go (p\<lparr>p_body_size := word_of_nat
                 (((unat (buf ! 4) * 256 + unat (buf ! 5)) * 256 + unat (buf ! 6)) * 256 + unat (buf ! 7)),
               p_state := PACKET_MASK\<rparr>) s (bytes - 8))
      else Go p s bytes)"

definition parse_mask :: "Packet \<Rightarrow> Sock \<Rightarrow> nat \<Rightarrow> stage" where
  "parse_mask p s bytes =
     (if p_state p = PACKET_MASK then
        if p_mask p \<noteq> 1 then Go (p\<lparr>p_state := PACKET_DATA\<rparr>) s bytes
        else if bytes < 4 then Stop 0 None p s
        else read_exact 4 p s (\<lambda>buf s.
          Go (p\<lparr>p_head_size := p_head_size p + 4, p_key := buf, p_state := PACKET_DATA\<rparr>) s (bytes - 4))
      else Go p s bytes)"

text \<open>
  The last block reads into the array and XORs in place.  \<open>None\<close> is a write outside the array.
\<close>

definition xor_range :: "bytes \<Rightarrow> nat \<Rightarrow> nat \<Rightarrow> bytes \<Rightarrow> bytes option" where
  "xor_range key off n data = do { xs \<leftarrow> slice off n data; put_bytes off (xor_mask off key xs) data }"

definition parse_data :: "Packet \<Rightarrow> Sock \<Rightarrow> nat \<Rightarrow> stage option" where
  "parse_data p s bytes =
     (if p_state p = PACKET_DATA then
        let room = p_body_size p - word_of_nat (p_len p);
            readLen = (if room < word_of_nat bytes then unat room else bytes);
            p = resize (sint (ucast (p_body_size p) :: 32 word)) p;
            (r, s) = sock_read readLen s
        in do {
          data \<leftarrow> (case r of None \<Rightarrow> Some (p_data p) | Some xs \<Rightarrow> put_bytes (p_len p) xs (p_data p));
          data \<leftarrow> xor_range (p_key p) (p_len p) readLen data;
          let p = p\<lparr>p_data := data\<rparr>;
          case r of
            None \<Rightarrow> Some (Stop (-1) (Some ERROR_READ) p s)
          | Some xs \<Rightarrow>
              if length xs \<noteq> readLen then Some (Stop (-1) (Some ERROR_READ) p s)
              else let p = p\<lparr>p_len := p_len p + length xs\<rparr> in
                Some (Stop 0 None (if word_of_nat (p_len p) = p_body_size p
                  then p\<lparr>p_state := PACKET_INIT\<rparr> else p) s) }
      else Some (Stop 0 None p s))"

definition readAndParsePacket :: "Packet \<Rightarrow> Sock \<Rightarrow> (int \<times> ERROR_TYPE option \<times> Packet \<times> Sock) option" where
  "readAndParsePacket p s =
     (case and_then (and_then (and_then (parse_init p s (FIONREAD s)) parse_126) parse_127) parse_mask of
        Stop r e p s \<Rightarrow> Some (r, e, p, s)
      | Go p s bytes \<Rightarrow>
          (case parse_data p s bytes of
             None \<Rightarrow> None
           | Some (Stop r e p s) \<Rightarrow> Some (r, e, p, s)
           | Some (Go p s _) \<Rightarrow> Some (0, None, p, s)))"

section \<open>Sending a result\<close>

text \<open>
  The frame is built in the write packet: \<open>resize\<close>, \<open>memset\<close>, the header bytes, \<open>memcpy\<close>.  \<open>None\<close> is
  a write outside the allocated array.
\<close>

definition sendResult_size :: "nat \<Rightarrow> nat" where
  "sendResult_size len =
     (if len < 126 then len + 2 else if len < 0xFFFF then len + 4 else len + 8)"

definition sendResult_head :: "nat \<Rightarrow> bytes \<Rightarrow> (nat \<times> bytes) option" where
  "sendResult_head len data = do {
     data \<leftarrow> put_byte 0 (push_bit 7 1) data;
     data \<leftarrow> put_byte 0 (data ! 0 OR (0xF AND WEBSOCKET_TEXT_DATA)) data;
     data \<leftarrow> put_byte 1 (push_bit 7 0) data;
     if len < 126 then do {
       data \<leftarrow> put_byte 1 (data ! 1 OR word_of_nat len) data;
       Some (2, data) }
     else if len < 0xFFFF then do {
       data \<leftarrow> put_byte 1 (data ! 1 OR 0x7E) data;
       data \<leftarrow> put_byte 2 (word_of_nat (len div 2 ^ 8)) data;
       data \<leftarrow> put_byte 3 (word_of_nat len) data;
       Some (4, data) }
     else do {
       data \<leftarrow> put_byte 1 (data ! 1 OR 0x7F) data;
       data \<leftarrow> put_byte 1 (data ! 1 OR 0x7F) data;
       data \<leftarrow> put_byte 2 0 data;
       data \<leftarrow> put_byte 3 0 data;
       data \<leftarrow> put_byte 4 0 data;
       data \<leftarrow> put_byte 5 0 data;
       data \<leftarrow> put_byte 6 (word_of_nat (len div 2 ^ 24)) data;
       data \<leftarrow> put_byte 7 (word_of_nat (len div 2 ^ 16)) data;
       data \<leftarrow> put_byte 8 (word_of_nat (len div 2 ^ 8)) data;
       data \<leftarrow> put_byte 9 (word_of_nat len) data;
       Some (10, data) } }"

definition sendResult_packet :: "bytes \<Rightarrow> Packet \<Rightarrow> Packet option" where
  "sendResult_packet result p =
     (let n = length result;
          out_len_tmp = sendResult_size n;
          p = resize (int out_len_tmp) p
      in do {
        data \<leftarrow> put_bytes 0 (replicate out_len_tmp 0) (p_data p);
        (head_length, data) \<leftarrow> sendResult_head n data;
        data \<leftarrow> put_bytes head_length result data;
        Some (p\<lparr>p_data := data, p_len := head_length + n\<rparr>) })"

text \<open>The bytes that \<open>writeData\<close> is then given.\<close>

definition packet_out :: "Packet \<Rightarrow> bytes" where
  "packet_out p = take (p_len p) (p_data p)"

section \<open>What the parser has taken\<close>

definition srv_stream :: "byte \<Rightarrow> len_form \<Rightarrow> bytes \<Rightarrow> bytes \<Rightarrow> bytes \<Rightarrow> bytes" where
  "srv_stream b0 form key xs rest = ws_frame b0 form (Some key) xs @ rest"

definition hdr :: "len_form \<Rightarrow> nat" where
  "hdr form = 2 + ext_length form"

text \<open>\<open>at S c g s\<close>: of the stream \<open>S\<close>, \<open>g\<close> bytes have arrived and \<open>c\<close> have been read.\<close>

definition at :: "bytes \<Rightarrow> nat \<Rightarrow> nat \<Rightarrow> Sock \<Rightarrow> bool" where
  "at S c g s \<longleftrightarrow> avail s = drop c (take g S) \<and> faults s = [] \<and> c \<le> g \<and> g \<le> length S"

lemma at_FIONREAD: "at S c g s \<Longrightarrow> FIONREAD s = g - c"
  by (simp add: at_def FIONREAD_def)

lemma at_sock_read:
  assumes "at S c g s" "c + k \<le> g"
  obtains s' where "sock_read k s = (Some (take k (drop c S)), s')" "at S (c + k) g s'"
proof
  show "sock_read k s = (Some (take k (drop c S)), s\<lparr>avail := drop (c + k) (take g S)\<rparr>)"
    using assms by (simp add: sock_read_def at_def take_drop min_def add.commute)
  show "at S (c + k) g (s\<lparr>avail := drop (c + k) (take g S)\<rparr>)"
    using assms by (simp add: at_def)
qed

lemma at_read_exact:
  assumes "at S c g s" "c + k \<le> g"
  obtains s' where "read_exact k p s f = f (take k (drop c S)) s'" "at S (c + k) g s'"
proof -
  obtain s' where "sock_read k s = (Some (take k (drop c S)), s')" "at S (c + k) g s'"
    using assms by (rule at_sock_read)
  then show thesis
    using assms by (intro that [of s']) (auto simp: read_exact_def at_def min_def)
qed

lemma at_arrive:
  assumes "at S c g s" "g \<le> g'" "g' \<le> length S"
  shows "at S c g' (arrive (drop g (take g' S)) s)"
proof -
  have "take g' S = take g S @ drop g (take g' S)"
    using append_take_drop_id [of g "take g' S"] assms(2) by (simp add: min_absorb1)
  then have "drop c (take g' S) = drop c (take g S) @ drop g (take g' S)"
    using assms(1,3) by (metis at_def drop_append length_take min.absorb2 diff_is_0_eq drop0)
  then show ?thesis
    using assms by (simp add: at_def arrive_def)
qed

text \<open>The fields of the packet once the stage is past the length, past the key, and at the end.\<close>

definition head_read :: "byte \<Rightarrow> Packet \<Rightarrow> bool" where
  "head_read b0 p \<longleftrightarrow> p_fin p = drop_bit 7 b0 \<and> p_opcode p = b0 AND 0x0f \<and> p_mask p = 1"

definition parsing :: "byte \<Rightarrow> len_form \<Rightarrow> bytes \<Rightarrow> bytes \<Rightarrow> bytes \<Rightarrow> nat \<Rightarrow> Packet \<Rightarrow> Sock \<Rightarrow> bool" where
  "parsing b0 form key xs rest g p s \<longleftrightarrow> packet_ok p \<and>
     (let S = srv_stream b0 form key xs rest; h = hdr form; n = length xs in
      if g < 2 then p_state p = PACKET_INIT \<and> at S 0 g s
      else head_read b0 p \<and>
       (if g < h then p_state p = (if form = Medium then PACKET_HEAD_126 else PACKET_HEAD_127)
          \<and> p_len p = 0 \<and> at S 2 g s
        else p_body_size p = word_of_nat n \<and>
         (if g < h + 4 then p_state p = PACKET_MASK \<and> p_len p = 0 \<and> at S h g s
          else p_key p = key \<and> p_len p = min (g - (h + 4)) n \<and> n \<le> length (p_data p) \<and>
            take (p_len p) (p_data p) = take (p_len p) xs \<and>
            p_state p = (if p_len p = n then PACKET_INIT else PACKET_DATA) \<and>
            at S (h + 4 + p_len p) g s)))"

definition run :: "stage \<Rightarrow> (int \<times> ERROR_TYPE option \<times> Packet \<times> Sock) option" where
  "run st = (case st of
        Stop r e p s \<Rightarrow> Some (r, e, p, s)
      | Go p s bytes \<Rightarrow>
          (case parse_data p s bytes of
             None \<Rightarrow> None
           | Some (Stop r e p s) \<Rightarrow> Some (r, e, p, s)
           | Some (Go p s _) \<Rightarrow> Some (0, None, p, s)))"

lemma run_and_then: "run (and_then st f) = (case st of Stop r e p s \<Rightarrow> Some (r, e, p, s) | Go p s b \<Rightarrow> run (f p s b))"
  by (cases st) (simp_all add: run_def)

lemma readAndParsePacket_run: "readAndParsePacket p s =
  run (and_then (and_then (and_then (parse_init p s (FIONREAD s)) parse_126) parse_127) parse_mask)"
  by (simp add: readAndParsePacket_def run_def)

definition parsed :: "byte \<Rightarrow> len_form \<Rightarrow> bytes \<Rightarrow> bytes \<Rightarrow> bytes \<Rightarrow> nat \<Rightarrow>
    (int \<times> ERROR_TYPE option \<times> Packet \<times> Sock) option \<Rightarrow> bool" where
  "parsed b0 form key xs rest g r \<longleftrightarrow>
     (\<exists>p s. r = Some (0, None, p, s) \<and> parsing b0 form key xs rest g p s)"

section \<open>The stages\<close>

lemma xor_range_spec:
  "off + n \<le> length data \<Longrightarrow> xor_range key off n data =
    Some (take off data @ xor_mask off key (take n (drop off data)) @ drop (off + n) data)"
  by (simp add: xor_range_def slice_def put_bytes_def)

lemma resize_ok: "packet_ok p \<Longrightarrow> packet_ok (resize len p)"
  by (auto simp: packet_ok_def resize_def)

lemma resize_room: "packet_ok p \<Longrightarrow> nat len \<le> length (p_data (resize len p))"
  by (auto simp: packet_ok_def resize_def)

lemma resize_same [simp]:
  "p_len (resize len p) = p_len p" "p_key (resize len p) = p_key p" "p_body_size (resize len p) = p_body_size p"
  "p_state (resize len p) = p_state p" "p_fin (resize len p) = p_fin p" "p_opcode (resize len p) = p_opcode p"
  "p_mask (resize len p) = p_mask p" "packet_ok p \<Longrightarrow> k \<le> length (p_data p) \<Longrightarrow> take k (p_data (resize len p)) = take k (p_data p)"
  by (simp_all add: resize_def)

lemma body_int:
  assumes "n < 2 ^ 31"
  shows "sint (ucast (word_of_nat n :: u64) :: 32 word) = int n" "unat (word_of_nat n :: u64) = n"
proof -
  show u: "unat (word_of_nat n :: u64) = n"
    using assms by (simp add: unat_of_nat take_bit_nat_eq_self)
  have w: "(ucast (word_of_nat n :: u64) :: 32 word) = word_of_nat n"
    using u by (metis of_nat_unat)
  show "sint (ucast (word_of_nat n :: u64) :: 32 word) = int n"
    unfolding w using assms
    by (simp add: sint_uint unsigned_of_nat take_bit_nat_eq_self signed_take_bit_int_eq_self)
qed

lemma parse_data_spec:
  assumes p: "packet_ok p" "p_state p = PACKET_DATA" "p_body_size p = word_of_nat n" "p_len p = k"
    and n: "n < 2 ^ 31" "k \<le> n" "k \<le> length (p_data p)" "bytes < 2 ^ 31"
    and s: "sock_read (min (n - k) bytes) s = (Some ys, s')" "length ys = min (n - k) bytes"
  obtains p' where "parse_data p s bytes = Some (Stop 0 None p' s')" "packet_ok p'"
    "n \<le> length (p_data p')" "p_len p' = k + length ys"
    "take (p_len p') (p_data p') = take k (p_data p) @ xor_mask k (p_key p) ys"
    "p_state p' = (if p_len p' = n then PACKET_INIT else PACKET_DATA)"
    "p_fin p' = p_fin p" "p_opcode p' = p_opcode p" "p_mask p' = p_mask p" "p_key p' = p_key p"
    "p_body_size p' = p_body_size p"
proof -
  define m where "m = min (n - k) bytes"
  note s = s [folded m_def]
  define p1 where "p1 = resize (int n) p"
  define D where "D = take k (p_data p1) @ xor_mask k (p_key p) ys @ drop (k + length ys) (p_data p1)"
  define p2 where "p2 = p1\<lparr>p_data := D, p_len := k + length ys\<rparr>"
  have room: "n \<le> length (p_data p1)" "packet_ok p1"
    using resize_room [OF p(1), of "int n"] resize_ok [OF p(1)] by (simp_all add: p1_def)
  have fit: "k + length ys \<le> n"
    using s(2) n(2) by (simp add: m_def)
  have "(word_of_nat n - word_of_nat k :: u64) = word_of_nat (n - k)"
    using n(2) by (simp add: of_nat_diff)
  then have readLen: "(if word_of_nat n - word_of_nat k < (word_of_nat bytes :: u64)
      then unat (word_of_nat n - word_of_nat k :: u64) else bytes) = m"
    using body_int(2) [of "n - k"] body_int(2) [of bytes] n by (simp add: word_less_nat_alt min_def m_def)
  have "put_bytes k ys (p_data p1) = Some (take k (p_data p1) @ ys @ drop (k + length ys) (p_data p1))"
    using fit room by (simp add: put_bytes_def)
  moreover have "xor_range (p_key p) k (length ys) (take k (p_data p1) @ ys @ drop (k + length ys) (p_data p1)) = Some D"
    using fit room by (subst xor_range_spec) (simp_all add: D_def)
  moreover have "(word_of_nat (k + length ys) :: u64) = word_of_nat n \<longleftrightarrow> k + length ys = n"
    using body_int(2) [of "k + length ys"] body_int(2) [of n] fit n(1) by (metis order_le_less_trans)
  ultimately have "parse_data p s bytes = Some (Stop 0 None
      (if k + length ys = n then p2\<lparr>p_state := PACKET_INIT\<rparr> else p2) s')"
    using p s readLen body_int(1) [OF n(1)]
    by (simp add: parse_data_def Let_def p2_def p1_def del: of_nat_add)
  moreover have "length D = length (p_data p1)"
    using fit room by (simp add: D_def)
  moreover have "take (k + length ys) D = take k (p_data p) @ xor_mask k (p_key p) ys"
    using fit room n(3) p(1) by (simp add: D_def p1_def)
  ultimately show thesis
    using room p(2) s(2)
    by (intro that [of "if k + length ys = n then p2\<lparr>p_state := PACKET_INIT\<rparr> else p2"])
      (auto simp: p2_def p1_def packet_ok_def)
qed

lemma length_head: "length key = 4 \<Longrightarrow> length (ws_head b0 form (Some key) n) = hdr form + 4"
  by (simp add: length_ws_head hdr_def)

lemma unmask_part:
  assumes "length key = 4" "m \<le> length xs - k" "k \<le> length xs"
  shows "xor_mask k key (take m (drop (hdr form + 4 + k) (srv_stream b0 form key xs rest))) = take m (drop k xs)"
proof -
  have "xor_mask 0 key xs = xor_mask 0 key (take k xs) @ xor_mask k key (drop k xs)"
    using xor_mask_append [of 0 key "take k xs" "drop k xs"] assms(3) by simp
  moreover have "xor_mask k key (drop k xs) = xor_mask k key (take m (drop k xs)) @ xor_mask (k + m) key (drop m (drop k xs))"
    using xor_mask_append [of k key "take m (drop k xs)" "drop m (drop k xs)"] assms(2)
    unfolding append_take_drop_id by simp
  ultimately have "take m (drop k (xor_mask 0 key xs)) = xor_mask k key (take m (drop k xs))"
    using assms(2,3) by simp
  moreover have "drop (hdr form + 4 + k) (srv_stream b0 form key xs rest) = drop k (xor_mask 0 key xs @ rest)"
    by (simp add: srv_stream_def ws_frame_def length_head [OF assms(1)])
  ultimately show ?thesis
    using assms(2,3) by simp
qed

text \<open>From the data block on: what has come of the payload is taken, unmasked.\<close>

lemma run_data:
  assumes ok: "length key = 4" "n = length xs" "n < 2 ^ 31" and S: "S = srv_stream b0 form key xs rest"
    and p: "packet_ok p" "p_state p = PACKET_DATA" "p_body_size p = word_of_nat n" "p_key p = key"
      "head_read b0 p" "p_len p = k" "k \<le> n" "k \<le> length (p_data p)" "take k (p_data p) = take k xs"
    and s: "at S (hdr form + 4 + k) g s" "g < 2 ^ 31"
  shows "parsed b0 form key xs rest g (run (Go p s (FIONREAD s)))"
proof -
  define m where "m = min (n - k) (FIONREAD s)"
  define ys where "ys = take m (drop (hdr form + 4 + k) S)"
  have g: "hdr form + 4 + k \<le> g" "g \<le> length S" "FIONREAD s = g - (hdr form + 4 + k)"
    using s(1) by (simp_all add: at_def FIONREAD_def)
  obtain s' where s': "sock_read m s = (Some ys, s')" "at S (hdr form + 4 + k + m) g s'"
  proof (rule at_sock_read [OF s(1), of m])
    show "hdr form + 4 + k + m \<le> g"
      using g by (simp add: m_def)
  qed (simp add: ys_def)
  have ys: "length ys = m" "xor_mask k key ys = take m (drop k xs)"
    using g ok p(7) unmask_part [of key m xs k form b0 rest] by (simp_all add: ys_def S m_def)
  obtain p' where p': "parse_data p s (FIONREAD s) = Some (Stop 0 None p' s')" "packet_ok p'"
    "n \<le> length (p_data p')" "p_len p' = k + length ys"
    "take (p_len p') (p_data p') = take k (p_data p) @ xor_mask k (p_key p) ys"
    "p_state p' = (if p_len p' = n then PACKET_INIT else PACKET_DATA)"
    "p_fin p' = p_fin p" "p_opcode p' = p_opcode p" "p_mask p' = p_mask p" "p_key p' = p_key p"
    "p_body_size p' = p_body_size p"
    by (rule parse_data_spec [OF p(1-3,6) ok(3) p(7,8) _ s'(1) [unfolded m_def] ys(1) [unfolded m_def]])
      (use g s(2) in auto)
  have "k + m = min (g - (hdr form + 4)) n"
    using g p(7) by (simp add: m_def)
  moreover have "take k xs @ take m (drop k xs) = take (k + m) xs"
    by (simp add: take_add)
  ultimately have "parsing b0 form key xs rest g p' s'"
    using p' p ok ys s'(2) g(1) S by (simp add: parsing_def Let_def head_read_def add.assoc)
  then show ?thesis
    using p'(1) by (simp add: parsed_def run_def)
qed

lemma stream_parts:
  assumes "length key = 4"
  shows "take 2 (drop 0 (srv_stream b0 form key xs rest)) = [b0, mask_code (Some key) (form_code form (length xs))]"
    and "take (ext_length form) (drop 2 (srv_stream b0 form key xs rest)) = form_ext form (length xs)"
    and "take 4 (drop (hdr form) (srv_stream b0 form key xs rest)) = key"
    and "hdr form + 4 + length xs \<le> length (srv_stream b0 form key xs rest)"
  using assms by (simp_all add: srv_stream_def ws_frame_def ws_head_def hdr_def)

lemma run_mask:
  assumes ok: "length key = 4" "n = length xs" "n < 2 ^ 31" and S: "S = srv_stream b0 form key xs rest"
    and p: "packet_ok p" "p_state p = PACKET_MASK" "p_body_size p = word_of_nat n"
      "head_read b0 p" "p_len p = 0"
    and s: "at S (hdr form) g s" "g < 2 ^ 31"
  shows "parsed b0 form key xs rest g (run (parse_mask p s (FIONREAD s)))"
proof (cases "g < hdr form + 4")
  case True
  then have "g - hdr form < 4"
    by linarith
  then have "parse_mask p s (FIONREAD s) = Stop 0 None p s"
    using p s by (simp add: parse_mask_def head_read_def at_FIONREAD)
  moreover have "parsing b0 form key xs rest g p s"
    using True p s ok S by (simp add: parsing_def Let_def at_def) (simp add: hdr_def)
  ultimately show ?thesis
    by (simp add: parsed_def run_def)
next
  case False
  let ?p = "p\<lparr>p_head_size := p_head_size p + 4, p_key := key, p_state := PACKET_DATA\<rparr>"
  obtain s' where s': "parse_mask p s (FIONREAD s) = Go ?p s' (FIONREAD s')" "at S (hdr form + 4) g s'"
  proof (rule at_read_exact [OF s(1), of 4])
    show "hdr form + 4 \<le> g"
      using False by simp
  next
    fix s' assume "read_exact 4 p s (\<lambda>buf s'. Go (p\<lparr>p_head_size := p_head_size p + 4, p_key := buf,
          p_state := PACKET_DATA\<rparr>) s' (FIONREAD s - 4))
      = Go (p\<lparr>p_head_size := p_head_size p + 4, p_key := take 4 (drop (hdr form) S),
          p_state := PACKET_DATA\<rparr>) s' (FIONREAD s - 4)" "at S (hdr form + 4) g s'"
    then show thesis
      using False p s stream_parts(3) [OF ok(1)]
      by (intro that [of s']) (simp_all add: parse_mask_def head_read_def at_FIONREAD S)
  qed
  have "parsed b0 form key xs rest g (run (Go ?p s' (FIONREAD s')))"
    using p ok(1) s'(2) s(2) by (intro run_data [OF ok S, where k = 0]) (simp_all add: packet_ok_def head_read_def)
  with s'(1) show ?thesis
    by simp
qed

lemma long_value:
  assumes "n < 2 ^ 32"
  shows "((unat (be32 (word_of_nat n) ! 0) * 256 + unat (be32 (word_of_nat n) ! 1)) * 256
      + unat (be32 (word_of_nat n) ! 2)) * 256 + unat (be32 (word_of_nat n) ! 3) = n"
  using assms be32_nat [of "word_of_nat n"] by (simp add: unat_of_nat take_bit_nat_eq_self)

lemma parsing_waits:
  assumes "length key = 4" "S = srv_stream b0 form key xs rest" "packet_ok p" "head_read b0 p" "p_len p = 0"
    "p_state p = (if form = Medium then PACKET_HEAD_126 else PACKET_HEAD_127)" "at S 2 g s" "g < hdr form"
  shows "parsed b0 form key xs rest g (Some (0, None, p, s))"
  using assms by (simp add: parsed_def parsing_def Let_def at_def)

lemma length_step:
  assumes ok: "length key = 4" "n = length xs" "n < 2 ^ 31" "form_ok form n" and S: "S = srv_stream b0 form key xs rest"
    and p: "packet_ok p" "head_read b0 p" "p_len p = 0"
      "p_state p = (case form of Short \<Rightarrow> PACKET_MASK | Medium \<Rightarrow> PACKET_HEAD_126 | Long \<Rightarrow> PACKET_HEAD_127)"
      "form = Short \<Longrightarrow> p_body_size p = word_of_nat n"
    and s: "at S 2 g s" "g < 2 ^ 31"
  shows "parsed b0 form key xs rest g
    (run (and_then (and_then (parse_126 p s (FIONREAD s)) parse_127) parse_mask))"
proof (cases form)
  case Short
  then have "and_then (and_then (parse_126 p s (FIONREAD s)) parse_127) parse_mask = parse_mask p s (FIONREAD s)"
    using p by (simp add: parse_126_def parse_127_def)
  moreover have "parsed b0 form key xs rest g (run (parse_mask p s (FIONREAD s)))"
    using Short p s by (intro run_mask [OF ok(1-3) S]) (simp_all add: hdr_def)
  ultimately show ?thesis
    by simp
next
  case Medium
  then have h: "hdr form = 4" "parse_127 p' s' b = Go p' s' b" if "p_state p' = PACKET_MASK" for p' s' b
    using that by (simp_all add: hdr_def parse_127_def)
  show ?thesis
  proof (cases "g < 4")
    case True
    then have "g - 2 < 2"
      by linarith
    then have "parse_126 p s (FIONREAD s) = Stop 0 None p s"
      using Medium p s by (simp add: parse_126_def at_FIONREAD)
    then show ?thesis
      using parsing_waits [OF ok(1) S p(1-3) _ s(1)] Medium p(4) True by (simp add: run_def hdr_def)
  next
    case False
    let ?p = "p\<lparr>p_head_size := p_head_size p + 2, p_body_size := word_of_nat n, p_state := PACKET_MASK\<rparr>"
    have ext: "take 2 (drop 2 S) = be16 n"
      using stream_parts(2) [OF ok(1), of form b0 xs rest] Medium ok(2) by (simp add: S)
    have val: "unat (be16 n ! 0) * 256 + unat (be16 n ! 1) = n"
      using be16_value [of n] Medium ok(4) by (simp add: be16_def)
    have "\<not> g - 2 < 2"
      using False by linarith
    note wait = this
    obtain s' where s': "parse_126 p s (FIONREAD s) = Go ?p s' (FIONREAD s')" "at S (hdr form) g s'"
    proof (rule at_read_exact [OF s(1), of 2])
      show "2 + 2 \<le> g"
        using False by simp
    next
      let ?f = "\<lambda>buf s'. Go (p\<lparr>p_head_size := p_head_size p + 2, p_body_size := word_of_nat
          (unat (buf ! 0) * 256 + unat (buf ! 1)), p_state := PACKET_MASK\<rparr>) s' (FIONREAD s - 2)"
      fix s' assume "read_exact 2 p s ?f = ?f (take 2 (drop 2 S)) s'" "at S (2 + 2) g s'"
      then show thesis
        using p(4) s Medium wait unfolding ext val
        by (intro that [of s']) (simp_all add: parse_126_def at_FIONREAD hdr_def)
    qed
    have "parsed b0 form key xs rest g (run (parse_mask ?p s' (FIONREAD s')))"
      using p s'(2) s(2) by (intro run_mask [OF ok(1-3) S]) (simp_all add: packet_ok_def head_read_def)
    with s'(1) show ?thesis
      by (simp add: parse_127_def)
  qed
next
  case Long
  show ?thesis
  proof (cases "g < 10")
    case True
    then have "g - 2 < 8"
      by linarith
    then have "and_then (parse_126 p s (FIONREAD s)) parse_127 = Stop 0 None p s"
      using Long p s by (simp add: parse_126_def parse_127_def at_FIONREAD)
    then show ?thesis
      using parsing_waits [OF ok(1) S p(1-3) _ s(1)] Long p(4) True by (simp add: run_def hdr_def)
  next
    case False
    let ?p = "p\<lparr>p_head_size := p_head_size p + 8, p_body_size := word_of_nat n, p_state := PACKET_MASK\<rparr>"
    have ext: "take 8 (drop 2 S) = [0, 0, 0, 0] @ be32 (word_of_nat n)"
      using stream_parts(2) [OF ok(1), of form b0 xs rest] Long ok(2) by (simp add: S)
    obtain s' where s': "parse_127 p s (FIONREAD s) = Go ?p s' (FIONREAD s')" "at S (hdr form) g s'"
    proof (rule at_read_exact [OF s(1), of 8])
      show "2 + 8 \<le> g"
        using False by simp
    next
      let ?f = "\<lambda>buf s'. let p = p\<lparr>p_head_size := p_head_size p + 8\<rparr> in
          if buf ! 0 \<noteq> 0 \<and> buf ! 1 \<noteq> 0 \<and> buf ! 2 \<noteq> 0 \<and> buf ! 3 \<noteq> 0
          then Stop (-1) (Some ERROR_PARSE_DATA) p s'
          else Go (p\<lparr>p_body_size := word_of_nat
                 (((unat (buf ! 4) * 256 + unat (buf ! 5)) * 256 + unat (buf ! 6)) * 256 + unat (buf ! 7)),
               p_state := PACKET_MASK\<rparr>) s' (FIONREAD s - 8)"
      fix s' assume *: "read_exact 8 p s ?f = ?f (take 8 (drop 2 S)) s'" "at S (2 + 8) g s'"
      have wait: "\<not> FIONREAD s < 8"
        using at_FIONREAD [OF s(1)] False by linarith
      let ?buf = "[0, 0, 0, 0] @ be32 (word_of_nat n)"
      have v: "((unat (?buf ! 4) * 256 + unat (?buf ! 5)) * 256 + unat (?buf ! 6)) * 256 + unat (?buf ! 7) = n"
        using long_value [of n] ok(3) by simp
      have "?f ?buf s' = Go ?p s' (FIONREAD s - 8)"
        by (simp only: v Let_def) simp
      moreover have "parse_127 p s (FIONREAD s) = read_exact 8 p s ?f"
        using wait p(4) Long by (simp add: parse_127_def)
      ultimately show thesis
        using * s Long by (intro that [of s']) (simp_all add: at_FIONREAD hdr_def ext)
    qed
    have "parsed b0 form key xs rest g (run (parse_mask ?p s' (FIONREAD s')))"
      using p s'(2) s(2) by (intro run_mask [OF ok(1-3) S]) (simp_all add: packet_ok_def head_read_def)
    with s'(1) show ?thesis
      using p(4) Long by (simp add: parse_126_def)
  qed
qed

lemma drop_bit_7: "drop_bit 7 c = (if bit c 7 then 1 else 0)" for c :: byte
  by (rule byte_bits_eqI; simp add: bit_simps byte_bit_beyond)

lemma short_cast: "n < 126 \<Longrightarrow> ucast (word_of_nat n :: byte) = (word_of_nat n :: u64)"
  by (simp add: word_unat_eq_iff unat_of_nat unsigned_ucast_eq take_bit_nat_eq_self)

lemma step_init:
  assumes ok: "length key = 4" "n = length xs" "n < 2 ^ 31" "form_ok form n" and S: "S = srv_stream b0 form key xs rest"
    and p: "packet_ok p" "p_state p = PACKET_INIT" and s: "at S 0 g s" "g < 2 ^ 31"
  shows "parsed b0 form key xs rest g (readAndParsePacket p s)"
proof (cases "g < 2")
  case True
  then have "parse_init p s (FIONREAD s) = Stop 0 None (reset p) s"
    using p s by (simp add: parse_init_def at_FIONREAD)
  moreover have "parsing b0 form key xs rest g (reset p) s"
    using True p s S by (simp add: parsing_def Let_def reset_def packet_ok_def)
  ultimately show ?thesis
    by (simp add: readAndParsePacket_run parsed_def run_def)
next
  case False
  define c where "c = mask_code (Some key) (form_code form n)"
  have c: "drop_bit 7 c = 1" "c AND 0x7F = form_code form n"
    using mask_code_bits [OF form_code_less [OF ok(4)], of "Some key"] and_80 [of c]
    by (simp_all add: c_def drop_bit_7)
  define p1 where "p1 = (reset p)\<lparr>p_head_size := 2, p_fin := drop_bit 7 b0, p_opcode := b0 AND 0x0f,
    p_mask := 1, p_body_size := ucast (form_code form n), p_state := (case form of Short \<Rightarrow> PACKET_MASK
      | Medium \<Rightarrow> PACKET_HEAD_126 | Long \<Rightarrow> PACKET_HEAD_127)\<rparr>"
  obtain s' where s': "parse_init p s (FIONREAD s) = Go p1 s' (FIONREAD s')" "at S 2 g s'"
  proof (rule at_read_exact [OF s(1), of 2])
    show "0 + 2 \<le> g"
      using False by simp
  next
    let ?f = "\<lambda>head s'. let q = (reset p)\<lparr>p_head_size := p_head_size (reset p) + 2, p_fin := drop_bit 7 (head ! 0),
                p_opcode := head ! 0 AND 0x0f, p_mask := drop_bit 7 (head ! 1),
                p_body_size := ucast (head ! 1 AND 0x7f)\<rparr>;
              q = (if p_body_size q < 126 then q\<lparr>p_state := PACKET_MASK\<rparr>
                   else if p_body_size q = 126 then q\<lparr>p_state := PACKET_HEAD_126\<rparr>
                   else if p_body_size q = 127 then q\<lparr>p_state := PACKET_HEAD_127\<rparr> else q)
          in Go q s' (FIONREAD s - 2)"
    fix s' assume *: "read_exact 2 (reset p) s ?f = ?f (take 2 (drop 0 S)) s'" "at S (0 + 2) g s'"
    have "take 2 (drop 0 S) = [b0, c]"
      using stream_parts(1) [OF ok(1)] by (simp add: S c_def ok(2))
    moreover have "?f [b0, c] s' = Go p1 s' (FIONREAD s - 2)"
      using c short_cast [of n] ok(4) by (cases form) (simp_all add: p1_def reset_def word_less_nat_alt unat_of_nat take_bit_nat_eq_self)
    moreover have "parse_init p s (FIONREAD s) = read_exact 2 (reset p) s ?f"
      using False p(2) s by (simp add: parse_init_def at_FIONREAD Let_def)
    moreover have "at S 2 g s'"
      using *(2) by (simp only: add_0)
    ultimately show thesis
      using *(1) s by (intro that [of s']) (simp_all add: at_FIONREAD)
  qed
  have "parsed b0 form key xs rest g
    (run (and_then (and_then (parse_126 p1 s' (FIONREAD s')) parse_127) parse_mask))"
    using s(2) s'(2) p(1) ok(4)
    by (intro length_step [OF ok S])
      (auto simp: p1_def reset_def packet_ok_def head_read_def short_cast)
  with s'(1) show ?thesis
    by (simp add: readAndParsePacket_run)
qed

lemma parse_step:
  assumes ok: "length key = 4" "length xs < 2 ^ 31" "form_ok form (length xs)"
    and S: "S = srv_stream b0 form key xs rest"
    and p: "parsing b0 form key xs rest g p s" "g < length (ws_frame b0 form (Some key) xs)"
    and g': "g \<le> g'" "g' \<le> length S" "g' < 2 ^ 31"
  shows "parsed b0 form key xs rest g' (readAndParsePacket p (arrive (drop g (take g' S)) s))"
proof -
  define s1 where "s1 = arrive (drop g (take g' S)) s"
  have arr: "at S c g' s1" if "at S c g s" for c
    using at_arrive [OF that g'(1,2)] by (simp add: s1_def)
  have skip: "readAndParsePacket p s1 = run (and_then (and_then (parse_126 p s1 (FIONREAD s1)) parse_127) parse_mask)"
    if "p_state p \<noteq> PACKET_INIT"
    using that by (simp add: readAndParsePacket_run parse_init_def)
  note P = p(1) [unfolded parsing_def Let_def, folded S]
  consider "g < 2" | "2 \<le> g" "g < hdr form" | "hdr form \<le> g" "g < hdr form + 4" | "hdr form + 4 \<le> g"
    by linarith
  then have "parsed b0 form key xs rest g' (readAndParsePacket p s1)"
  proof cases
    case 1
    with P show ?thesis
      by (intro step_init [OF ok(1) refl ok(2,3) S _ _ arr g'(3)]) simp_all
  next
    case 2
    then have "form \<noteq> Short"
      by (auto simp: hdr_def)
    with P 2 have "parsed b0 form key xs rest g'
        (run (and_then (and_then (parse_126 p s1 (FIONREAD s1)) parse_127) parse_mask))"
      by (intro length_step [OF ok(1) refl ok(2,3) S _ _ _ _ _ arr g'(3)]) (auto split: len_form.split)
    with P 2 show ?thesis
      by (subst skip) (auto split: if_splits)
  next
    case 3
    then have "2 \<le> g"
      by (simp add: hdr_def)
    with P 3 have m: "p_state p = PACKET_MASK" "parsed b0 form key xs rest g' (run (parse_mask p s1 (FIONREAD s1)))"
      by (auto intro!: run_mask [OF ok(1) refl ok(2) S _ _ _ _ _ arr g'(3)])
    then show ?thesis
      by (subst skip) (simp_all add: parse_126_def parse_127_def)
  next
    case 4
    then have big: "\<not> g < 2" "\<not> g < hdr form" "\<not> g < hdr form + 4"
      by (simp_all add: hdr_def)
    note P = P [simplified big if_False]
    have k: "hdr form + 4 + p_len p = g" "p_len p < length xs"
      using P 4 p(2) ok(1) by (auto simp: ws_frame_def length_head)
    have m: "p_state p = PACKET_DATA"
      using P k by simp
    moreover have "parsed b0 form key xs rest g' (run (Go p s1 (FIONREAD s1)))"
      by (rule run_data [OF ok(1) refl ok(2) S _ m _ _ _ refl _ _ _ arr g'(3)]) (use P k in auto)
    ultimately show ?thesis
      by (subst skip) (simp_all add: parse_126_def parse_127_def parse_mask_def)
  qed
  then show ?thesis
    by (simp add: s1_def)
qed

section \<open>A frame in any pieces\<close>

text \<open>One call of the parser for each piece that arrives, as one readiness event brings it.\<close>

fun feed :: "bytes list \<Rightarrow> Packet \<Rightarrow> Sock \<Rightarrow> (int \<times> ERROR_TYPE option \<times> Packet \<times> Sock) option" where
  "feed [] p s = Some (0, None, p, s)"
| "feed (c # cs) p s = do {
     (r, e, p, s) \<leftarrow> readAndParsePacket p (arrive c s);
     if r = 0 then feed cs p s else Some (r, e, p, s) }"

definition payload :: "Packet \<Rightarrow> bytes" where
  "payload p = take (p_len p) (p_data p)"

lemma take_piece:
  assumes "drop g S = d @ e" "g \<le> length S"
  shows "drop g (take (g + length d) S) = d" "g + length d \<le> length S" "drop (g + length d) S = e"
proof -
  obtain T where "S = T @ d @ e" "length T = g"
    using assms append_take_drop_id [of g S] by (metis length_take min.absorb2)
  then show "drop g (take (g + length d) S) = d" "g + length d \<le> length S" "drop (g + length d) S = e"
    by simp_all
qed

lemma frame_in_stream: "length (ws_frame b0 form (Some key) xs) \<le> length (srv_stream b0 form key xs rest)"
  by (simp add: srv_stream_def)

lemma feed_step:
  assumes ok: "length key = 4" "length xs < 2 ^ 31" "form_ok form (length xs)"
    and S: "S = srv_stream b0 form key xs rest" "length S < 2 ^ 31"
    and p: "parsing b0 form key xs rest g p s"
    and cs: "drop g S = concat cs @ c @ rem" "g + length (concat cs) < length (ws_frame b0 form (Some key) xs)"
  shows "parsed b0 form key xs rest (g + length (concat cs) + length c) (feed (cs @ [c]) p s)"
  using p cs
proof (induction cs arbitrary: g p s)
  case Nil
  then have g: "g \<le> length S"
    using frame_in_stream [of b0 form key xs rest] S(1) by simp
  have "drop g S = c @ rem"
    using Nil.prems(2) by simp
  note piece = take_piece [OF this g]
  have "parsed b0 form key xs rest (g + length c) (readAndParsePacket p (arrive c s))"
    using parse_step [OF ok S(1) Nil.prems(1), of "g + length c"] Nil.prems(3) S(2) piece by simp
  then show ?case
    by (auto simp: parsed_def)
next
  case (Cons d cs)
  then have g: "g \<le> length S"
    using frame_in_stream [of b0 form key xs rest] S(1) by simp
  have "drop g S = d @ concat cs @ c @ rem"
    using Cons.prems(2) by simp
  note piece = take_piece [OF this g]
  have "parsed b0 form key xs rest (g + length d) (readAndParsePacket p (arrive d s))"
    using parse_step [OF ok S(1) Cons.prems(1), of "g + length d"] Cons.prems(3) S(2) piece by simp
  then obtain p' s' where p': "readAndParsePacket p (arrive d s) = Some (0, None, p', s')"
      "parsing b0 form key xs rest (g + length d) p' s'"
    by (auto simp: parsed_def)
  have "parsed b0 form key xs rest (g + length d + length (concat cs) + length c) (feed (cs @ [c]) p' s')"
    using Cons.prems(3) by (intro Cons.IH [OF p'(2) piece(3)]) simp
  then show ?case
    using p'(1) by (simp add: add.assoc)
qed

lemma parsing_start: "packet_ok p \<Longrightarrow> p_state p = PACKET_INIT \<Longrightarrow> avail s = [] \<Longrightarrow> faults s = [] \<Longrightarrow>
    parsing b0 form key xs rest 0 p s"
  by (simp add: parsing_def Let_def at_def)

lemma parsing_done:
  assumes "length key = 4" "parsing b0 form key xs rest g p s" "length (ws_frame b0 form (Some key) xs) \<le> g"
  shows "p_state p = PACKET_INIT" "payload p = xs" "p_len p = length xs"
    "p_fin p = drop_bit 7 b0" "p_opcode p = b0 AND 0x0f" "packet_ok p" "faults s = []"
    "avail s = drop (length (ws_frame b0 form (Some key) xs)) (take g (srv_stream b0 form key xs rest))"
proof -
  have g: "hdr form + 4 + length xs \<le> g" "length (ws_frame b0 form (Some key) xs) = hdr form + 4 + length xs"
    using assms(1,3) by (simp_all add: ws_frame_def length_head)
  then have big: "\<not> g < 2" "\<not> g < hdr form" "\<not> g < hdr form + 4"
    by (simp_all add: hdr_def)
  note P = assms(2) [unfolded parsing_def Let_def, simplified big if_False]
  have "p_len p = length xs"
    using P g(1) by simp
  then show "p_state p = PACKET_INIT" "payload p = xs" "p_len p = length xs"
    "p_fin p = drop_bit 7 b0" "p_opcode p = b0 AND 0x0f" "packet_ok p" "faults s = []"
    "avail s = drop (length (ws_frame b0 form (Some key) xs)) (take g (srv_stream b0 form key xs rest))"
    using P by (auto simp: payload_def head_read_def at_def g(2))
qed

text \<open>However the bytes of a masked frame are cut, the last piece completes the same packet.\<close>

lemma feed_frame:
  assumes ok: "length key = 4" "frame_ok form (Some key) xs" "length (concat cs @ c @ rest) < 2 ^ 31"
    and p: "packet_ok p" "p_state p = PACKET_INIT" "avail s = []" "faults s = []"
    and cs: "concat cs @ c @ rest = ws_frame b0 form (Some key) xs @ rem"
      "length (concat cs) < length (ws_frame b0 form (Some key) xs)"
      "length (ws_frame b0 form (Some key) xs) \<le> length (concat cs @ c)"
  obtains p' s' where "feed (cs @ [c]) p s = Some (0, None, p', s')" "p_state p' = PACKET_INIT" "payload p' = xs"
    "p_len p' = length xs" "p_fin p' = drop_bit 7 b0" "p_opcode p' = b0 AND 0x0f" "packet_ok p'" "faults s' = []"
    "ws_frame b0 form (Some key) xs @ avail s' = concat cs @ c"
proof -
  let ?F = "ws_frame b0 form (Some key) xs"
  have S: "srv_stream b0 form key xs rem = concat cs @ c @ rest"
    using cs(1) by (simp add: srv_stream_def)
  have "length xs \<le> length ?F"
    by (simp add: ws_frame_def)
  also have "length ?F \<le> length (concat cs @ c @ rest)"
    unfolding cs(1) by simp
  finally have n: "length xs < 2 ^ 31" "form_ok form (length xs)"
    using ok by (simp_all add: frame_ok_def)
  have "parsed b0 form key xs rem (0 + length (concat cs) + length c) (feed (cs @ [c]) p s)"
    using cs(2) ok(3) S by (intro feed_step [OF ok(1) n refl _ parsing_start [OF p]]) simp_all
  then obtain p' s' where p': "feed (cs @ [c]) p s = Some (0, None, p', s')"
      "parsing b0 form key xs rem (length (concat cs) + length c) p' s'"
    by (auto simp: parsed_def)
  have g: "length ?F \<le> length (concat cs) + length c"
    using cs(3) by simp
  note end_ = parsing_done [OF ok(1) p'(2) g]
  have "take (length (concat cs) + length c) (srv_stream b0 form key xs rem) = concat cs @ c"
    unfolding S by simp
  then have "avail s' = drop (length ?F) (concat cs @ c)"
    using end_(8) by simp
  moreover have "take (length ?F) (concat cs @ c) = ?F"
    using arg_cong [OF cs(1), of "take (length ?F)"] cs(3) by simp
  ultimately have "?F @ avail s' = concat cs @ c"
    by (metis append_take_drop_id)
  from that [OF p'(1) end_(1-7) this] show thesis .
qed

section \<open>The server as a receiver and a sender of frames\<close>

text \<open>
  One call on a stream that holds at least a header: the first byte as the packet keeps it (the
  reserved bits are not kept), the payload and what is left.
\<close>

definition srv_recv :: "bytes \<Rightarrow> bytes \<Rightarrow> (byte \<times> bytes \<times> bytes) option" where
  "srv_recv stale data =
     (if length data < 2 then None
      else do {
        (r, e, p, s) \<leftarrow> readAndParsePacket (new_Packet stale) \<lparr>avail = data, faults = []\<rparr>;
        if r = 0 \<and> p_state p = PACKET_INIT
        then Some (push_bit 7 (p_fin p) OR p_opcode p, payload p, avail s) else None })"

lemma first_byte_back: "b AND 0x70 = 0 \<Longrightarrow> push_bit 7 (drop_bit 7 b) OR (b AND 0x0f) = b" for b :: byte
proof -
  assume "b AND 0x70 = 0"
  then have "bit (b AND 0x70) 4 = False" "bit (b AND 0x70) 5 = False" "bit (b AND 0x70) 6 = False"
    by simp_all
  then show ?thesis
    by (intro byte_bits_eqI; simp add: bit_simps bit_numeral_rec byte_bit_beyond)
qed

lemma srv_recv_frame:
  assumes "b AND 0x70 = 0" "key = Some k" "frame_ok form key xs" "length stale = 4"
    and "length (ws_frame b form key xs @ rest) < 2 ^ 31"
  shows "srv_recv stale (ws_frame b form key xs @ rest) = Some (b, xs, rest)"
proof -
  have k: "length k = 4"
    using assms(2,3) by (simp add: frame_ok_def)
  have F: "2 \<le> length (ws_frame b form (Some k) xs)" "0 < length (ws_frame b form (Some k) xs)"
    using k by (simp_all add: ws_frame_def length_head hdr_def)
  have new: "packet_ok (new_Packet stale)" "p_state (new_Packet stale) = PACKET_INIT"
    using assms(4) by (simp_all add: new_Packet_def packet_ok_def)
  obtain p' s' where "feed ([] @ [ws_frame b form (Some k) xs @ rest]) (new_Packet stale) \<lparr>avail = [], faults = []\<rparr>
      = Some (0, None, p', s')" "p_state p' = PACKET_INIT" "payload p' = xs"
      "p_len p' = length xs" "p_fin p' = drop_bit 7 b" "p_opcode p' = b AND 0x0f" "packet_ok p'" "faults s' = []"
      "ws_frame b form (Some k) xs @ avail s' = concat [] @ ws_frame b form (Some k) xs @ rest"
    by (rule feed_frame [OF k assms(3) [unfolded assms(2)] _ new, where cs = "[]" and rest = "[]" and rem = rest
          and c = "ws_frame b form (Some k) xs @ rest" and s = "\<lparr>avail = [], faults = []\<rparr>" and ?b0.0 = b])
      (use assms(2,5) F in simp_all)
  moreover from this obtain e where "readAndParsePacket (new_Packet stale)
      \<lparr>avail = ws_frame b form (Some k) xs @ rest, faults = []\<rparr> = Some (0, e, p', s')"
    by (auto simp: arrive_def bind_eq_Some_conv split: if_splits)
  ultimately show ?thesis
    using F(1) first_byte_back [OF assms(1)] assms(2) by (simp add: srv_recv_def)
qed

interpretation srv_in: frame_receiver "srv_recv [0, 0, 0, 0]" "\<lambda>b key xs. b AND 0x70 = 0 \<and> key \<noteq> None" "2 ^ 31"
  by unfold_locales (use srv_recv_frame in auto)

text \<open>The header of a result goes into an array that holds the whole frame.\<close>

lemma sendResult_head_short:
  "n < 126 \<Longrightarrow> sendResult_head n (x # y # data) = Some (2, 0x81 # word_of_nat n # data)"
  by (simp add: sendResult_head_def WEBSOCKET_TEXT_DATA_def)

lemma sendResult_head_medium:
  "126 \<le> n \<Longrightarrow> n < 65535 \<Longrightarrow> sendResult_head n (x # y # z # w # data) = Some (4, [0x81, 126] @ be16 n @ data)"
  by (simp add: sendResult_head_def WEBSOCKET_TEXT_DATA_def be16_def)

lemma sendResult_frame:
  assumes "packet_ok p" "length result < 65535"
  obtains p' where "sendResult_packet result p = Some p'" "packet_ok p'"
    "packet_out p' = ws_frame 0x81 (if length result < 126 then Short else Medium) None result"
proof -
  define n where "n = length result"
  define p1 where "p1 = resize (int (sendResult_size n)) p"
  define D where "D = drop (sendResult_size n) (p_data p1)"
  have room: "sendResult_size n \<le> length (p_data p1)" "packet_ok p1"
    using resize_room [OF assms(1), of "int (sendResult_size n)"] resize_ok [OF assms(1)] by (simp_all add: p1_def)
  have zero: "put_bytes 0 (replicate (sendResult_size n) 0) (p_data p1) = Some (replicate (sendResult_size n) 0 @ D)"
    using room by (simp add: put_bytes_def D_def)
  show thesis
  proof (cases "n < 126")
    case True
    then have size: "sendResult_size n = n + 2"
      by (simp add: sendResult_size_def)
    have "sendResult_head n (replicate (n + 2) 0 @ D) = Some (2, [0x81, word_of_nat n] @ replicate n 0 @ D)"
      using True by (simp add: sendResult_head_short)
    moreover have "put_bytes 2 result ([0x81, word_of_nat n] @ replicate n 0 @ D) = Some ([0x81, word_of_nat n] @ result @ D)"
      by (rule put_bytes_at) (simp_all add: n_def)
    ultimately have *: "sendResult_packet result p
        = Some (p1\<lparr>p_data := [0x81, word_of_nat n] @ result @ D, p_len := 2 + n\<rparr>)"
      using zero unfolding size by (simp add: sendResult_packet_def Let_def size p1_def [unfolded size] flip: n_def)
    show thesis
      by (rule that [OF *], use True room size in
        \<open>simp_all add: packet_ok_def packet_out_def ws_frame_def ws_head_def mask_code_def n_def D_def\<close>)
  next
    case False
    then have size: "sendResult_size n = n + 4"
      using assms(2) by (simp add: sendResult_size_def n_def)
    have "sendResult_head n (replicate (n + 4) 0 @ D) = Some (4, ([0x81, 126] @ be16 n) @ replicate n 0 @ D)"
      using False assms(2) by (simp add: sendResult_head_medium plus_small n_def)
    moreover have "put_bytes 4 result (([0x81, 126] @ be16 n) @ replicate n 0 @ D) = Some (([0x81, 126] @ be16 n) @ result @ D)"
      by (rule put_bytes_at) (simp_all add: n_def be16_def)
    ultimately have *: "sendResult_packet result p
        = Some (p1\<lparr>p_data := ([0x81, 126] @ be16 n) @ result @ D, p_len := 4 + n\<rparr>)"
      using zero unfolding size by (simp add: sendResult_packet_def Let_def size p1_def [unfolded size] flip: n_def)
    have "take (4 + n) (a # b # c # d # ys) = a # b # c # d # take n ys" for a b c d and ys :: bytes
      by (simp add: add.commute plus_small)
    then show thesis
      by (intro that [OF *], use False room size in
        \<open>simp_all add: packet_ok_def packet_out_def ws_frame_def ws_head_def mask_code_def n_def D_def be16_def\<close>)
  qed
qed

text \<open>From 65535 bytes on the header takes ten bytes, but room is made for eight.\<close>

lemma sendResult_head_long:
  "sendResult_head n data = Some (h, data') \<Longrightarrow> 65535 \<le> n \<Longrightarrow> h = 10 \<and> length data' = length data"
  by (auto simp: sendResult_head_def put_byte_def bind_eq_Some_conv split: if_splits)

lemma sendResult_overrun_lemma:
  assumes "packet_ok p" "65535 \<le> length result" "p_size p < int (length result) + 10"
  shows "sendResult_packet result p = None"
proof -
  have size: "sendResult_size (length result) = length result + 8"
    using assms(2) by (simp add: sendResult_size_def)
  have "length (p_data (resize (int (length result) + 8) p)) < length result + 10"
    using assms(1,3) by (auto simp: resize_def packet_ok_def)
  note short = this
  have len: "length ys' = length ys" if "put_bytes 0 zs ys = Some ys'" for zs ys ys' :: bytes
    using that by (auto simp: put_bytes_def split: if_splits)
  show ?thesis
  proof (cases "put_bytes 0 (replicate (length result + 8) 0) (p_data (resize (int (length result) + 8) p))")
    case None
    then show ?thesis
      by (simp add: sendResult_packet_def size add.commute)
  next
    case (Some d)
    show ?thesis
    proof (cases "sendResult_head (length result) d")
      case None
      with Some show ?thesis
        by (simp add: sendResult_packet_def size add.commute)
    next
      case (Some r)
      then obtain d' where r: "r = (10, d')" "length d' = length d"
        using sendResult_head_long [OF _ assms(2)] by (cases r) blast
      then have "put_bytes 10 result d' = None"
        using short len [OF \<open>put_bytes 0 _ _ = Some d\<close>] by (simp add: put_bytes_def)
      with Some r \<open>put_bytes 0 _ _ = Some d\<close> show ?thesis
        by (simp add: sendResult_packet_def size add.commute)
    qed
  qed
qed

interpretation srv_out: frame_sender
  "\<lambda>b xs. if b = 0x81 then map_option packet_out (sendResult_packet xs (new_Packet [0, 0, 0, 0])) else None"
  "\<lambda>b xs. b = 0x81 \<and> length xs < 65535" False
proof
  fix b :: byte and xs :: bytes
  assume a: "b = 0x81 \<and> length xs < 65535"
  obtain p' where "sendResult_packet xs (new_Packet [0, 0, 0, 0]) = Some p'"
    "packet_out p' = ws_frame 0x81 (if length xs < 126 then Short else Medium) None xs"
    by (rule sendResult_frame [of "new_Packet [0, 0, 0, 0]" xs]) (use a in \<open>simp_all add: new_Packet_def packet_ok_def\<close>)
  then show "\<exists>form key. frame_ok form key xs \<and> (key \<noteq> None \<longleftrightarrow> False) \<and>
      (if b = 0x81 then map_option packet_out (sendResult_packet xs (new_Packet [0, 0, 0, 0])) else None)
        = Some (ws_frame b form key xs)"
    using a by (intro exI [of _ "if length xs < 126 then Short else Medium"] exI [of _ None]) (simp add: frame_ok_def)
qed

section \<open>Properties\<close>

text \<open>
  C10: however a masked frame is cut into pieces, one call of \<open>readAndParsePacket\<close> for each piece
  ends, on the piece that completes the frame, with the unmasked payload, the opcode and the final
  bit in the packet, and leaves the bytes after the frame in the socket.
\<close>

theorem server_parses_pieces:
  assumes "length key = 4" "frame_ok form (Some key) xs" "length (concat cs @ c) < 2 ^ 31"
    and "packet_ok p" "p_state p = PACKET_INIT" "avail s = []" "faults s = []"
    and "concat cs @ c = ws_frame b0 form (Some key) xs @ rest"
    and "length (concat cs) < length (ws_frame b0 form (Some key) xs)"
  shows "\<exists>p' s'. feed (cs @ [c]) p s = Some (0, None, p', s') \<and> p_state p' = PACKET_INIT \<and>
    payload p' = xs \<and> p_fin p' = drop_bit 7 b0 \<and> p_opcode p' = b0 AND 0x0f \<and> packet_ok p' \<and>
    avail s' = rest"
proof -
  obtain p' s' where "feed (cs @ [c]) p s = Some (0, None, p', s')" "p_state p' = PACKET_INIT" "payload p' = xs"
      "p_len p' = length xs" "p_fin p' = drop_bit 7 b0" "p_opcode p' = b0 AND 0x0f" "packet_ok p'" "faults s' = []"
      "ws_frame b0 form (Some key) xs @ avail s' = concat cs @ c"
    by (rule feed_frame [OF assms(1,2) _ assms(4-7), where cs = cs and c = c and rest = "[]" and ?b0.0 = b0 and rem = rest])
      (use assms(3,8,9) in simp_all)
  with assms(8) show ?thesis
    by auto
qed

theorem server_parses_pieces_witness:
  "\<exists>p' s'. feed ([[0x81], [0x83, 1, 2]] @ [[3, 4, 96, 99, 96, 7]]) (new_Packet [0, 0, 0, 0]) \<lparr>avail = [], faults = []\<rparr>
     = Some (0, None, p', s') \<and> p_state p' = PACKET_INIT \<and> payload p' = [97, 97, 99] \<and>
     p_fin p' = drop_bit 7 0x81 \<and> p_opcode p' = 0x81 AND 0x0f \<and> packet_ok p' \<and> avail s' = [7]"
  by (rule server_parses_pieces [where key = "[1, 2, 3, 4]" and form = Short])
    (simp_all add: frame_ok_def new_Packet_def packet_ok_def ws_frame_def ws_head_def mask_code_def xor_mask_def upt_rec)

text \<open>
  C14: a result of less than 65535 bytes leaves as one final, unmasked text frame, whatever the write
  packet held before.
\<close>

theorem server_result_is_frame:
  assumes "packet_ok p" "length result < 65535"
  shows "map_option packet_out (sendResult_packet result p)
    = Some (ws_frame 0x81 (if length result < 126 then Short else Medium) None result)"
  by (rule sendResult_frame [OF assms]) simp

theorem server_result_is_frame_witness:
  "map_option packet_out (sendResult_packet [111, 107] (new_Packet [0, 0, 0, 0]))
    = Some (ws_frame 0x81 Short None [111, 107])"
  using server_result_is_frame [of "new_Packet [0, 0, 0, 0]" "[111, 107]"]
  by (simp add: new_Packet_def packet_ok_def)

text \<open>
  C15: for a result of 65535 bytes or more \<open>sendResult\<close> reserves two bytes too few: unless an earlier
  packet was larger, it writes past the end of the allocated array.
\<close>

theorem server_result_overrun:
  assumes "packet_ok p" "65535 \<le> length result" "p_size p < int (length result) + 10"
  shows "sendResult_packet result p = None"
  using assms by (rule sendResult_overrun_lemma)

theorem server_result_overrun_witness:
  "sendResult_packet (replicate 65535 0) (new_Packet [0, 0, 0, 0]) = None"
  by (rule server_result_overrun) (simp_all add: new_Packet_def packet_ok_def)

end
