(* ===== verification/Http_Head.thy ===== *)
theory Http_Head
  imports Prelude
begin

text \<open>
  \<open>WebSocketData::parseHead\<close> of \<^verbatim>\<open>src/src/websocket-data.cc\<close>: the request head of the
  WebSocket handshake, line by line into the map \<open>headers_\<close>.  An index outside a
  \<open>std::string\<close> is \<open>None\<close>.
\<close>

section \<open>The library calls\<close>

text \<open>\<open>s[s.size() - k]\<close>; the unsigned subtraction wraps when \<open>k\<close> is larger than the size.\<close>

definition get_back :: "bytes \<Rightarrow> nat \<Rightarrow> byte option" where
  "get_back s k = (if k \<le> length s then get s (length s - k) else None)"

text \<open>\<open>std::getline\<close> fails at the end of the stream; it takes the line break off but not into the line.\<close>

definition getline :: "bytes \<Rightarrow> (bytes \<times> bytes) option" where
  "getline s = (if s = [] then None
     else Some (takeWhile (\<lambda>b. b \<noteq> LF) s, drop 1 (dropWhile (\<lambda>b. b \<noteq> LF) s)))"

lemma getline_shorter: "getline s = Some (line, s') \<Longrightarrow> length s' < length s"
  using length_dropWhile_le [of "\<lambda>b. b \<noteq> LF" s] by (cases s) (auto simp: getline_def split: if_splits)

text \<open>\<open>header.find(": ", 0)\<close>.\<close>

fun find_sep :: "bytes \<Rightarrow> nat option" where
  "find_sep (a # b # s) = (if a = 58 \<and> b = 32 then Some 0 else map_option Suc (find_sep (b # s)))"
| "find_sep _ = None"

type_synonym headers = "bytes \<Rightarrow> bytes option"

section \<open>The parser\<close>

text \<open>The loop over the header lines; each pass takes at least one byte off the stream.\<close>

definition take_header :: "bytes \<Rightarrow> headers \<Rightarrow> headers" where
  "take_header header hs =
     (case find_sep header of
        None \<Rightarrow> hs
      | Some end_ \<Rightarrow> hs(take end_ header \<mapsto> drop (end_ + 2) header))"

function parse_lines :: "bytes \<Rightarrow> headers \<Rightarrow> headers option" where
  "parse_lines s hs =
     (case getline s of
        None \<Rightarrow> Some hs
      | Some (header, s') \<Rightarrow>
          if header = [CR] then Some hs
          else (case get_back header 1 of
              None \<Rightarrow> None
            | Some c \<Rightarrow> if c \<noteq> CR then parse_lines s' hs
                else parse_lines s' (take_header (butlast header) hs)))"
  by pat_completeness auto
termination
  by (relation "measure (\<lambda>(s, hs). length s)") (auto dest: getline_shorter)

declare parse_lines.simps [simp del]

text \<open>The result is 0 with the new map, or -1 with \<open>error_ = ERROR_PARSE_HEAD\<close>, as \<open>Inl\<close>.\<close>

datatype head_error = Head_incomplete | Request_line_tail

definition head_ends :: "bytes \<Rightarrow> bool option" where
  "head_ends head = do {
     c1 \<leftarrow> get_back head 1;
     if c1 \<noteq> LF then Some False else do {
       c2 \<leftarrow> get_back head 2;
       if c2 \<noteq> CR then Some False else do {
         c3 \<leftarrow> get_back head 3;
         if c3 \<noteq> LF then Some False else do {
           c4 \<leftarrow> get_back head 4;
           Some (c4 = CR) } } } }"

definition parseHead :: "bytes \<Rightarrow> headers \<Rightarrow> (head_error + headers) option" where
  "parseHead head hs = do {
     isReachHeadTail \<leftarrow> head_ends head;
     if \<not> isReachHeadTail then Some (Inl Head_incomplete)
     else case getline head of
       None \<Rightarrow> Some (Inl Request_line_tail)
     | Some (request, s) \<Rightarrow> do {
         c \<leftarrow> get_back request 1;
         if c = CR then do { hs \<leftarrow> parse_lines s hs; Some (Inr hs) }
         else Some (Inl Request_line_tail) } }"

section \<open>Lines\<close>

abbreviation CRLF :: bytes where "CRLF \<equiv> [CR, LF]"

lemma getline_line: "LF \<notin> set xs \<Longrightarrow> getline (xs @ LF # rest) = Some (xs, rest)"
  by (simp add: getline_def takeWhile_append dropWhile_append)

lemma get_back_snoc [simp]: "get_back (xs @ [c]) 1 = Some c" "get_back (xs @ [c]) (Suc 0) = Some c"
  by (simp_all add: get_back_def nth_append)

lemma find_sep_first:
  assumes "find_sep k = None"
  shows "find_sep (k @ 58 # 32 # v) = Some (length k)"
  using assms
  by (induction k rule: find_sep.induct) (auto split: if_splits)

text \<open>A header line as clients write it.\<close>

definition header_line :: "bytes \<times> bytes \<Rightarrow> bytes" where
  "header_line kv = fst kv @ [58, 32] @ snd kv @ CRLF"

definition header_ok :: "bytes \<times> bytes \<Rightarrow> bool" where
  "header_ok kv \<longleftrightarrow> find_sep (fst kv) = None \<and> LF \<notin> set (fst kv) \<and> LF \<notin> set (snd kv)"

lemma parse_line:
  assumes "header_ok kv"
  shows "parse_lines (header_line kv @ s) hs = parse_lines s (hs(fst kv \<mapsto> snd kv))"
proof -
  obtain k v where kv: "kv = (k, v)"
    by fastforce
  have "getline ((k @ [58, 32] @ v @ [CR]) @ LF # s) = Some (k @ [58, 32] @ v @ [CR], s)"
    using assms by (intro getline_line) (auto simp: header_ok_def kv)
  moreover have "k @ [58, 32] @ v @ [CR] \<noteq> [CR]"
    by (cases k) auto
  moreover have "get_back (k @ [58, 32] @ v @ [CR]) 1 = Some CR"
    using get_back_snoc(1) [of "k @ [58, 32] @ v" CR] by simp
  moreover have "take_header (k @ [58, 32] @ v) hs = hs(k \<mapsto> v)"
    using assms find_sep_first [of k v] by (simp add: take_header_def header_ok_def kv)
  moreover have "butlast (k @ [58, 32] @ v @ [CR]) = k @ [58, 32] @ v"
    by (simp add: butlast_append)
  ultimately show ?thesis
    by (subst parse_lines.simps) (simp add: header_line_def kv)
qed

lemma parse_blank: "parse_lines (CRLF @ s) hs = Some hs"
  by (subst parse_lines.simps) (simp add: getline_def)

definition set_headers :: "(bytes \<times> bytes) list \<Rightarrow> headers \<Rightarrow> headers" where
  "set_headers kvs hs = fold (\<lambda>kv hs. hs(fst kv \<mapsto> snd kv)) kvs hs"

lemma parse_headers:
  "list_all header_ok kvs \<Longrightarrow>
   parse_lines (concat (map header_line kvs) @ CRLF @ s) hs = Some (set_headers kvs hs)"
  by (induction kvs arbitrary: hs)
    (simp_all add: parse_line parse_blank [simplified] set_headers_def)

lemma set_headers_other: "k \<notin> fst ` set kvs \<Longrightarrow> set_headers kvs hs k = hs k"
  by (induction kvs arbitrary: hs) (auto simp: set_headers_def)

text \<open>A whole head, its request line first.\<close>

lemma head_ends_blank: "head_ends (xs @ CRLF @ CRLF) = Some True"
  by (simp add: head_ends_def get_back_def nth_append get_def numeral_eq_Suc)

lemma parseHead_request:
  assumes "LF \<notin> set line" "list_all header_ok kvs"
  shows "parseHead (line @ CRLF @ concat (map header_line kvs) @ CRLF) hs = Some (Inr (set_headers kvs hs))"
proof -
  have "head_ends (line @ CRLF @ concat (map header_line kvs) @ CRLF) = Some True"
  proof (cases kvs rule: rev_cases)
    case Nil
    then show ?thesis
      using head_ends_blank [of line] by simp
  next
    case (snoc kvs' kv)
    then show ?thesis
      using head_ends_blank [of "line @ CRLF @ concat (map header_line kvs') @ fst kv @ [58, 32] @ snd kv"]
      by (simp add: header_line_def)
  qed
  moreover have "getline ((line @ [CR]) @ LF # concat (map header_line kvs) @ CRLF)
      = Some (line @ [CR], concat (map header_line kvs) @ CRLF)"
    using assms(1) by (intro getline_line) simp
  moreover have "parse_lines (concat (map header_line kvs) @ CRLF) hs = Some (set_headers kvs hs)"
    using parse_headers [OF assms(2), of "[]" hs] by simp
  ultimately show ?thesis
    using get_back_snoc(1) [of line CR] by (simp add: parseHead_def)
qed

section \<open>Heads that are cut short or malformed\<close>

lemma head_ends_iff:
  assumes "4 \<le> length head"
  shows "head_ends head = Some (drop (length head - 4) head = CRLF @ CRLF)"
proof -
  have "length (drop (length head - 4) head) = 4"
    using assms by simp
  then obtain a b c d where "drop (length head - 4) head = [a, b, c, d]"
    using list_4 by blast
  moreover have "head = take (length head - 4) head @ drop (length head - 4) head"
    by simp
  ultimately obtain xs where "head = xs @ [a, b, c, d]" "drop (length head - 4) head = [a, b, c, d]"
    by metis
  then show ?thesis
    by (auto simp: head_ends_def get_back_def nth_append numeral_eq_Suc)
qed

lemma head_ends_short:
  assumes "length head < 4"
  shows "head_ends head = None \<longleftrightarrow> head \<in> {[], [LF], CRLF, [LF, CR, LF]}"
proof -
  consider "head = []" | a where "head = [a]" | a b where "head = [a, b]" | a b c where "head = [a, b, c]"
    by (rule list_3_cases [of head]) (use assms in auto)
  then show ?thesis
    by cases (auto simp: head_ends_def get_back_def numeral_eq_Suc)
qed

text \<open>A line break that ends an empty line.\<close>

definition bare_break :: "bytes \<Rightarrow> bool" where
  "bare_break s \<longleftrightarrow> (\<exists>ys. s = LF # ys) \<or> (\<exists>xs ys. s = xs @ [LF, LF] @ ys)"

lemma getline_bare:
  assumes "\<not> bare_break s" "getline s = Some (line, s')"
  shows "line \<noteq> []" "\<not> bare_break s'"
proof -
  have line: "line = takeWhile (\<lambda>b. b \<noteq> LF) s" and rest: "s' = drop 1 (dropWhile (\<lambda>b. b \<noteq> LF) s)" and "s \<noteq> []"
    using assms(2) by (auto simp: getline_def split: if_splits)
  then show "line \<noteq> []"
    using assms(1) by (cases s) (auto simp: bare_break_def)
  show "\<not> bare_break s'"
  proof (cases "dropWhile (\<lambda>b. b \<noteq> LF) s")
    case Nil
    then have "s' = []"
      by (simp add: rest del: dropWhile_eq_Nil_conv)
    then show ?thesis
      by (simp add: bare_break_def)
  next
    case (Cons b ys)
    then have "s = line @ LF # s'"
      using takeWhile_dropWhile_id [of "\<lambda>b. b \<noteq> LF" s] hd_dropWhile [of "\<lambda>b. b \<noteq> LF" s]
      by (simp add: line rest)
    with assms(1) show ?thesis
      unfolding bare_break_def by (metis append_Cons append_Nil append_assoc)
  qed
qed

lemma parse_lines_safe: "\<not> bare_break s \<Longrightarrow> parse_lines s hs \<noteq> None"
proof (induction s hs rule: parse_lines.induct)
  case (1 s hs)
  show ?case
  proof (cases "getline s")
    case None
    then show ?thesis
      by (subst parse_lines.simps) simp
  next
    case (Some r)
    then obtain line s' where r: "getline s = Some (line, s')"
      by (cases r) simp
    note b = getline_bare [OF 1(3) r]
    have "get_back line 1 \<noteq> None"
      using b(1) by (cases line) (simp_all add: get_back_def)
    then obtain c where c: "get_back line 1 = Some c"
      by blast
    show ?thesis
      using 1(1) [OF r refl _ c] 1(2) [OF r refl _ c] b(2)
      by (subst parse_lines.simps) (simp add: r c [simplified])
  qed
qed

lemma parseHead_safe_lemma:
  assumes "4 \<le> length head" "\<not> bare_break head"
  shows "parseHead head hs \<noteq> None"
proof (cases "getline head")
  case None
  then show ?thesis
    by (simp add: parseHead_def head_ends_iff [OF assms(1)])
next
  case (Some r)
  then obtain line s where r: "getline head = Some (line, s)"
    by (cases r) simp
  note b = getline_bare [OF assms(2) r]
  have "get_back line 1 \<noteq> None"
    using b(1) by (cases line) (simp_all add: get_back_def)
  then show ?thesis
    using parse_lines_safe [OF b(2), of hs] by (auto simp: parseHead_def head_ends_iff [OF assms(1)] r)
qed

section \<open>Properties\<close>

text \<open>
  A request head of a request line, header lines of a key, a colon with a blank, and a value,
  and the blank line is accepted, and the map then holds exactly what the lines say, later lines
  over earlier ones.
\<close>

theorem parseHead_takes_headers:
  assumes "LF \<notin> set line" "list_all header_ok kvs"
  shows "parseHead (line @ CRLF @ concat (map header_line kvs) @ CRLF) hs = Some (Inr (set_headers kvs hs))"
  by (rule parseHead_request [OF assms])

theorem parseHead_takes_headers_witness:
  "parseHead ([71] @ CRLF @ concat (map header_line [([75], [86])]) @ CRLF) Map.empty
     = Some (Inr [[75] \<mapsto> [86]])"
  using parseHead_takes_headers [of "[71]" "[([75], [86])]" Map.empty]
  by (simp add: header_ok_def set_headers_def)

text \<open>
  C22: on a head of four bytes or more with no empty line broken by a bare LF, no index the parser
  uses is outside its string, whatever else the peer sends.
\<close>

theorem parseHead_safe:
  assumes "4 \<le> length head" "\<not> bare_break head"
  shows "parseHead head hs \<noteq> None"
  by (rule parseHead_safe_lemma [OF assms])

theorem parseHead_safe_witness: "parseHead [71, CR, LF, 71] Map.empty \<noteq> None"
proof (rule parseHead_safe)
  show "\<not> bare_break [71, CR, LF, 71]"
    by (simp add: bare_break_def Cons_eq_append_conv)
qed simp

text \<open>
  The bounds of the test for the blank line: it reads before the start of the string on exactly
  four heads, the suffixes of a blank line that are shorter than it and the empty one.
\<close>

theorem head_ends_undefined:
  "head_ends head = None \<longleftrightarrow> head \<in> {[], [LF], CRLF, [LF, CR, LF]}"
  using head_ends_short [of head] head_ends_iff [of head] by (cases "length head < 4") auto

end
