(* ===== verification/Decimal.thy ===== *)
theory Decimal
  imports Prelude
begin

text \<open>
  Decimal texts of integers, as \<open>std::to_string\<close> and the \<open>%d\<close> and \<open>%i\<close> of \<open>printf\<close> write them, and
  their value.
\<close>

fun dec_nat :: "nat \<Rightarrow> bytes" where
  "dec_nat n = (if n < 10 then [word_of_nat (48 + n)] else dec_nat (n div 10) @ [word_of_nat (48 + n mod 10)])"

declare dec_nat.simps [simp del]

definition dec_int :: "int \<Rightarrow> bytes" where
  "dec_int i = (if i < 0 then 45 # dec_nat (nat (- i)) else dec_nat (nat i))"

definition is_digit :: "byte \<Rightarrow> bool" where
  "is_digit c \<longleftrightarrow> 48 \<le> c \<and> c \<le> 57"

definition dec_value :: "bytes \<Rightarrow> nat" where
  "dec_value ds = fold (\<lambda>c n. 10 * n + (unat c - 48)) ds 0"

lemma unat_digit: "k < 10 \<Longrightarrow> unat (word_of_nat (48 + k) :: byte) = 48 + k"
  by (simp add: unat_of_nat take_bit_nat_eq_self del: of_nat_add)

lemma digit_char: "k < 10 \<Longrightarrow> is_digit (word_of_nat (48 + k))"
  by (simp add: is_digit_def word_le_nat_alt unat_digit del: of_nat_add)

lemma dec_nat_digits: "c \<in> set (dec_nat n) \<Longrightarrow> is_digit c"
proof (induction n rule: dec_nat.induct)
  case (1 n)
  then show ?case
    using digit_char [of n] digit_char [of "n mod 10"]
    by (subst (asm) (2) dec_nat.simps) (auto split: if_splits)
qed

lemma dec_nat_nonempty: "dec_nat n \<noteq> []"
  by (subst dec_nat.simps) simp

lemma dec_value_nat: "dec_value (dec_nat n) = n"
proof (induction n rule: dec_nat.induct)
  case (1 n)
  then show ?case
    using unat_digit [of n] unat_digit [of "n mod 10"]
    by (subst dec_nat.simps) (auto simp: dec_value_def simp del: of_nat_add)
qed

lemma length_dec_nat: "n < 10 ^ k \<Longrightarrow> 0 < k \<Longrightarrow> length (dec_nat n) \<le> k"
proof (induction k arbitrary: n)
  case (Suc k)
  show ?case
  proof (cases "n < 10")
    case True
    then show ?thesis
      by (subst dec_nat.simps) simp
  next
    case False
    then have "0 < k"
      using Suc.prems(1) by (cases k) simp_all
    moreover have "n div 10 < 10 ^ k"
      using Suc.prems(1) by (simp add: less_mult_imp_div_less mult.commute)
    ultimately show ?thesis
      using Suc.IH [of "n div 10"] False by (subst dec_nat.simps) simp
  qed
qed simp

lemma dec_int_chars: "c \<in> set (dec_int i) \<Longrightarrow> is_digit c \<or> c = 45"
  using dec_nat_digits by (auto simp: dec_int_def split: if_splits)

lemma dec_int_no_LF: "LF \<notin> set (dec_int i)"
  using dec_int_chars [of LF i] by (auto simp: is_digit_def)

lemma dec_int_no_NUL: "NUL \<notin> set (dec_int i)"
  using dec_int_chars [of NUL i] by (auto simp: is_digit_def)

lemma dec_int_small: "0 \<le> i \<Longrightarrow> i < 10 \<Longrightarrow> dec_int i = [word_of_nat (48 + nat i)]"
  by (simp add: dec_int_def dec_nat.simps)

text \<open>What \<open>strtod\<close> takes of a text when it has neither point nor exponent.\<close>

definition read_int :: "bytes \<Rightarrow> int \<times> nat" where
  "read_int s =
     (let neg = (s \<noteq> [] \<and> hd s = 45); r = (if neg then tl s else s); ds = takeWhile is_digit r
      in if ds = [] then (0, 0)
         else ((if neg then - int (dec_value ds) else int (dec_value ds)), length ds + (if neg then 1 else 0)))"

lemma takeWhile_dec_nat: "takeWhile is_digit (dec_nat n) = dec_nat n"
  using dec_nat_digits by (simp only: takeWhile_eq_all_conv) blast

lemma read_dec_int: "read_int (dec_int i) = (i, length (dec_int i))"
proof -
  have h: "hd (dec_nat n) \<noteq> 45" for n
    using dec_nat_digits [of "hd (dec_nat n)" n] dec_nat_nonempty [of n] by (auto simp: is_digit_def)
  show ?thesis
    using h dec_nat_nonempty by (auto simp: read_int_def dec_int_def dec_value_nat Let_def takeWhile_dec_nat)
qed

end
