(* ===== verification/Handshake.thy ===== *)
theory Handshake
  imports Client_Base64 Client_Sha1 Client_Frame Http_Head Decimal
begin

text \<open>
  The opening handshake.  The server's side is \<open>WebSocketData::sendRespond\<close> and
  \<open>sendErrorRespond\<close> (\<^verbatim>\<open>src/src/websocket-data.cc\<close>); the client's is
  \<open>webSocket_buildShakeKey\<close>, \<open>webSocket_buildRespondShakeKey\<close>, \<open>webSocket_matchShakeKey\<close>,
  \<open>webSocket_buildHttpHead\<close> and the test of the answer in \<open>webSocket_clientLinkToServer\<close>
  (\<^verbatim>\<open>src/src/websocket-client.cc\<close>).
\<close>

section \<open>The accept key of RFC 6455\<close>

definition MAGIC_KEY :: bytes where
  "MAGIC_KEY = s2b ''258EAFA5-E914-47DA-95CA-C5AB0DC85B11''"

definition ws_accept :: "bytes \<Rightarrow> bytes" where
  "ws_accept key = rfc4648 (sha1_bytes (key @ MAGIC_KEY))"

text \<open>The keys the two sides exchange: C strings of a length that fits an \<open>int\<close>.\<close>

definition key_text :: "bytes \<Rightarrow> bool" where
  "key_text key \<longleftrightarrow> NUL \<notin> set key \<and> length key < 2 ^ 31"

locale ws_acceptor =
  fixes accept :: "bytes \<Rightarrow> bytes option"
  assumes accept_rfc: "key_text key \<Longrightarrow> accept key = Some (ws_accept key)"
begin

lemma accept_length: "key_text key \<Longrightarrow> \<exists>a. accept key = Some a \<and> length a = 28"
  by (simp add: accept_rfc ws_accept_def length_rfc4648)

end

section \<open>The server's answer\<close>

text \<open>\<open>headers_[key]\<close> of a \<open>std::map\<close>: a missing key reads as the empty string.\<close>

definition header_of :: "headers \<Rightarrow> bytes \<Rightarrow> bytes" where
  "header_of hs k = (case hs k of None \<Rightarrow> [] | Some v \<Rightarrow> v)"

text \<open>
  The key of the answer: the words of the digest after \<open>htonl\<close> are its bytes in order.  The object
  \<open>sha\<close> is on the stack; \<open>raw\<close> is what its storage holds.
\<close>

definition server_accept :: "SHA1 \<Rightarrow> bytes \<Rightarrow> bytes option" where
  "server_accept raw server_key = do {
     let server_key = server_key @ MAGIC_KEY;
     let sha = Reset (new_SHA1 raw);
     let sha = Input_cstr (server_key @ [NUL]) sha;
     message_digest \<leftarrow> snd (Result sha);
     Some (base64_encode (concat (map be32 message_digest))) }"

definition sendRespond :: "SHA1 \<Rightarrow> headers \<Rightarrow> bytes option" where
  "sendRespond raw hs = do {
     server_key \<leftarrow> server_accept raw (header_of hs (s2b ''Sec-WebSocket-Key''));
     Some (s2b ''HTTP/1.1 101 Switching Protocols'' @ CRLF @
       s2b ''Connection: upgrade'' @ CRLF @
       s2b ''Sec-WebSocket-Accept: '' @ server_key @ CRLF @
       s2b ''Upgrade: websocket'' @ CRLF @ CRLF) }"

definition sendErrorRespond :: "SHA1 \<Rightarrow> headers \<Rightarrow> int \<Rightarrow> bytes option" where
  "sendErrorRespond raw hs err_code = do {
     server_key \<leftarrow> server_accept raw (header_of hs (s2b ''Sec-WebSocket-Key''));
     Some (s2b ''HTTP/1.1 '' @ dec_int err_code @ s2b '' Switching Protocols'' @ CRLF @
       s2b ''Connection: upgrade'' @ CRLF @
       s2b ''Sec-WebSocket-Accept: '' @ server_key @ CRLF @
       s2b ''Upgrade: websocket'' @ CRLF @ CRLF) }"

section \<open>The client's keys\<close>

definition WEBSOCKET_SHAKE_KEY_LEN :: nat where
  "WEBSOCKET_SHAKE_KEY_LEN = 16"

definition webSocket_buildShakeKey :: "(nat \<Rightarrow> nat) \<Rightarrow> bytes option" where
  "webSocket_buildShakeKey rand =
     websocket_base64_encode (webSocket_getRandomString rand WEBSOCKET_SHAKE_KEY_LEN) WEBSOCKET_SHAKE_KEY_LEN"

definition GUID :: bytes where
  "GUID = s2b ''258EAFA5-E914-47DA-95CA-C5AB0DC85B11''"

lemma GUID_MAGIC: "GUID = MAGIC_KEY"
  by (simp add: GUID_def MAGIC_KEY_def)

text \<open>
  \<open>clientKey\<close> is zeroed and has ten bytes more than the key and the GUID with its terminator.  A
  \<open>char\<close> of \<open>sha1Data\<close> takes the low byte of the \<open>int\<close>.
\<close>

definition webSocket_buildRespondShakeKey :: "SHA1Context \<Rightarrow> bytes \<Rightarrow> nat \<Rightarrow> bytes option" where
  "webSocket_buildRespondShakeKey sha acceptKey acceptKeyLen = do {
     key \<leftarrow> slice 0 acceptKeyLen acceptKey;
     let clientKey = key @ GUID @ replicate 11 NUL;
     sha1DataTemp \<leftarrow> sha1_hash sha clientKey;
     let n = length (c_str sha1DataTemp);
     sha1Data \<leftarrow> those (map (\<lambda>i. htoi sha1DataTemp (2 * i) 2) [0..<(n + 1) div 2]);
     websocket_base64_encode (map word_of_int sha1Data) (n div 2) }"

definition webSocket_matchShakeKey :: "SHA1Context \<Rightarrow> bytes \<Rightarrow> nat \<Rightarrow> bytes \<Rightarrow> nat \<Rightarrow> int option" where
  "webSocket_matchShakeKey sha myKey myKeyLen acceptKey acceptKeyLen = do {
     tempKey \<leftarrow> webSocket_buildRespondShakeKey sha myKey myKeyLen;
     Some (if length tempKey \<noteq> acceptKeyLen then -1
       else if c_str tempKey \<noteq> c_str acceptKey then -1
       else 0) }"

section \<open>The client's request and its test of the answer\<close>

definition webSocket_buildHttpHead :: "bytes \<Rightarrow> int \<Rightarrow> bytes \<Rightarrow> bytes \<Rightarrow> bytes" where
  "webSocket_buildHttpHead ip port interfacePath shakeKey =
     s2b ''GET '' @ interfacePath @ s2b '' HTTP/1.1'' @ CRLF @
     s2b ''Connection: Upgrade'' @ CRLF @
     s2b ''Host: '' @ ip @ s2b '':'' @ dec_int port @ CRLF @
     s2b ''Sec-WebSocket-Key: '' @ shakeKey @ CRLF @
     s2b ''Sec-WebSocket-Version: 13'' @ CRLF @
     s2b ''Upgrade: websocket'' @ CRLF @ CRLF"

text \<open>
  \<open>webSocket_clientLinkToServer\<close> lets \<open>sprintf\<close> write that text and its terminator into an array of 512
  bytes, without a test; \<open>None\<close> is a write past its end.  The request is sent up to its terminator.
\<close>

definition login_request :: "bytes \<Rightarrow> int \<Rightarrow> bytes \<Rightarrow> bytes \<Rightarrow> bytes option" where
  "login_request ip port interfacePath shakeKey =
     (let package = c_str (webSocket_buildHttpHead (c_str ip) port (c_str interfacePath) (c_str shakeKey))
      in if length package + 1 \<le> 512 then Some package else None)"

text \<open>\<open>strstr\<close>, and the token \<open>%s\<close> reads.\<close>

fun strstr :: "bytes \<Rightarrow> bytes \<Rightarrow> nat option" where
  "strstr [] pat = (if pat = [] then Some 0 else None)"
| "strstr (c # s) pat = (if take (length pat) (c # s) = pat then Some 0 else map_option Suc (strstr s pat))"

definition isspace :: "byte \<Rightarrow> bool" where
  "isspace c \<longleftrightarrow> 9 \<le> c \<and> c \<le> 13 \<or> c = 32"

definition token :: "bytes \<Rightarrow> bytes" where
  "token s = takeWhile (\<lambda>c. \<not> isspace c) (dropWhile isspace s)"

text \<open>
  What the client does with one answer in \<open>recBuf\<close>: the value of \<open>webSocket_matchShakeKey\<close>, or 1
  where it only sends the request again or prints.  The string functions need a terminator in the
  array.  The token is written over its own place; without one the text stays as it is.
\<close>

definition login_answer :: "SHA1Context \<Rightarrow> bytes \<Rightarrow> bytes \<Rightarrow> int option" where
  "login_answer sha shakeKey recBuf =
     (if NUL \<notin> set recBuf then None
      else let buf = c_str recBuf in
        if take 4 buf \<noteq> s2b ''HTTP'' then Some 1
        else case strstr buf (s2b ''Sec-WebSocket-Accept: '') of
          None \<Rightarrow> Some 1
        | Some i \<Rightarrow>
            let p = drop (i + 22) buf;
                p = (if token p = [] then p else token p)
            in webSocket_matchShakeKey sha shakeKey (length (c_str shakeKey)) (p @ [NUL]) (length p))"

section \<open>Both sides compute the key of the RFC\<close>

lemma MAGIC_not_NUL: "NUL \<notin> set MAGIC_KEY"
  by code_simp

lemma length_MAGIC [simp]: "length MAGIC_KEY = 36"
  by (simp add: MAGIC_KEY_def)

lemma c_str_key:
  assumes "key_text key"
  shows "c_str (key @ MAGIC_KEY @ NUL # ys) = key @ MAGIC_KEY"
  using c_str_stop [of "key @ MAGIC_KEY" ys] assms MAGIC_not_NUL by (simp add: key_text_def)

lemma server_accept_rfc:
  assumes "raw_SHA1 raw" "key_text key"
  shows "server_accept raw key = Some (ws_accept key)"
proof -
  have fits: "sha1_fits (key @ MAGIC_KEY)"
    using assms(2) by (simp add: key_text_def sha1_fits_def)
  have "raw_SHA1 (new_SHA1 raw)"
    using assms(1) by (simp add: raw_SHA1_def new_SHA1_def Reset_def)
  then have "sha1_rep (Input_cstr (key @ MAGIC_KEY @ [NUL]) (Reset (new_SHA1 raw))) (key @ MAGIC_KEY)"
    using Input_cstr_rep [OF Reset_rep, of "new_SHA1 raw" "key @ MAGIC_KEY @ [NUL]"] fits
    by (simp add: c_str_key [OF assms(2)])
  from Result_rep(1) [OF this] show ?thesis
    by (simp add: server_accept_def Let_def base64_encode_ref ws_accept_def sha1_bytes_def)
qed

lemma those_Some: "those (map (\<lambda>i. Some (f i)) xs) = Some (map f xs)"
  by (induction xs) simp_all

lemma client_accept_rfc:
  assumes "raw_SHA1 (sha_of sha)" "key_text key"
  shows "webSocket_buildRespondShakeKey sha (key @ rest) (length key) = Some (ws_accept key)"
proof -
  define msg where "msg = key @ MAGIC_KEY"
  have "c_str (key @ MAGIC_KEY @ replicate 11 NUL) = msg"
    using c_str_key [OF assms(2), of "replicate 10 NUL"] by (simp add: msg_def numeral_eq_Suc)
  moreover have "length msg < 2 ^ 32"
    using assms(2) by (simp add: msg_def key_text_def)
  ultimately have hash: "sha1_hash sha (key @ MAGIC_KEY @ replicate 11 NUL) = Some (digest_text msg)"
    using sha1_hash_text [OF assms(1), of "key @ MAGIC_KEY @ replicate 11 NUL"] by simp
  have n: "length (c_str (digest_text msg)) = 40"
    by (simp add: digest_text_c_str length_hex)
  have "map (\<lambda>i. htoi (digest_text msg) (2 * i) 2) [0..<20]
      = map (\<lambda>i. Some (int (unat (sha1_bytes msg ! i)))) [0..<20]"
    by (simp only: map_eq_conv) (use htoi_digest in auto)
  then have "those (map (\<lambda>i. htoi (digest_text msg) (2 * i) 2) [0..<20])
      = Some (map (\<lambda>i. int (unat (sha1_bytes msg ! i))) [0..<20])"
    by (simp only: those_Some)
  moreover have "map word_of_int (map (\<lambda>i. int (unat (sha1_bytes msg ! i))) [0..<20]) = sha1_bytes msg"
    by (rule nth_equalityI) simp_all
  moreover have "websocket_base64_encode (sha1_bytes msg) 20 = Some (rfc4648 (sha1_bytes msg))"
    using cli64.enc_ref [of "sha1_bytes msg"] by simp
  ultimately show ?thesis
    using hash n
    by (simp add: webSocket_buildRespondShakeKey_def slice_def Let_def ws_accept_def msg_def GUID_MAGIC)
qed

text \<open>An object of the class and a context whose arrays have their sizes.\<close>

definition some_SHA1 :: SHA1 where
  "some_SHA1 = \<lparr>Hs = replicate 5 0, Length_Low = 0, Length_High = 0, Message_Block = replicate 64 0,
     Message_Block_Index = 0, Computed = False, Corrupted = False\<rparr>"

definition some_SHA1Context :: SHA1Context where
  "some_SHA1Context = \<lparr>Message_Digest = replicate 5 0, c_Length_Low = 0, c_Length_High = 0,
     c_Message_Block = replicate 64 0, c_Message_Block_Index = 0, c_Computed = 0, c_Corrupted = 0\<rparr>"

lemma raw_some: "raw_SHA1 some_SHA1" "raw_SHA1 (sha_of some_SHA1Context)"
  by (simp_all add: raw_SHA1_def some_SHA1_def sha_of_def some_SHA1Context_def)

interpretation srv_accept: ws_acceptor "server_accept some_SHA1"
  by unfold_locales (simp add: server_accept_rfc raw_some)

interpretation cli_accept: ws_acceptor
  "\<lambda>key. webSocket_buildRespondShakeKey some_SHA1Context key (length key)"
  by unfold_locales (use client_accept_rfc [OF raw_some(2), where rest = "[]"] in simp)

section \<open>The request reaches the server\<close>

lemma b64_plain:
  assumes "c = 61 \<or> c \<in> set b64_alphabet"
  shows "c \<noteq> NUL \<and> c \<noteq> LF \<and> c \<noteq> CR \<and> \<not> isspace c"
proof -
  have "list_all (\<lambda>c. c \<noteq> NUL \<and> c \<noteq> LF \<and> c \<noteq> CR \<and> \<not> isspace c) (61 # b64_alphabet)"
    by code_simp
  moreover have "c \<in> set (61 # b64_alphabet)"
    using assms by (metis list.set_intros)
  ultimately show ?thesis
    unfolding list_all_iff by (rule bspec)
qed

lemma rfc4648_plain: "c \<in> set (rfc4648 bs) \<Longrightarrow> c \<noteq> NUL \<and> c \<noteq> LF \<and> c \<noteq> CR \<and> \<not> isspace c"
  using set_rfc4648 [of bs] b64_plain [of c] by blast

lemma shakeKey:
  obtains key where "webSocket_buildShakeKey rand = Some key" "length key = 24" "key_text key"
    "\<forall>c \<in> set key. c \<noteq> NUL \<and> c \<noteq> LF \<and> c \<noteq> CR \<and> \<not> isspace c"
proof
  let ?r = "webSocket_getRandomString rand 16"
  show "webSocket_buildShakeKey rand = Some (rfc4648 ?r)"
    using client_encode_ref [of 16 ?r] by (simp add: webSocket_buildShakeKey_def WEBSOCKET_SHAKE_KEY_LEN_def)
  show "length (rfc4648 ?r) = 24"
    by (simp add: length_rfc4648)
  then show "key_text (rfc4648 ?r)"
    using rfc4648_plain by (auto simp: key_text_def)
qed (use rfc4648_plain in blast)

definition request_headers :: "bytes \<Rightarrow> int \<Rightarrow> bytes \<Rightarrow> (bytes \<times> bytes) list" where
  "request_headers ip port key =
     [(s2b ''Connection'', s2b ''Upgrade''), (s2b ''Host'', ip @ s2b '':'' @ dec_int port),
      (s2b ''Sec-WebSocket-Key'', key), (s2b ''Sec-WebSocket-Version'', s2b ''13''),
      (s2b ''Upgrade'', s2b ''websocket'')]"

text \<open>The array is large enough for an address, a port and a path like those of the client program.\<close>

lemma head_no_NUL:
  "NUL \<notin> set ip \<Longrightarrow> NUL \<notin> set path \<Longrightarrow> NUL \<notin> set key \<Longrightarrow> NUL \<notin> set (webSocket_buildHttpHead ip port path key)"
  using dec_int_no_NUL [of port] by (simp add: webSocket_buildHttpHead_def)

lemma login_request_fits:
  assumes "NUL \<notin> set ip" "NUL \<notin> set path" "NUL \<notin> set key" "length ip + length path + length key + length (dec_int port) \<le> 380"
  shows "login_request ip port path key = Some (webSocket_buildHttpHead ip port path key)"
  using assms head_no_NUL [OF assms(1-3), of port]
  by (simp add: login_request_def c_str_id) (simp add: webSocket_buildHttpHead_def)

lemma login_request_overruns:
  assumes "NUL \<notin> set ip" "NUL \<notin> set path" "NUL \<notin> set key" "512 \<le> length path"
  shows "login_request ip port path key = None"
  using assms head_no_NUL [OF assms(1-3), of port]
  by (simp add: login_request_def c_str_id) (simp add: webSocket_buildHttpHead_def)

lemma request_parsed:
  assumes "LF \<notin> set ip" "LF \<notin> set path" "LF \<notin> set key"
  shows "\<exists>hs'. parseHead (webSocket_buildHttpHead ip port path key) hs = Some (Inr hs') \<and>
    header_of hs' (s2b ''Sec-WebSocket-Key'') = key"
proof -
  let ?line = "s2b ''GET '' @ path @ s2b '' HTTP/1.1''"
  have "webSocket_buildHttpHead ip port path key
      = ?line @ CRLF @ concat (map header_line (request_headers ip port key)) @ CRLF"
    by (simp add: webSocket_buildHttpHead_def request_headers_def header_line_def)
  moreover have "list_all header_ok (request_headers ip port key)"
    using assms dec_int_no_LF [of port] by (simp add: request_headers_def header_ok_def)
  moreover have "LF \<notin> set ?line"
    using assms(2) by simp
  ultimately have "parseHead (webSocket_buildHttpHead ip port path key) hs
      = Some (Inr (set_headers (request_headers ip port key) hs))"
    using parseHead_request by metis
  moreover have "header_of (set_headers (request_headers ip port key) hs) (s2b ''Sec-WebSocket-Key'') = key"
    by (simp add: header_of_def request_headers_def set_headers_def)
  ultimately show ?thesis
    by blast
qed

section \<open>The answer reaches the client\<close>

definition answer_head :: bytes where
  "answer_head = s2b ''HTTP/1.1 101 Switching Protocols'' @ CRLF @ s2b ''Connection: upgrade'' @ CRLF"

definition answer_tail :: bytes where
  "answer_tail = CRLF @ s2b ''Upgrade: websocket'' @ CRLF @ CRLF"

definition accept_mark :: bytes where
  "accept_mark = s2b ''Sec-WebSocket-Accept: ''"

lemma answer_facts:
  "length answer_head = 55" "length accept_mark = 22" "length answer_tail = 24" "take 4 answer_head = s2b ''HTTP''"
  "NUL \<notin> set answer_head" "NUL \<notin> set accept_mark" "NUL \<notin> set answer_tail"
  by code_simp+

lemma strstr_answer: "strstr (answer_head @ accept_mark @ rest) accept_mark = Some 55"
  by (simp add: answer_head_def accept_mark_def)

lemma token_word:
  assumes "\<forall>c \<in> set w. \<not> isspace c" "w \<noteq> []" "isspace d"
  shows "token (w @ d # rest) = w"
  using assms by (cases w) (auto simp: token_def takeWhile_append)

lemma match_own:
  assumes "raw_SHA1 (sha_of sha)" "key_text key"
  shows "webSocket_matchShakeKey sha (key @ [NUL]) (length key) (ws_accept key @ [NUL]) 28 = Some 0"
proof -
  have "NUL \<notin> set (ws_accept key)"
    using rfc4648_plain by (auto simp: ws_accept_def)
  then have "c_str (ws_accept key) = ws_accept key" "c_str (ws_accept key @ [NUL]) = ws_accept key"
    using c_str_stop [of "ws_accept key" "[]"] by (simp_all add: c_str_id)
  moreover have "length (ws_accept key) = 28"
    by (simp add: ws_accept_def length_rfc4648)
  ultimately show ?thesis
    using client_accept_rfc [OF assms, of "[NUL]"] by (simp add: webSocket_matchShakeKey_def)
qed

lemma answer_matches:
  assumes raw: "raw_SHA1 raw" "raw_SHA1 (sha_of sha)" and key: "key_text key"
    and hs: "header_of hs (s2b ''Sec-WebSocket-Key'') = key" and buf: "0 < n"
  shows "\<exists>answer. sendRespond raw hs = Some answer \<and> length answer = 129 \<and>
    login_answer sha (key @ [NUL]) (answer @ replicate n NUL) = Some 0"
proof -
  define answer where "answer = answer_head @ accept_mark @ ws_accept key @ answer_tail"
  have acc: "\<forall>c \<in> set (ws_accept key). c \<noteq> NUL \<and> \<not> isspace c" "length (ws_accept key) = 28"
    using rfc4648_plain by (auto simp: ws_accept_def length_rfc4648)
  have no_NUL: "NUL \<notin> set answer"
    using answer_facts acc(1) by (auto simp: answer_def)
  have "replicate n NUL = NUL # replicate (n - 1) NUL"
    using buf by (cases n) simp_all
  then have buf: "NUL \<in> set (answer @ replicate n NUL)" "c_str (answer @ replicate n NUL) = answer"
    using c_str_stop [OF no_NUL] by simp_all
  have "sendRespond raw hs = Some answer"
    using server_accept_rfc [OF raw(1) key] hs
    by (simp add: sendRespond_def answer_def answer_head_def accept_mark_def answer_tail_def)
  moreover have "length answer = 129"
    using answer_facts acc(2) by (simp add: answer_def)
  moreover have "login_answer sha (key @ [NUL]) (answer @ replicate n NUL) = Some 0"
  proof -
    have "take 4 answer = s2b ''HTTP''"
      using answer_facts(1,4) by (simp add: answer_def)
    moreover have "strstr answer accept_mark = Some 55"
      by (simp only: answer_def strstr_answer)
    moreover have "drop (55 + 22) answer = ws_accept key @ answer_tail"
      using answer_facts(1,2) by (simp add: answer_def)
    moreover have "token (ws_accept key @ answer_tail) = ws_accept key"
      unfolding answer_tail_def append_Cons using acc by (intro token_word) (auto simp: isspace_def)
    moreover have "ws_accept key \<noteq> []"
      using acc(2) by auto
    moreover have "c_str (key @ [NUL]) = key"
      using c_str_stop [of key "[]"] key by (simp add: key_text_def)
    ultimately show ?thesis
      using match_own [OF raw(2) key] acc(2) unfolding login_answer_def buf(2) Let_def accept_mark_def [symmetric]
      by (simp add: buf(1) del: set_append)
  qed
  ultimately show ?thesis
    by blast
qed

section \<open>Properties\<close>

text \<open>
  C9: the opening handshake of the two programs completes.  Whatever the random source gives, the
  client has a key; the server parses the client's request, finds that key, and answers with a text
  that the client, in a buffer with at least one zero byte after it, accepts.
\<close>

theorem handshake_completes:
  assumes "raw_SHA1 raw" "raw_SHA1 (sha_of sha)" "LF \<notin> set ip" "LF \<notin> set path" "0 < n"
  shows "\<exists>key hs' answer. webSocket_buildShakeKey rand = Some key \<and>
    parseHead (webSocket_buildHttpHead ip port path key) hs = Some (Inr hs') \<and>
    sendRespond raw hs' = Some answer \<and>
    login_answer sha (key @ [NUL]) (answer @ replicate n NUL) = Some 0"
proof -
  obtain key where key: "webSocket_buildShakeKey rand = Some key" "key_text key" "\<forall>c \<in> set key. c \<noteq> LF"
    by (rule shakeKey [of rand]) blast
  then have "LF \<notin> set key"
    by blast
  from request_parsed [OF assms(3,4) this, of port hs] obtain hs' where
    hs': "parseHead (webSocket_buildHttpHead ip port path key) hs = Some (Inr hs')"
      "header_of hs' (s2b ''Sec-WebSocket-Key'') = key"
    by blast
  then show ?thesis
    using answer_matches [OF assms(1,2) key(2) hs'(2) assms(5)] key(1) by blast
qed

theorem handshake_completes_witness:
  "\<exists>key hs' answer. webSocket_buildShakeKey (\<lambda>i. i) = Some key \<and>
    parseHead (webSocket_buildHttpHead [49] 80 [47] key) Map.empty = Some (Inr hs') \<and>
    sendRespond some_SHA1 hs' = Some answer \<and>
    login_answer some_SHA1Context (key @ [NUL]) (answer @ replicate 383 NUL) = Some 0"
  by (rule handshake_completes [OF raw_some]) simp_all

text \<open>
  The server's accept key and the key the client expects are both the one of RFC 6455: the
  Base64 of the SHA-1 of the key followed by the protocol's GUID.
\<close>

theorem accept_keys_rfc:
  assumes "raw_SHA1 raw" "raw_SHA1 (sha_of sha)" "key_text key"
  shows "server_accept raw key = Some (ws_accept key) \<and>
    webSocket_buildRespondShakeKey sha (key @ rest) (length key) = Some (ws_accept key)"
  by (simp add: server_accept_rfc [OF assms(1,3)] client_accept_rfc [OF assms(2,3)])

theorem accept_keys_rfc_witness:
  "server_accept some_SHA1 [65] = Some (ws_accept [65]) \<and>
   webSocket_buildRespondShakeKey some_SHA1Context [65, NUL] 1 = Some (ws_accept [65])"
  using accept_keys_rfc [OF raw_some, where key = "[65]" and rest = "[NUL]"] by (simp add: key_text_def)

text \<open>
  The client takes a complete answer only with the key that belongs to its own: an answer with
  status line and accept header is matched exactly when the token after the header has the length
  and the text of that key.
\<close>

theorem answer_rejected_unless_key:
  assumes "raw_SHA1 (sha_of sha)" "key_text key" "acc \<noteq> []"
    "\<forall>c \<in> set acc. c \<noteq> NUL \<and> \<not> isspace c"
  shows "login_answer sha (key @ [NUL]) (answer_head @ accept_mark @ acc @ answer_tail @ [NUL])
    = Some (if acc = ws_accept key then 0 else -1)"
proof -
  define a where "a = answer_head @ accept_mark @ acc @ answer_tail"
  have c: "c_str (a @ [NUL]) = a"
    using c_str_stop [of a "[]"] answer_facts assms(4) by (auto simp: a_def)
  have tok: "token (acc @ answer_tail) = acc"
    unfolding answer_tail_def append_Cons using assms(3,4) by (intro token_word) (auto simp: isspace_def)
  have w: "NUL \<notin> set (ws_accept key)" "length (ws_accept key) = 28" "NUL \<notin> set acc"
    using rfc4648_plain assms(4) by (auto simp: ws_accept_def length_rfc4648)
  have m: "webSocket_matchShakeKey sha (key @ [NUL]) (length key) (acc @ [NUL]) (length acc)
      = Some (if acc = ws_accept key then 0 else -1)"
    using client_accept_rfc [OF assms(1,2), of "[NUL]"] c_str_stop [OF w(3), of "[]"] w
    by (auto simp: webSocket_matchShakeKey_def c_str_id)
  have s: "take 4 a = s2b ''HTTP''" "strstr a accept_mark = Some 55" "drop (55 + 22) a = acc @ answer_tail"
    using answer_facts(1,2,4) by (simp_all add: a_def strstr_answer)
  have k: "c_str (key @ [NUL]) = key"
    using c_str_stop [of key "[]"] assms(2) by (simp add: key_text_def)
  have "login_answer sha (key @ [NUL]) (a @ [NUL])
      = webSocket_matchShakeKey sha (key @ [NUL]) (length key) (acc @ [NUL]) (length acc)"
    using assms(3) s unfolding login_answer_def c Let_def accept_mark_def [symmetric]
    by (simp add: tok k)
  then show ?thesis
    by (simp add: m a_def)
qed

theorem answer_rejected_unless_key_witness:
  "login_answer some_SHA1Context [65, NUL] (answer_head @ accept_mark @ [66] @ answer_tail @ [NUL])
    = Some (if [66] = ws_accept [65] then 0 else -1)"
  using answer_rejected_unless_key [OF raw_some(2), of "[65]" "[66]"] by (simp add: key_text_def isspace_def)

end
