(* ===== verification/Cjson_Data.thy ===== *)
theory Cjson_Data
  imports Prelude
begin

text \<open>
  The items of the JSON library (\<^verbatim>\<open>src/src/cJSON.h\<close>, \<^verbatim>\<open>src/src/cJSON.cc\<close>) as trees: their
  types, construction and queries.  A string member is the C string it
  points to, without its terminator, or \<open>None\<close> for \<open>NULL\<close>; an item argument is \<open>None\<close> for \<open>NULL\<close>.
  The chain of \<open>next\<close> pointers from \<open>child\<close> is the list \<open>i_child\<close>.
\<close>

section \<open>Types of items\<close>

definition cJSON_Invalid :: u32 where "cJSON_Invalid = 0"
definition cJSON_False :: u32 where "cJSON_False = 1"
definition cJSON_True :: u32 where "cJSON_True = 2"
definition cJSON_NULL :: u32 where "cJSON_NULL = 4"
definition cJSON_Number :: u32 where "cJSON_Number = 8"
definition cJSON_String :: u32 where "cJSON_String = 16"
definition cJSON_Array :: u32 where "cJSON_Array = 32"
definition cJSON_Object :: u32 where "cJSON_Object = 64"
definition cJSON_Raw :: u32 where "cJSON_Raw = 128"
definition cJSON_IsReference :: u32 where "cJSON_IsReference = 256"
definition cJSON_StringIsConst :: u32 where "cJSON_StringIsConst = 512"

lemmas cjson_types = cJSON_Invalid_def cJSON_False_def cJSON_True_def cJSON_NULL_def cJSON_Number_def
  cJSON_String_def cJSON_Array_def cJSON_Object_def cJSON_Raw_def cJSON_IsReference_def
  cJSON_StringIsConst_def

definition INT_MAX :: int where "INT_MAX = 2147483647"
definition INT_MIN :: int where "INT_MIN = -2147483648"

datatype 'd cJSON = Item
  (i_type: u32) (i_valuestring: "bytes option") (i_valueint: int) (i_valuedouble: 'd)
  (i_string: "bytes option") (i_child: "'d cJSON list")

definition kind :: "'d cJSON \<Rightarrow> u32" where
  "kind item = i_type item AND 0xFF"

section \<open>Floating point\<close>

text \<open>
  What the library uses of \<open>double\<close> and of the conversions of the C library: the member values
  compare, convert, print under \<open>%1.15g\<close> and \<open>%1.17g\<close> and are read by \<open>sscanf\<close> under \<open>%lg\<close> and by
  \<open>strtod\<close>, which also tells how many characters it took (none when there is no number).
\<close>

record 'd libc_double =
  d_zero :: 'd
  d_of_int :: "int \<Rightarrow> 'd"
  d_eq :: "'d \<Rightarrow> 'd \<Rightarrow> bool"
  d_nonfinite :: "'d \<Rightarrow> bool"
  d_le :: "'d \<Rightarrow> 'd \<Rightarrow> bool"
  d_trunc :: "'d \<Rightarrow> int"
  d_g15 :: "'d \<Rightarrow> bytes"
  d_g17 :: "'d \<Rightarrow> bytes"
  d_scan :: "bytes \<Rightarrow> 'd option"
  d_strtod :: "bytes \<Rightarrow> 'd \<times> nat"

text \<open>Conversion to \<open>int\<close> that saturates.\<close>

definition saturate :: "('d, 'e) libc_double_scheme \<Rightarrow> 'd \<Rightarrow> int" where
  "saturate dbl num =
     (if d_le dbl (d_of_int dbl INT_MAX) num then INT_MAX
      else if d_le dbl num (d_of_int dbl INT_MIN) then INT_MIN
      else d_trunc dbl num)"

definition cJSON_SetNumberHelper ::
  "('d, 'e) libc_double_scheme \<Rightarrow> 'd cJSON \<Rightarrow> 'd \<Rightarrow> 'd cJSON" where
  "cJSON_SetNumberHelper dbl object number = (case object of Item ty vs _ _ str ch \<Rightarrow>
     Item ty vs (saturate dbl number) number str ch)"

section \<open>Construction\<close>

text \<open>\<open>alloc k\<close> says whether the \<open>k\<close>-th allocation a function makes succeeds.\<close>

type_synonym allocs = "nat \<Rightarrow> bool"

definition cJSON_New_Item :: "('d, 'e) libc_double_scheme \<Rightarrow> bool \<Rightarrow> 'd cJSON option" where
  "cJSON_New_Item dbl ok = (if ok then Some (Item 0 None 0 (d_zero dbl) None []) else None)"

definition cJSON_strdup :: "bool \<Rightarrow> bytes option \<Rightarrow> bytes option" where
  "cJSON_strdup ok string = (if ok then string else None)"

definition set_type :: "u32 \<Rightarrow> 'd cJSON \<Rightarrow> 'd cJSON" where
  "set_type ty item = (case item of Item _ vs vi vd str ch \<Rightarrow> Item ty vs vi vd str ch)"

definition cJSON_CreateNull :: "('d, 'e) libc_double_scheme \<Rightarrow> allocs \<Rightarrow> 'd cJSON option" where
  "cJSON_CreateNull dbl alloc = map_option (set_type cJSON_NULL) (cJSON_New_Item dbl (alloc 0))"

definition cJSON_CreateTrue :: "('d, 'e) libc_double_scheme \<Rightarrow> allocs \<Rightarrow> 'd cJSON option" where
  "cJSON_CreateTrue dbl alloc = map_option (set_type cJSON_True) (cJSON_New_Item dbl (alloc 0))"

definition cJSON_CreateFalse :: "('d, 'e) libc_double_scheme \<Rightarrow> allocs \<Rightarrow> 'd cJSON option" where
  "cJSON_CreateFalse dbl alloc = map_option (set_type cJSON_False) (cJSON_New_Item dbl (alloc 0))"

definition cJSON_CreateBool :: "('d, 'e) libc_double_scheme \<Rightarrow> allocs \<Rightarrow> bool \<Rightarrow> 'd cJSON option" where
  "cJSON_CreateBool dbl alloc b =
     map_option (set_type (if b then cJSON_True else cJSON_False)) (cJSON_New_Item dbl (alloc 0))"

definition cJSON_CreateNumber :: "('d, 'e) libc_double_scheme \<Rightarrow> allocs \<Rightarrow> 'd \<Rightarrow> 'd cJSON option" where
  "cJSON_CreateNumber dbl alloc num =
     map_option (\<lambda>item. cJSON_SetNumberHelper dbl (set_type cJSON_Number item) num) (cJSON_New_Item dbl (alloc 0))"

definition create_text ::
  "('d, 'e) libc_double_scheme \<Rightarrow> allocs \<Rightarrow> u32 \<Rightarrow> bytes option \<Rightarrow> 'd cJSON option" where
  "create_text dbl alloc ty string = do {
     item \<leftarrow> cJSON_New_Item dbl (alloc 0);
     s \<leftarrow> cJSON_strdup (alloc 1) string;
     (case item of Item _ _ vi vd str ch \<Rightarrow> Some (Item ty (Some s) vi vd str ch)) }"

definition cJSON_CreateString ::
  "('d, 'e) libc_double_scheme \<Rightarrow> allocs \<Rightarrow> bytes option \<Rightarrow> 'd cJSON option" where
  "cJSON_CreateString dbl alloc string = create_text dbl alloc cJSON_String string"

definition cJSON_CreateRaw ::
  "('d, 'e) libc_double_scheme \<Rightarrow> allocs \<Rightarrow> bytes option \<Rightarrow> 'd cJSON option" where
  "cJSON_CreateRaw dbl alloc raw = create_text dbl alloc cJSON_Raw raw"

definition cJSON_CreateArray :: "('d, 'e) libc_double_scheme \<Rightarrow> allocs \<Rightarrow> 'd cJSON option" where
  "cJSON_CreateArray dbl alloc = map_option (set_type cJSON_Array) (cJSON_New_Item dbl (alloc 0))"

definition cJSON_CreateObject :: "('d, 'e) libc_double_scheme \<Rightarrow> allocs \<Rightarrow> 'd cJSON option" where
  "cJSON_CreateObject dbl alloc = map_option (set_type cJSON_Object) (cJSON_New_Item dbl (alloc 0))"

section \<open>Adding to arrays and objects\<close>

text \<open>The item is a tree of its own, not yet in a list; the result is the changed array.\<close>

definition cJSON_AddItemToArray :: "'d cJSON \<Rightarrow> 'd cJSON option \<Rightarrow> 'd cJSON" where
  "cJSON_AddItemToArray array item = (case item of
     None \<Rightarrow> array
   | Some item \<Rightarrow> (case array of Item ty vs vi vd str ch \<Rightarrow> Item ty vs vi vd str (ch @ [item])))"

definition cJSON_AddItemToObjectCS :: "'d cJSON \<Rightarrow> bytes option \<Rightarrow> 'd cJSON option \<Rightarrow> 'd cJSON" where
  "cJSON_AddItemToObjectCS object string item = (case item of
     None \<Rightarrow> object
   | Some (Item ty vs vi vd _ ch) \<Rightarrow> (case string of
       None \<Rightarrow> object
     | Some s \<Rightarrow> cJSON_AddItemToArray object (Some (Item (ty OR cJSON_StringIsConst) vs vi vd (Some s) ch))))"

text \<open>The flag is taken off again once the item is in the list, whose last element it then is.\<close>

definition unconst :: "'d cJSON \<Rightarrow> 'd cJSON" where
  "unconst item = set_type (i_type item AND NOT cJSON_StringIsConst) item"

definition unconst_last :: "'d cJSON \<Rightarrow> 'd cJSON" where
  "unconst_last object = (case object of Item ty vs vi vd str ch \<Rightarrow>
     Item ty vs vi vd str (butlast ch @ [unconst (last ch)]))"

definition cJSON_AddItemToObject ::
  "bool \<Rightarrow> 'd cJSON \<Rightarrow> bytes option \<Rightarrow> 'd cJSON option \<Rightarrow> 'd cJSON" where
  "cJSON_AddItemToObject ok object string item = (case item of
     None \<Rightarrow> object
   | Some it \<Rightarrow> (case cJSON_strdup ok string of
       None \<Rightarrow> object
     | s \<Rightarrow> unconst_last (cJSON_AddItemToObjectCS object s item)))"

section \<open>Queries\<close>

text \<open>
  \<open>tolower\<close> of the C locale; the comparison is of the strings with their terminators.
\<close>

definition lower :: "byte \<Rightarrow> byte" where
  "lower c = (if 65 \<le> c \<and> c \<le> 90 then c + 32 else c)"

fun insensitive_cmp :: "bytes \<Rightarrow> bytes \<Rightarrow> int" where
  "insensitive_cmp [] [] = 0"
| "insensitive_cmp (a # s) [] = int (unat (lower a))"
| "insensitive_cmp [] (b # t) = - int (unat (lower b))"
| "insensitive_cmp (a # s) (b # t) =
     (if lower a = lower b then insensitive_cmp s t else int (unat (lower a)) - int (unat (lower b)))"

definition case_insensitive_strcmp :: "bytes option \<Rightarrow> bytes option \<Rightarrow> int" where
  "case_insensitive_strcmp string1 string2 = (case (string1, string2) of
     (Some s, Some t) \<Rightarrow> insensitive_cmp s t
   | _ \<Rightarrow> 1)"

definition cJSON_GetArraySize :: "'d cJSON option \<Rightarrow> nat" where
  "cJSON_GetArraySize array = (case array of None \<Rightarrow> 0 | Some a \<Rightarrow> length (i_child a))"

fun walk :: "nat \<Rightarrow> 'd cJSON list \<Rightarrow> 'd cJSON option" where
  "walk index [] = None"
| "walk 0 (c # cs) = Some c"
| "walk (Suc index) (c # cs) = walk index cs"

definition get_array_item :: "'d cJSON option \<Rightarrow> nat \<Rightarrow> 'd cJSON option" where
  "get_array_item array index = (case array of None \<Rightarrow> None | Some a \<Rightarrow> walk index (i_child a))"

definition cJSON_GetArrayItem :: "'d cJSON option \<Rightarrow> int \<Rightarrow> 'd cJSON option" where
  "cJSON_GetArrayItem array index = (if index < 0 then None else get_array_item array (nat index))"

text \<open>\<open>strcmp\<close> on an item without a name is a read through \<open>NULL\<close>: the outer \<open>None\<close>.\<close>

fun find_item :: "bytes \<Rightarrow> bool \<Rightarrow> 'd cJSON list \<Rightarrow> 'd cJSON option option" where
  "find_item name case_sensitive [] = Some None"
| "find_item name case_sensitive (c # cs) =
     (if case_sensitive then
        (case i_string c of
           None \<Rightarrow> None
         | Some s \<Rightarrow> if name = s then Some (Some c) else find_item name case_sensitive cs)
      else if case_insensitive_strcmp (Some name) (i_string c) = 0 then Some (Some c)
      else find_item name case_sensitive cs)"

definition get_object_item ::
  "'d cJSON option \<Rightarrow> bytes option \<Rightarrow> bool \<Rightarrow> 'd cJSON option option" where
  "get_object_item object name case_sensitive = (case (object, name) of
     (Some ob, Some n) \<Rightarrow> find_item n case_sensitive (i_child ob)
   | _ \<Rightarrow> Some None)"

definition cJSON_GetObjectItem :: "'d cJSON option \<Rightarrow> bytes option \<Rightarrow> 'd cJSON option option" where
  "cJSON_GetObjectItem object string = get_object_item object string False"

definition cJSON_GetObjectItemCaseSensitive ::
  "'d cJSON option \<Rightarrow> bytes option \<Rightarrow> 'd cJSON option option" where
  "cJSON_GetObjectItemCaseSensitive object string = get_object_item object string True"

definition cJSON_HasObjectItem :: "'d cJSON option \<Rightarrow> bytes option \<Rightarrow> bool option" where
  "cJSON_HasObjectItem object string = map_option (\<lambda>r. r \<noteq> None) (cJSON_GetObjectItem object string)"

definition has_kind :: "u32 \<Rightarrow> 'd cJSON option \<Rightarrow> bool" where
  "has_kind ty item = (case item of None \<Rightarrow> False | Some it \<Rightarrow> kind it = ty)"

definition cJSON_IsInvalid :: "'d cJSON option \<Rightarrow> bool" where
  "cJSON_IsInvalid item = has_kind cJSON_Invalid item"

definition cJSON_IsFalse :: "'d cJSON option \<Rightarrow> bool" where
  "cJSON_IsFalse item = has_kind cJSON_False item"

definition cJSON_IsTrue :: "'d cJSON option \<Rightarrow> bool" where
  "cJSON_IsTrue item = has_kind cJSON_True item"

definition cJSON_IsBool :: "'d cJSON option \<Rightarrow> bool" where
  "cJSON_IsBool item = (case item of None \<Rightarrow> False
     | Some it \<Rightarrow> i_type it AND (cJSON_True OR cJSON_False) \<noteq> 0)"

definition cJSON_IsNull :: "'d cJSON option \<Rightarrow> bool" where
  "cJSON_IsNull item = has_kind cJSON_NULL item"

definition cJSON_IsNumber :: "'d cJSON option \<Rightarrow> bool" where
  "cJSON_IsNumber item = has_kind cJSON_Number item"

definition cJSON_IsString :: "'d cJSON option \<Rightarrow> bool" where
  "cJSON_IsString item = has_kind cJSON_String item"

definition cJSON_IsArray :: "'d cJSON option \<Rightarrow> bool" where
  "cJSON_IsArray item = has_kind cJSON_Array item"

definition cJSON_IsObject :: "'d cJSON option \<Rightarrow> bool" where
  "cJSON_IsObject item = has_kind cJSON_Object item"

definition cJSON_IsRaw :: "'d cJSON option \<Rightarrow> bool" where
  "cJSON_IsRaw item = has_kind cJSON_Raw item"

end
