(* ===== verification/Cjson_Print.thy ===== *)
theory Cjson_Print
  imports Cjson_Data
begin

text \<open>
  The printer of the JSON library (\<^verbatim>\<open>src/src/cJSON.cc\<close>): the growing output buffer with its
  explicit reservations, and the renderers that write through raw pointers into it.  A renderer
  returns \<open>None\<close> for a write outside the buffer, \<open>Some (False, p)\<close> for its error return and
  \<open>Some (True, p)\<close> for success.
\<close>

section \<open>The buffer\<close>

text \<open>
  \<open>allocate r n\<close> is the content of a new block of \<open>n\<close> bytes, or \<open>None\<close> when there is no memory.  One
  print asks for its first block, then for larger and larger ones, and at the end for the block it
  returns; \<open>r\<close> tells these requests apart where their sizes agree, so that every pattern of failures is
  an instance.  \<open>realloc\<close> keeps the old bytes and takes the rest of the new ones from the new block.
\<close>

datatype request = First_block | Larger_block | Final_block

record internal_hooks =
  allocate :: "request \<Rightarrow> nat \<Rightarrow> bytes option"
  has_reallocate :: bool

definition reallocate :: "internal_hooks \<Rightarrow> request \<Rightarrow> bytes \<Rightarrow> nat \<Rightarrow> bytes option" where
  "reallocate hooks r old n = map_option (\<lambda>new. take n old @ drop (length old) new) (allocate hooks r n)"

record printbuffer =
  pb_buffer :: "bytes option"
  pb_length :: nat
  pb_offset :: nat
  pb_depth :: nat
  pb_noalloc :: bool
  pb_format :: bool
  pb_hooks :: internal_hooks
  pb_freed :: bool

type_synonym printing = "(bool \<times> printbuffer) option"

definition INT_LIMIT :: nat where "INT_LIMIT = 2147483647"

definition new_size :: "nat \<Rightarrow> nat option" where
  "new_size needed = (if INT_LIMIT div 2 < needed
     then if needed \<le> INT_LIMIT then Some INT_LIMIT else None
     else Some (needed * 2))"

definition no_buffer :: "printbuffer \<Rightarrow> printbuffer" where
  "no_buffer p = p\<lparr>pb_length := 0, pb_buffer := None\<rparr>"

text \<open>\<open>deallocate\<close> of a block that has been freed before is undefined.\<close>

definition deallocate :: "printbuffer \<Rightarrow> printbuffer option" where
  "deallocate p = (if pb_freed p then None else Some (p\<lparr>pb_freed := True\<rparr>))"

text \<open>\<open>True\<close> stands for the pointer to \<open>buffer + offset\<close>, \<open>False\<close> for \<open>NULL\<close>.\<close>

definition ensure :: "printbuffer \<Rightarrow> nat \<Rightarrow> printing" where
  "ensure p needed = (case pb_buffer p of
     None \<Rightarrow> Some (False, p)
   | Some buffer \<Rightarrow>
       if 0 < pb_length p \<and> pb_length p \<le> pb_offset p then Some (False, p)
       else if INT_LIMIT < needed then Some (False, p)
       else let needed = needed + pb_offset p + 1 in
         if needed \<le> pb_length p then Some (True, p)
         else if pb_noalloc p then Some (False, p)
         else case new_size needed of
           None \<Rightarrow> Some (False, p)
         | Some newsize \<Rightarrow>
             if has_reallocate (pb_hooks p) then
               (case reallocate (pb_hooks p) Larger_block buffer newsize of
                  None \<Rightarrow> Some (False, no_buffer p)
                | Some new \<Rightarrow> Some (True, p\<lparr>pb_length := newsize, pb_buffer := Some new\<rparr>))
             else
               (case allocate (pb_hooks p) Larger_block newsize of
                  None \<Rightarrow> Some (False, no_buffer p)
                | Some new \<Rightarrow>
                    map_option (\<lambda>new. (True, p\<lparr>pb_length := newsize, pb_buffer := Some new\<rparr>))
                      (memcpy new 0 buffer 0 (pb_offset p + 1))))"

text \<open>What a renderer does after a call that reports success; an error is passed on.\<close>

definition on_success :: "printing \<Rightarrow> (printbuffer \<Rightarrow> printing) \<Rightarrow> printing" where
  "on_success m f = (case m of
     None \<Rightarrow> None
   | Some (False, p) \<Rightarrow> Some (False, p)
   | Some (True, p) \<Rightarrow> f p)"

text \<open>A write at the pointer that \<open>ensure\<close> returned.\<close>

definition emit :: "bytes \<Rightarrow> printbuffer \<Rightarrow> printbuffer option" where
  "emit xs p = do {
     buffer \<leftarrow> pb_buffer p;
     buffer \<leftarrow> put_bytes (pb_offset p) xs buffer;
     Some (p\<lparr>pb_buffer := Some buffer\<rparr>) }"

definition advance :: "nat \<Rightarrow> printbuffer \<Rightarrow> printbuffer" where
  "advance n p = p\<lparr>pb_offset := pb_offset p + n\<rparr>"

text \<open>\<open>strlen\<close> runs to a NUL inside the allocated block.\<close>

definition strlen_at :: "nat \<Rightarrow> bytes \<Rightarrow> nat option" where
  "strlen_at i xs = (if NUL \<in> set (drop i xs) then Some (length (c_str (drop i xs))) else None)"

definition update_offset :: "printbuffer \<Rightarrow> printbuffer option" where
  "update_offset p = (case pb_buffer p of
     None \<Rightarrow> Some p
   | Some buffer \<Rightarrow> map_option (\<lambda>n. advance n p) (strlen_at (pb_offset p) buffer))"

section \<open>Numbers\<close>

definition number_text :: "('d, 'e) libc_double_scheme \<Rightarrow> 'd \<Rightarrow> bytes" where
  "number_text dbl d =
     (if d_nonfinite dbl d then s2b ''null''
      else let t = d_g15 dbl d in
        case d_scan dbl t of
          None \<Rightarrow> d_g17 dbl d
        | Some test \<Rightarrow> if d_eq dbl test d then t else d_g17 dbl d)"

text \<open>The temporary array has 26 bytes; the decimal point of the locale is the full stop.\<close>

definition print_number :: "('d, 'e) libc_double_scheme \<Rightarrow> 'd cJSON \<Rightarrow> printbuffer \<Rightarrow> printing" where
  "print_number dbl item output_buffer =
     (let number_buffer = number_text dbl (i_valuedouble item); len = length number_buffer in
      if 26 < len + 1 then None
      else on_success (ensure output_buffer len) (\<lambda>p.
        map_option (\<lambda>p. (True, advance len p))
          (emit (map (\<lambda>c. if c = 46 then 46 else c) number_buffer @ [NUL]) p)))"

section \<open>Strings\<close>

definition one_char_escape :: "byte \<Rightarrow> byte option" where
  "one_char_escape c =
     (if c = 92 then Some 92 else if c = 34 then Some 34 else if c = 8 then Some 98
      else if c = 12 then Some 102 else if c = 10 then Some 110 else if c = 13 then Some 114
      else if c = 9 then Some 116 else None)"

definition escape_cost :: "byte \<Rightarrow> nat" where
  "escape_cost c = (if one_char_escape c \<noteq> None then 1 else if c < 32 then 5 else 0)"

definition hex_lower :: "nat \<Rightarrow> byte" where
  "hex_lower n = (if n < 10 then word_of_nat (48 + n) else word_of_nat (87 + n))"

text \<open>\<open>sprintf\<close> under \<open>u%04x\<close> with its terminator.\<close>

definition u04x :: "byte \<Rightarrow> bytes" where
  "u04x c = [117, 48, 48, hex_lower (unat c div 16), hex_lower (unat c mod 16), NUL]"

text \<open>The copying loop: \<open>i\<close> is \<open>output_pointer\<close>.\<close>

fun escape_loop :: "bytes \<Rightarrow> nat \<Rightarrow> bytes \<Rightarrow> bytes option" where
  "escape_loop [] i out = Some out"
| "escape_loop (c # cs) i out =
     (if 31 < c \<and> c \<noteq> 34 \<and> c \<noteq> 92 then do {
        out \<leftarrow> put_byte i c out;
        escape_loop cs (i + 1) out }
      else do {
        out \<leftarrow> put_byte i 92 out;
        case one_char_escape c of
          Some e \<Rightarrow> do {
            out \<leftarrow> put_byte (i + 1) e out;
            escape_loop cs (i + 2) out }
        | None \<Rightarrow> do {
            out \<leftarrow> put_bytes (i + 1) (u04x c) out;
            escape_loop cs (i + 6) out } })"

definition print_string_ptr :: "bytes option \<Rightarrow> printbuffer \<Rightarrow> printing" where
  "print_string_ptr input output_buffer = (case input of
     None \<Rightarrow> on_success (ensure output_buffer 3) (\<lambda>p. map_option (Pair True) (emit [34, 34, NUL] p))
   | Some s \<Rightarrow>
       let escape_characters = sum_list (map escape_cost s);
           output_length = length s + escape_characters
       in on_success (ensure output_buffer (output_length + 3)) (\<lambda>p.
            if escape_characters = 0 then do {
              p \<leftarrow> emit (34 # s @ [34, NUL]) p;
              Some (True, p) }
            else do {
              out \<leftarrow> pb_buffer p;
              let o0 = pb_offset p;
              out \<leftarrow> put_byte o0 34 out;
              out \<leftarrow> escape_loop s (o0 + 1) out;
              out \<leftarrow> put_byte (o0 + output_length + 1) 34 out;
              out \<leftarrow> put_byte (o0 + output_length + 2) NUL out;
              Some (True, p\<lparr>pb_buffer := Some out\<rparr>) }))"

definition print_string :: "'d cJSON \<Rightarrow> printbuffer \<Rightarrow> printing" where
  "print_string item p = print_string_ptr (i_valuestring item) p"

section \<open>Values\<close>

text \<open>\<open>ensure\<close>, a write with its terminator, and an advance past the text.\<close>

definition write_text :: "nat \<Rightarrow> bytes \<Rightarrow> nat \<Rightarrow> printbuffer \<Rightarrow> printing" where
  "write_text needed xs n p =
     on_success (ensure p needed) (\<lambda>p. map_option (\<lambda>p. (True, advance n p)) (emit xs p))"

definition deeper :: "printbuffer \<Rightarrow> printbuffer" where
  "deeper p = p\<lparr>pb_depth := pb_depth p + 1\<rparr>"

definition shallower :: "printbuffer \<Rightarrow> printbuffer" where
  "shallower p = p\<lparr>pb_depth := pb_depth p - 1\<rparr>"

definition then_offset :: "printing \<Rightarrow> (printbuffer \<Rightarrow> printing) \<Rightarrow> printing" where
  "then_offset m f = on_success m (\<lambda>p. do { p \<leftarrow> update_offset p; f p })"

definition print_raw :: "'d cJSON \<Rightarrow> printbuffer \<Rightarrow> printing" where
  "print_raw item p = (case i_valuestring item of
     None \<Rightarrow> if pb_noalloc p then Some (False, p) else map_option (Pair False) (deallocate p)
   | Some s \<Rightarrow> write_text (length s + 1) (s @ [NUL]) 0 p)"

fun print_value :: "('d, 'e) libc_double_scheme \<Rightarrow> 'd cJSON \<Rightarrow> printbuffer \<Rightarrow> printing"
  and print_elements :: "('d, 'e) libc_double_scheme \<Rightarrow> 'd cJSON list \<Rightarrow> printbuffer \<Rightarrow> printing"
  and print_members :: "('d, 'e) libc_double_scheme \<Rightarrow> 'd cJSON list \<Rightarrow> printbuffer \<Rightarrow> printing"
where
  "print_value dbl (Item ty vs vi vd str ch) p =
     (let item = Item ty vs vi vd str ch; k = ty AND 0xFF in
      if k = cJSON_NULL then write_text 5 (s2b ''null'' @ [NUL]) 0 p
      else if k = cJSON_False then write_text 6 (s2b ''false'' @ [NUL]) 0 p
      else if k = cJSON_True then write_text 5 (s2b ''true'' @ [NUL]) 0 p
      else if k = cJSON_Number then print_number dbl item p
      else if k = cJSON_Raw then print_raw item p
      else if k = cJSON_String then print_string item p
      else if k = cJSON_Array then
        on_success (write_text 1 [91] 1 p) (\<lambda>p.
          on_success (print_elements dbl ch (deeper p)) (\<lambda>p.
            map_option (map_prod id shallower) (write_text 2 [93, NUL] 0 p)))
      else if k = cJSON_Object then
        on_success (let n = (if pb_format p then 2 else 1) in
            write_text (n + 1) (if pb_format p then [123, 10] else [123]) n p) (\<lambda>p.
          on_success (print_members dbl ch (deeper p)) (\<lambda>p.
            map_option (map_prod id shallower)
              (write_text (if pb_format p then pb_depth p + 1 else 2)
                ((if pb_format p then replicate (pb_depth p - 1) 9 else []) @ [125, NUL]) 0 p)))
      else Some (False, p))"
| "print_elements dbl [] p = Some (True, p)"
| "print_elements dbl (c # cs) p =
     then_offset (print_value dbl c p) (\<lambda>p.
       on_success (if cs = [] then Some (True, p)
           else let n = (if pb_format p then 2 else 1) in
             write_text (n + 1) (if pb_format p then [44, 32, NUL] else [44, NUL]) n p)
         (\<lambda>p. print_elements dbl cs p))"
| "print_members dbl [] p = Some (True, p)"
| "print_members dbl (c # cs) p =
     on_success (if pb_format p then write_text (pb_depth p) (replicate (pb_depth p) 9) (pb_depth p) p
         else Some (True, p)) (\<lambda>p.
       then_offset (print_string_ptr (i_string c) p) (\<lambda>p.
         on_success (let n = (if pb_format p then 2 else 1) in
             write_text n (if pb_format p then [58, 9] else [58]) n p) (\<lambda>p.
           then_offset (print_value dbl c p) (\<lambda>p.
             on_success (let n = (if pb_format p then 1 else 0) + (if cs \<noteq> [] then 1 else 0) in
                 write_text (n + 1) ((if cs \<noteq> [] then [44] else []) @ (if pb_format p then [10] else []) @ [NUL]) n p)
               (\<lambda>p. print_members dbl cs p)))))"

declare print_value.simps [simp del]

section \<open>Printing a whole item\<close>

text \<open>The result is the returned block, or \<open>Some None\<close> for \<open>NULL\<close>.\<close>

definition print_fail :: "printbuffer \<Rightarrow> bytes option option" where
  "print_fail p = (if pb_buffer p = None then Some None else map_option (\<lambda>_. None) (deallocate p))"

definition print ::
  "('d, 'e) libc_double_scheme \<Rightarrow> 'd cJSON option \<Rightarrow> bool \<Rightarrow> internal_hooks \<Rightarrow> bytes option option" where
  "print dbl item format hooks = (case allocate hooks First_block 256 of
     None \<Rightarrow> Some None
   | Some block \<Rightarrow>
       let p = \<lparr>pb_buffer = Some block, pb_length = 0, pb_offset = 0, pb_depth = 0, pb_noalloc = False,
                 pb_format = format, pb_hooks = hooks, pb_freed = False\<rparr>
       in case (case item of None \<Rightarrow> Some (False, p) | Some it \<Rightarrow> print_value dbl it p) of
            None \<Rightarrow> None
          | Some (False, p) \<Rightarrow> print_fail p
          | Some (True, p) \<Rightarrow> do {
              p \<leftarrow> update_offset p;
              buffer \<leftarrow> pb_buffer p;
              if has_reallocate hooks then Some (reallocate hooks Final_block buffer (pb_length p))
              else (case allocate hooks Final_block (pb_offset p + 1) of
                  None \<Rightarrow> print_fail p
                | Some printed \<Rightarrow> do {
                    printed \<leftarrow> memcpy printed 0 buffer 0 (min (pb_length p) (pb_offset p + 1));
                    printed \<leftarrow> put_byte (pb_offset p) NUL printed;
                    Some (Some printed) }) })"

definition cJSON_Print ::
  "('d, 'e) libc_double_scheme \<Rightarrow> internal_hooks \<Rightarrow> 'd cJSON option \<Rightarrow> bytes option option" where
  "cJSON_Print dbl global_hooks item = print dbl item True global_hooks"

definition cJSON_PrintUnformatted ::
  "('d, 'e) libc_double_scheme \<Rightarrow> internal_hooks \<Rightarrow> 'd cJSON option \<Rightarrow> bytes option option" where
  "cJSON_PrintUnformatted dbl global_hooks item = print dbl item False global_hooks"

definition cJSON_PrintBuffered ::
  "('d, 'e) libc_double_scheme \<Rightarrow> internal_hooks \<Rightarrow> 'd cJSON option \<Rightarrow> int \<Rightarrow> bool \<Rightarrow> bytes option option" where
  "cJSON_PrintBuffered dbl global_hooks item prebuffer fmt =
     (if prebuffer < 0 then Some None
      else case allocate global_hooks First_block (nat prebuffer) of
        None \<Rightarrow> Some None
      | Some block \<Rightarrow>
          let p = \<lparr>pb_buffer = Some block, pb_length = nat prebuffer, pb_offset = 0, pb_depth = 0,
                    pb_noalloc = False, pb_format = fmt, pb_hooks = global_hooks, pb_freed = False\<rparr>
          in case (case item of None \<Rightarrow> Some (False, p) | Some it \<Rightarrow> print_value dbl it p) of
               None \<Rightarrow> None
             | Some (False, p) \<Rightarrow> print_fail p
             | Some (True, p) \<Rightarrow> Some (pb_buffer p))"

text \<open>The caller's array and whether the text fitted.\<close>

definition cJSON_PrintPreallocated ::
  "('d, 'e) libc_double_scheme \<Rightarrow> internal_hooks \<Rightarrow> 'd cJSON option \<Rightarrow> bytes option \<Rightarrow> int \<Rightarrow> bool \<Rightarrow>
   (bool \<times> bytes option) option" where
  "cJSON_PrintPreallocated dbl global_hooks item buf len fmt =
     (if len < 0 \<or> buf = None then Some (False, buf)
      else let p = \<lparr>pb_buffer = buf, pb_length = nat len, pb_offset = 0, pb_depth = 0,
                    pb_noalloc = True, pb_format = fmt, pb_hooks = global_hooks, pb_freed = False\<rparr>
        in map_option (map_prod id pb_buffer)
             (case item of None \<Rightarrow> Some (False, p) | Some it \<Rightarrow> print_value dbl it p))"

end
