(* ===== verification/Cjson_Text.thy ===== *)
theory Cjson_Text
  imports Cjson_Print
begin

text \<open>
  What the printer writes, as a text function over item trees without buffers, offsets or
  reservations, and the proof that the printer of \<^verbatim>\<open>src/src/cJSON.cc\<close> implements it: every
  write stays inside the block, the block then holds the text and its terminator, and the printer
  gives up only when the item has no text or there is no room.
\<close>

section \<open>Texts\<close>

definition escape :: "byte \<Rightarrow> bytes" where
  "escape c = (if 31 < c \<and> c \<noteq> 34 \<and> c \<noteq> 92 then [c]
     else 92 # (case one_char_escape c of Some e \<Rightarrow> [e] | None \<Rightarrow> butlast (u04x c)))"

definition string_text :: "bytes option \<Rightarrow> bytes" where
  "string_text s = 34 # concat (map escape (case s of None \<Rightarrow> [] | Some t \<Rightarrow> t)) @ [34]"

definition join :: "bytes option \<Rightarrow> bytes option \<Rightarrow> bytes option" where
  "join s t = do { xs \<leftarrow> s; ys \<leftarrow> t; Some (xs @ ys) }"

fun json_text :: "('d, 'e) libc_double_scheme \<Rightarrow> bool \<Rightarrow> nat \<Rightarrow> 'd cJSON \<Rightarrow> bytes option"
  and elements_text :: "('d, 'e) libc_double_scheme \<Rightarrow> bool \<Rightarrow> nat \<Rightarrow> 'd cJSON list \<Rightarrow> bytes option"
  and members_text :: "('d, 'e) libc_double_scheme \<Rightarrow> bool \<Rightarrow> nat \<Rightarrow> 'd cJSON list \<Rightarrow> bytes option"
where
  "json_text dbl fmt depth (Item ty vs vi vd str ch) =
     (let k = ty AND 0xFF in
      if k = cJSON_NULL then Some (s2b ''null'')
      else if k = cJSON_False then Some (s2b ''false'')
      else if k = cJSON_True then Some (s2b ''true'')
      else if k = cJSON_Number then Some (number_text dbl vd)
      else if k = cJSON_Raw then vs
      else if k = cJSON_String then Some (string_text vs)
      else if k = cJSON_Array then
        join (Some [91]) (join (elements_text dbl fmt (depth + 1) ch) (Some [93]))
      else if k = cJSON_Object then
        join (Some (if fmt then [123, 10] else [123]))
          (join (members_text dbl fmt (depth + 1) ch)
             (Some ((if fmt then replicate depth 9 else []) @ [125])))
      else None)"
| "elements_text dbl fmt depth [] = Some []"
| "elements_text dbl fmt depth (c # cs) =
     join (json_text dbl fmt depth c)
       (join (Some (if cs = [] then [] else if fmt then [44, 32] else [44]))
         (elements_text dbl fmt depth cs))"
| "members_text dbl fmt depth [] = Some []"
| "members_text dbl fmt depth (c # cs) =
     join (Some (if fmt then replicate depth 9 else []))
       (join (Some (string_text (i_string c)))
         (join (Some (if fmt then [58, 9] else [58]))
           (join (json_text dbl fmt depth c)
             (join (Some ((if cs \<noteq> [] then [44] else []) @ (if fmt then [10] else [])))
               (members_text dbl fmt depth cs)))))"

declare json_text.simps [simp del]

text \<open>Strings are C strings, and the C library's number texts fit the array of \<open>print_number\<close>.\<close>

fun c_strings :: "'d cJSON \<Rightarrow> bool" where
  "c_strings (Item ty vs vi vd str ch) \<longleftrightarrow>
     (\<forall>s. vs = Some s \<longrightarrow> NUL \<notin> set s) \<and> (\<forall>s. str = Some s \<longrightarrow> NUL \<notin> set s) \<and> (\<forall>c \<in> set ch. c_strings c)"

definition libc_g :: "('d, 'e) libc_double_scheme \<Rightarrow> bool" where
  "libc_g dbl \<longleftrightarrow> (\<forall>d. length (number_text dbl d) \<le> 25 \<and> NUL \<notin> set (number_text dbl d))"

lemma join_Some [simp]: "join (Some xs) (Some ys) = Some (xs @ ys)"
  by (simp add: join_def)

lemma join_eq_Some: "join s t = Some zs \<longleftrightarrow> (\<exists>xs ys. s = Some xs \<and> t = Some ys \<and> zs = xs @ ys)"
  by (cases s; cases t) (auto simp: join_def)

lemma join_None [simp]: "join None t = None" "join s None = None"
  by (cases s; simp add: join_def)+

lemma join_assoc: "join (join r s) t = join r (join s t)"
  by (cases r; cases s; cases t) simp_all

lemma join_Nil [simp]: "join (Some []) s = s" "join s (Some []) = s"
  by (cases s; simp add: join_def)+

lemma hex_lower_range: "n < 16 \<Longrightarrow> 48 \<le> hex_lower n \<and> hex_lower n \<le> 102"
  by (simp add: hex_lower_def word_le_nat_alt unat_of_nat take_bit_nat_eq_self del: of_nat_add)

lemma hex_lower_nonzero: "n < 16 \<Longrightarrow> hex_lower n \<noteq> 0"
  using hex_lower_range [of n] by fastforce

lemma escape_nonzero: "c \<noteq> NUL \<Longrightarrow> NUL \<notin> set (escape c)"
  using hex_lower_nonzero [of "unat c div 16"] hex_lower_nonzero [of "unat c mod 16"] byte_less [of c]
  by (auto simp: escape_def one_char_escape_def u04x_def)

lemma string_text_nonzero: "(\<forall>t. s = Some t \<longrightarrow> NUL \<notin> set t) \<Longrightarrow> NUL \<notin> set (string_text s)"
  by (cases s) (auto simp: string_text_def, metis escape_nonzero)

lemma text_nonzero:
  assumes "libc_g dbl"
  shows "json_text dbl fmt depth item = Some t \<Longrightarrow> c_strings item \<Longrightarrow> NUL \<notin> set t"
    and "elements_text dbl fmt depth ch = Some t \<Longrightarrow> (\<forall>c \<in> set ch. c_strings c) \<Longrightarrow> NUL \<notin> set t"
    and "members_text dbl fmt depth ch = Some t \<Longrightarrow> (\<forall>c \<in> set ch. c_strings c) \<Longrightarrow> NUL \<notin> set t"
  using assms
proof (induction dbl fmt depth item and dbl fmt depth ch and dbl fmt depth ch arbitrary: t and t and t
    rule: json_text_elements_text_members_text.induct)
  case (1 dbl fmt depth ty vs vi vd str ch)
  moreover have "NUL \<notin> set (number_text dbl vd)"
    using 1(5) by (simp add: libc_g_def)
  ultimately show ?case
    using string_text_nonzero [of vs]
    by (auto simp: json_text.simps Let_def join_eq_Some split: if_splits)
next
  case (3 dbl fmt depth c cs)
  then show ?case
    by (auto simp: join_eq_Some split: if_splits)
next
  case (5 dbl fmt depth c cs)
  then show ?case
    using string_text_nonzero [of "i_string c"]
    by (cases c) (auto simp: join_eq_Some split: if_splits)
qed simp_all


section \<open>States of the buffer\<close>

definition hooks_ok :: "internal_hooks \<Rightarrow> bool" where
  "hooks_ok hooks \<longleftrightarrow> (\<forall>r n xs. allocate hooks r n = Some xs \<longrightarrow> length xs = n)"

definition memory_left :: "internal_hooks \<Rightarrow> bool" where
  "memory_left hooks \<longleftrightarrow> (\<forall>r n. allocate hooks r n \<noteq> None)"

definition pb_inv :: "printbuffer \<Rightarrow> bool" where
  "pb_inv p \<longleftrightarrow> (\<exists>b. pb_buffer p = Some b \<and> pb_length p \<le> length b \<and> pb_offset p \<le> length b \<and>
     (pb_length p = 0 \<or> pb_offset p < pb_length p) \<and>
     (pb_noalloc p \<or> has_reallocate (pb_hooks p) \<or> pb_offset p < length b)) \<and>
     hooks_ok (pb_hooks p) \<and> \<not> pb_freed p"

text \<open>What no renderer changes, and the block kept up to the old offset.\<close>

definition same_job :: "printbuffer \<Rightarrow> printbuffer \<Rightarrow> bool" where
  "same_job p p' \<longleftrightarrow> pb_depth p' = pb_depth p \<and> pb_noalloc p' = pb_noalloc p \<and> pb_format p' = pb_format p \<and>
     pb_hooks p' = pb_hooks p \<and> pb_freed p' = pb_freed p \<and> pb_length p \<le> pb_length p' \<and>
     (pb_noalloc p \<longrightarrow> pb_length p' = pb_length p)"

text \<open>\<open>n\<close> more bytes of \<open>t\<close> stand from the old offset on; \<open>appended\<close> is past them.\<close>

definition holds :: "printbuffer \<Rightarrow> bytes \<Rightarrow> printbuffer \<Rightarrow> bool" where
  "holds p t p' \<longleftrightarrow> (\<exists>b b'. pb_buffer p = Some b \<and> pb_buffer p' = Some b' \<and>
     take (pb_offset p + length t) b' = take (pb_offset p) b @ t \<and>
     pb_offset p + length t < pb_length p' \<and> pb_length p' \<le> length b')"

definition appended :: "printbuffer \<Rightarrow> bytes \<Rightarrow> printbuffer \<Rightarrow> bool" where
  "appended p t p' \<longleftrightarrow> holds p t p' \<and> same_job p p' \<and> pb_offset p' = pb_offset p + length t"

definition printed :: "printbuffer \<Rightarrow> bytes \<Rightarrow> printbuffer \<Rightarrow> bool" where
  "printed p t p' \<longleftrightarrow> holds p t p' \<and> (\<forall>b'. pb_buffer p' = Some b' \<longrightarrow> b' ! (pb_offset p + length t) = NUL) \<and>
     same_job p p' \<and> pb_offset p \<le> pb_offset p' \<and> pb_offset p' \<le> pb_offset p + length t"

text \<open>Room for \<open>n\<close> bytes and the four the reservations ask for on top.\<close>

definition roomy :: "printbuffer \<Rightarrow> nat \<Rightarrow> bool" where
  "roomy p n \<longleftrightarrow> pb_offset p + n + 4 \<le> INT_LIMIT \<and>
     (if pb_noalloc p then pb_offset p + n + 4 \<le> pb_length p else memory_left (pb_hooks p))"

definition outcome ::
  "(printbuffer \<Rightarrow> bytes \<Rightarrow> printbuffer \<Rightarrow> bool) \<Rightarrow> printing \<Rightarrow> printbuffer \<Rightarrow> bytes option \<Rightarrow> bool" where
  "outcome R m p t \<longleftrightarrow> (\<exists>r p'. m = Some (r, p') \<and>
     (if r then \<exists>xs. t = Some xs \<and> R p xs p' else \<forall>xs. t = Some xs \<longrightarrow> \<not> roomy p (length xs) \<and> \<not> pb_freed p'))"

lemma appended_inv: "appended p t p' \<Longrightarrow> pb_inv p \<Longrightarrow> pb_inv p'"
  by (auto simp: appended_def holds_def same_job_def pb_inv_def)

lemma appended_trans:
  assumes "appended p s p'" "appended p' t p''"
  shows "appended p (s @ t) p''"
  using assms by (auto simp: appended_def holds_def same_job_def add.assoc)

lemma printed_after:
  assumes "appended p s p'" "printed p' t p''"
  shows "printed p (s @ t) p''"
  using assms by (auto simp: appended_def printed_def holds_def same_job_def add.assoc)

lemma printed_offset:
  assumes "printed p t p'" "NUL \<notin> set t"
  shows "\<exists>p''. update_offset p' = Some p'' \<and> appended p t p''"
proof -
  obtain b b' where b: "pb_buffer p = Some b" "pb_buffer p' = Some b'"
      "take (pb_offset p + length t) b' = take (pb_offset p) b @ t"
      "pb_offset p + length t < pb_length p'" "pb_length p' \<le> length b'"
      "b' ! (pb_offset p + length t) = NUL"
    using assms(1) by (auto simp: printed_def holds_def)
  define k where "k = pb_offset p' - pb_offset p"
  have k: "k \<le> length t" "pb_offset p' = pb_offset p + k"
    using assms(1) by (auto simp: k_def printed_def)
  have "length (take (pb_offset p) b) = pb_offset p"
    using arg_cong [OF b(3), of length] b(4,5) by simp
  moreover define rest where "rest = NUL # drop (Suc (pb_offset p + length t)) b'"
  moreover have "b' = take (pb_offset p) b @ t @ rest"
    using id_take_nth_drop [of "pb_offset p + length t" b'] b(3-6) by (simp add: rest_def)
  from arg_cong [OF this, of "drop (pb_offset p')"]
  have "drop (pb_offset p') b' = drop k t @ rest"
    using k \<open>length (take (pb_offset p) b) = pb_offset p\<close> by simp
  moreover have "NUL \<notin> set (drop k t)"
    using assms(2) by (meson in_set_dropD)
  ultimately have "strlen_at (pb_offset p') b' = Some (length t - k)"
    using k(1) by (simp add: strlen_at_def c_str_stop rest_def)
  then have "update_offset p' = Some (advance (length t - k) p')"
    by (simp add: update_offset_def b(2))
  moreover have "appended p t (advance (length t - k) p')"
    using assms(1) k by (auto simp: appended_def printed_def holds_def same_job_def advance_def)
  ultimately show ?thesis
    by blast
qed

lemma ensure_spec:
  assumes inv: "pb_inv p" and n: "n \<le> m + 3"
  shows "\<exists>r p'. ensure p n = Some (r, p') \<and>
    (if r then appended p [] p' \<and> pb_offset p + n < pb_length p' else \<not> roomy p m \<and> \<not> pb_freed p')"
proof -
  obtain b where b: "pb_buffer p = Some b" "pb_length p \<le> length b" "pb_offset p \<le> length b"
      "pb_length p = 0 \<or> pb_offset p < pb_length p"
      "pb_noalloc p \<or> has_reallocate (pb_hooks p) \<or> pb_offset p < length b" "hooks_ok (pb_hooks p)" "\<not> pb_freed p"
    using inv by (auto simp: pb_inv_def)
  define k where "k = n + pb_offset p + 1"
  have fits: "k \<le> INT_LIMIT \<and> \<not> INT_LIMIT < n" if "roomy p m"
    using that n by (auto simp: roomy_def k_def split: if_splits)
  consider (big) "INT_LIMIT < n" | (there) "\<not> INT_LIMIT < n" "k \<le> pb_length p"
    | (fixed) "\<not> INT_LIMIT < n" "\<not> k \<le> pb_length p" "pb_noalloc p"
    | (grow) "\<not> INT_LIMIT < n" "\<not> k \<le> pb_length p" "\<not> pb_noalloc p"
    by blast
  then show ?thesis
  proof cases
    case big
    then show ?thesis
      using fits b by (auto simp: ensure_def)
  next
    case there
    then show ?thesis
      using b by (auto simp: ensure_def Let_def k_def appended_def holds_def same_job_def)
  next
    case fixed
    then show ?thesis
      using b n by (auto simp: ensure_def Let_def k_def roomy_def)
  next
    case grow
    show ?thesis
    proof (cases "new_size k")
      case None
      then have "\<not> roomy p m"
        using fits by (auto simp: new_size_def split: if_splits)
      then show ?thesis
        using grow b None by (auto simp: ensure_def Let_def k_def)
    next
      case (Some newsize)
      then have k: "k \<le> newsize"
        by (auto simp: new_size_def split: if_splits)
      show ?thesis
      proof (cases "allocate (pb_hooks p) Larger_block newsize")
        case None
        then have "\<not> roomy p m"
          using grow by (auto simp: roomy_def memory_left_def)
        then show ?thesis
          using grow b Some None by (auto simp: ensure_def Let_def k_def reallocate_def no_buffer_def)
      next
        case (Some new)
        then have len: "length new = newsize"
          using b(6) by (auto simp: hooks_ok_def)
        define new' where "new' = (if has_reallocate (pb_hooks p) then take newsize b @ drop (length b) new
          else take (pb_offset p + 1) b @ drop (pb_offset p + 1) new)"
        have off: "pb_offset p + n < newsize"
          using k by (simp add: k_def)
        have new': "length new' = newsize" "take (pb_offset p) new' = take (pb_offset p) b"
          using len b(3,5) grow(3) off by (auto simp: new'_def min_def)
        have "memcpy new 0 b 0 (pb_offset p + 1) = Some new'" if "\<not> has_reallocate (pb_hooks p)"
          using that grow(3) b(5) len off by (auto simp: new'_def memcpy_def slice_def put_bytes_def)
        then have "ensure p n = Some (True, p\<lparr>pb_length := newsize, pb_buffer := Some new'\<rparr>)"
          using grow b(1,4) \<open>new_size k = Some newsize\<close> Some
          by (cases "has_reallocate (pb_hooks p)") (auto simp: ensure_def Let_def k_def reallocate_def new'_def)
        moreover have "appended p [] (p\<lparr>pb_length := newsize, pb_buffer := Some new'\<rparr>)"
          using new' off grow(2,3) k b(1) by (auto simp: appended_def holds_def same_job_def)
        ultimately show ?thesis
          using off by auto
      qed
    qed
  qed
qed

lemma appended_emit:
  assumes "appended p [] p'" "pb_offset p + length xs \<le> pb_length p'" "n \<le> length xs" "pb_offset p + n < pb_length p'"
  shows "\<exists>p''. emit xs p' = Some p'' \<and> appended p (take n xs) (advance n p'') \<and>
    pb_offset p'' = pb_offset p \<and> (\<forall>b. pb_buffer p'' = Some b \<longrightarrow> n < length xs \<longrightarrow> b ! (pb_offset p + n) = xs ! n)"
proof -
  obtain b b' where b: "pb_buffer p = Some b" "pb_buffer p' = Some b'" "take (pb_offset p) b' = take (pb_offset p) b"
      "pb_length p' \<le> length b'" "pb_offset p' = pb_offset p" "same_job p p'"
    using assms(1) by (auto simp: appended_def holds_def)
  have off: "pb_offset p < length b'"
    using assms(4) b(4) by simp
  define b'' where "b'' = take (pb_offset p) b' @ xs @ drop (pb_offset p + length xs) b'"
  have "emit xs p' = Some (p'\<lparr>pb_buffer := Some b''\<rparr>)"
    using b assms(2) by (simp add: emit_def put_bytes_def b''_def)
  moreover have "take (pb_offset p + n) b'' = take (pb_offset p) b @ take n xs" "length b'' = length b'"
    using b assms(2,3) off by (auto simp: b''_def min_def)
  moreover have "b'' ! (pb_offset p + n) = xs ! n" if "n < length xs"
    using that off by (simp add: b''_def nth_append)
  ultimately show ?thesis
    using b assms(2-4) by (auto simp: appended_def holds_def same_job_def advance_def)
qed

lemma outcome_fail: "\<not> roomy p n \<Longrightarrow> n \<le> k \<Longrightarrow> \<not> roomy p k"
  by (auto simp: roomy_def split: if_splits)

lemma write_text_appends:
  assumes "pb_inv p" "length xs \<le> needed + 1" "n \<le> length xs" "n \<le> needed" "needed \<le> n + 3"
  shows "outcome appended (write_text needed xs n p) p (Some (take n xs))"
proof -
  obtain r p' where e: "ensure p needed = Some (r, p')"
      "if r then appended p [] p' \<and> pb_offset p + needed < pb_length p' else \<not> roomy p n \<and> \<not> pb_freed p'"
    using ensure_spec [OF assms(1), of needed n] assms(5) by blast
  show ?thesis
  proof (cases r)
    case True
    then show ?thesis
      using e appended_emit [of p p' xs n] assms by (auto simp: write_text_def on_success_def outcome_def)
  next
    case False
    then show ?thesis
      using e assms(3) by (auto simp: write_text_def on_success_def outcome_def min_def)
  qed
qed

lemma printed_of_appended:
  assumes "appended p t (advance (length t) p')" "pb_offset p' = pb_offset p"
    "\<forall>b. pb_buffer p' = Some b \<longrightarrow> b ! (pb_offset p + length t) = NUL"
  shows "printed p t p'"
  using assms by (auto simp: appended_def printed_def holds_def same_job_def advance_def)

lemma write_text_prints:
  assumes "pb_inv p" "length t \<le> needed" "needed \<le> length t + 3"
  shows "outcome printed (write_text needed (t @ [NUL]) 0 p) p (Some t)"
proof -
  obtain r p' where e: "ensure p needed = Some (r, p')"
      "if r then appended p [] p' \<and> pb_offset p + needed < pb_length p' else \<not> roomy p (length t) \<and> \<not> pb_freed p'"
    using ensure_spec [OF assms(1), of needed "length t"] assms(3) by blast
  show ?thesis
  proof (cases r)
    case True
    then obtain p'' where "emit (t @ [NUL]) p' = Some p''" "printed p t p''"
      using e appended_emit [of p p' "t @ [NUL]" "length t"] assms printed_of_appended [of p t]
      by (force simp: nth_append)
    then show ?thesis
      using e True by (auto simp: write_text_def on_success_def outcome_def advance_def)
  next
    case False
    then show ?thesis
      using e by (auto simp: write_text_def on_success_def outcome_def)
  qed
qed

text \<open>Composition: a renderer after bytes that are there.\<close>

lemma roomy_after: "appended p s p' \<Longrightarrow> \<not> roomy p' n \<Longrightarrow> \<not> roomy p (length s + n)"
  by (auto simp: roomy_def appended_def same_job_def split: if_splits)

lemma outcome_False:
  "(\<And>xs. t = Some xs \<Longrightarrow> \<not> roomy p (length xs) \<and> \<not> pb_freed p') \<Longrightarrow> outcome R (Some (False, p')) p t"
  unfolding outcome_def by (intro exI [of _ False] exI [of _ p']) simp

lemma outcome_True: "R p xs p' \<Longrightarrow> outcome R (Some (True, p')) p (Some xs)"
  unfolding outcome_def by (intro exI [of _ True] exI [of _ p']) simp

lemma outcome_then:
  assumes "outcome appended m p s" and trans: "\<And>x y p' p''. appended p x p' \<Longrightarrow> R p' y p'' \<Longrightarrow> R p (x @ y) p''"
    and next_: "\<And>xs p'. s = Some xs \<Longrightarrow> appended p xs p' \<Longrightarrow> outcome R (f p') p' t"
  shows "outcome R (on_success m f) p (join s t)"
proof -
  obtain r p' where m: "m = Some (r, p')"
      "if r then \<exists>xs. s = Some xs \<and> appended p xs p' else \<forall>xs. s = Some xs \<longrightarrow> \<not> roomy p (length xs) \<and> \<not> pb_freed p'"
    using assms(1) by (auto simp: outcome_def)
  show ?thesis
  proof (cases r)
    case True
    then obtain xs where xs: "s = Some xs" "appended p xs p'"
      using m(2) by auto
    from next_ [OF this] obtain r' p'' where f: "f p' = Some (r', p'')"
        "if r' then \<exists>ys. t = Some ys \<and> R p' ys p'' else \<forall>ys. t = Some ys \<longrightarrow> \<not> roomy p' (length ys) \<and> \<not> pb_freed p''"
      by (auto simp: outcome_def)
    then show ?thesis
      using True m(1) xs trans [OF xs(2)] roomy_after [OF xs(2)]
      by (cases r') (auto simp: outcome_def on_success_def join_eq_Some)
  next
    case False
    have "\<not> roomy p (length zs) \<and> \<not> pb_freed p'" if "join s t = Some zs" for zs
      using that m(2) False outcome_fail [of p _ "length zs"] by (auto simp: join_eq_Some)
    then show ?thesis
      using m(1) False outcome_False by (simp add: on_success_def)
  qed
qed

lemma outcome_offset:
  assumes "outcome printed m p s" "\<And>xs. s = Some xs \<Longrightarrow> NUL \<notin> set xs"
  shows "outcome appended (on_success m (\<lambda>p. map_option (Pair True) (update_offset p))) p s"
proof -
  obtain r p' where m: "m = Some (r, p')"
      "if r then \<exists>xs. s = Some xs \<and> printed p xs p' else \<forall>xs. s = Some xs \<longrightarrow> \<not> roomy p (length xs) \<and> \<not> pb_freed p'"
    using assms(1) by (auto simp: outcome_def)
  show ?thesis
  proof (cases r)
    case True
    then obtain xs where xs: "s = Some xs" "printed p xs p'"
      using m(2) by auto
    then show ?thesis
      using True m(1) printed_offset [OF xs(2) assms(2) [OF xs(1)]] by (auto simp: outcome_def on_success_def)
  next
    case False
    then show ?thesis
      using m by (auto simp: outcome_def on_success_def)
  qed
qed

lemma on_success_simps [simp]:
  "on_success None f = None" "on_success (Some (False, p)) f = Some (False, p)"
  "on_success (Some (True, p)) f = f p"
  by (simp_all add: on_success_def)

lemma then_offset_split:
  "then_offset m f = on_success (on_success m (\<lambda>p. map_option (Pair True) (update_offset p))) f"
proof (cases m)
  case (Some a)
  obtain r p where "m = Some (r, p)"
    using Some by (cases a) simp
  then show ?thesis
    by (cases r; cases "update_offset p"; simp add: then_offset_def)
qed (simp add: then_offset_def)

lemma printed_then:
  assumes "outcome appended m p s" "\<And>xs p'. s = Some xs \<Longrightarrow> appended p xs p' \<Longrightarrow> outcome printed (f p') p' t"
  shows "outcome printed (on_success m f) p (join s t)"
  by (rule outcome_then [OF assms(1) printed_after assms(2)])

lemma appended_then:
  assumes "outcome appended m p s" "\<And>xs p'. s = Some xs \<Longrightarrow> appended p xs p' \<Longrightarrow> outcome appended (f p') p' t"
  shows "outcome appended (on_success m f) p (join s t)"
  by (rule outcome_then [OF assms(1) appended_trans assms(2)])

lemma offset_then:
  assumes "outcome printed m p s" "\<And>xs. s = Some xs \<Longrightarrow> NUL \<notin> set xs"
    "\<And>xs p'. s = Some xs \<Longrightarrow> appended p xs p' \<Longrightarrow> outcome appended (f p') p' t"
  shows "outcome appended (then_offset m f) p (join s t)"
  unfolding then_offset_split by (rule appended_then [OF outcome_offset [OF assms(1,2)] assms(3)])

lemma outcome_skip:
  assumes "pb_inv p" "pb_offset p < pb_length p"
  shows "outcome appended (Some (True, p)) p (Some [])"
proof -
  have "appended p [] p"
    using assms unfolding appended_def holds_def same_job_def pb_inv_def by fastforce
  then show ?thesis
    by (rule outcome_True)
qed

lemma appended_room: "appended p t p' \<Longrightarrow> pb_offset p' < pb_length p'"
  by (auto simp: appended_def holds_def)

section \<open>Numbers and strings\<close>

lemma number_prints:
  assumes "pb_inv p" "libc_g dbl"
  shows "outcome printed (print_number dbl item p) p (Some (number_text dbl (i_valuedouble item)))"
proof -
  define t where "t = number_text dbl (i_valuedouble item)"
  have t: "length t \<le> 25" "map (\<lambda>c. if c = 46 then 46 else c) t = t"
    using assms(2) by (auto simp: libc_g_def t_def intro: map_idI)
  obtain r p' where e: "ensure p (length t) = Some (r, p')"
      "if r then appended p [] p' \<and> pb_offset p + length t < pb_length p' else \<not> roomy p (length t) \<and> \<not> pb_freed p'"
    using ensure_spec [OF assms(1), of "length t" "length t"] by auto
  show ?thesis
  proof (cases r)
    case True
    then obtain p'' where p'': "emit (t @ [NUL]) p' = Some p''" "appended p t (advance (length t) p'')"
        "\<forall>b. pb_buffer p'' = Some b \<longrightarrow> b ! (pb_offset p + length t) = NUL"
      using e appended_emit [of p p' "t @ [NUL]" "length t"] by (auto simp: nth_append)
    then have "printed p t (advance (length t) p'')"
      by (auto simp: printed_def appended_def advance_def)
    then show ?thesis
      using e True t p''(1) unfolding print_number_def t_def [symmetric] Let_def by (simp add: outcome_True)
  next
    case False
    then show ?thesis
      using e t unfolding print_number_def t_def [symmetric] Let_def by (auto intro!: outcome_False)
  qed
qed

lemma control_char: "31 < (c :: byte) \<longleftrightarrow> \<not> c < 32"
  by (simp add: word_less_nat_alt) linarith

lemma one_char_small: "one_char_escape c = Some e \<Longrightarrow> c < 32 \<or> c = 34 \<or> c = 92"
  by (auto simp: one_char_escape_def split: if_splits)

lemma length_escape: "length (escape c) = 1 + escape_cost c"
  using one_char_small [of c]
  by (cases "one_char_escape c") (auto simp: escape_def escape_cost_def control_char one_char_escape_def u04x_def)

lemma escape_plain: "escape_cost c = 0 \<Longrightarrow> escape c = [c]"
  by (auto simp: escape_def escape_cost_def control_char one_char_escape_def split: if_splits)

lemma length_escapes: "length (concat (map escape s)) = length s + sum_list (map escape_cost s)"
  by (induction s) (simp_all add: length_escape)

lemma no_escapes: "sum_list (map escape_cost s) = 0 \<Longrightarrow> concat (map escape s) = s"
  by (induction s) (simp_all add: escape_plain)

lemma escape_loop_spec:
  "i + length (concat (map escape s)) < length out \<Longrightarrow>
   \<exists>rest. escape_loop s i out = Some (take i out @ concat (map escape s) @ rest) \<and>
     length rest = length out - i - length (concat (map escape s))"
proof (induction s arbitrary: i out)
  case Nil
  then show ?case
    by (auto intro!: exI [of _ "drop i out"])
next
  case (Cons c s)
  define w where "w = escape c @ (if escape_cost c = 5 then [NUL] else [])"
  define out' where "out' = take i out @ w @ drop (i + length w) out"
  have room: "i + length w \<le> length out"
    using Cons.prems by (simp add: w_def)
  have len: "length out' = length out"
    using room by (simp add: out'_def)
  have step: "escape_loop (c # s) i out = escape_loop s (i + length (escape c)) out'"
  proof (cases "31 < c \<and> c \<noteq> 34 \<and> c \<noteq> 92")
    case True
    then have "w = [c]"
      using control_char [of c] by (auto simp: w_def escape_def escape_cost_def one_char_escape_def)
    then show ?thesis
      using True room by (simp add: out'_def put_byte_def upd_conv_take_nth_drop escape_def)
  next
    case False
    note plain = this
    then have ifc: "(31 < c \<and> c \<noteq> 34 \<and> c \<noteq> 92) = False"
      by simp
    show ?thesis
    proof (cases "one_char_escape c")
      case (Some e)
      then have w: "w = [92, e]" "escape c = [92, e]"
        using plain by (auto simp: w_def escape_def escape_cost_def)
      then have "i < length out - Suc 0" "i < length out"
        using room by simp_all
      from w have "put_byte (i + 1) e (take i out @ 92 # drop (Suc i) out) = Some out'"
        using room put_byte_at [of "take i out @ [92]" "i + 1" e "out ! Suc i" "drop (i + 2) out"]
        by (simp add: out'_def Cons_nth_drop_Suc)
      then show ?thesis
        using Some w \<open>i < length out - Suc 0\<close> \<open>i < length out\<close> unfolding escape_loop.simps ifc if_False
        by (simp add: put_byte_def upd_conv_take_nth_drop)
    next
      case None
      have "c \<noteq> 34 \<and> c \<noteq> 92"
        using None by (auto simp: one_char_escape_def)
      then have w: "w = 92 # u04x c" "escape c = 92 # butlast (u04x c)" "length (escape c) = 6"
        using plain None by (auto simp: w_def escape_def escape_cost_def u04x_def control_char)
      have "length (u04x c) = 6"
        by (simp add: u04x_def)
      then have b: "put_bytes (i + 1) (u04x c) (take i out @ 92 # drop (Suc i) out) = Some out'"
        using room w(1) by (auto simp: out'_def put_bytes_def add.commute)
      have "i < length out"
        using room w(1) by simp
      then have a: "put_byte i 92 out = Some (take i out @ 92 # drop (Suc i) out)"
        by (simp add: put_byte_def upd_conv_take_nth_drop)
      show ?thesis
        unfolding escape_loop.simps ifc if_False a None w(3) Option.bind.simps option.case b ..
    qed
  qed
  have "i + length (escape c) + length (concat (map escape s)) < length out'"
    using Cons.prems len by simp
  from Cons.IH [OF this] obtain rest where rest:
    "escape_loop s (i + length (escape c)) out' = Some (take (i + length (escape c)) out' @ concat (map escape s) @ rest)"
    "length rest = length out' - (i + length (escape c)) - length (concat (map escape s))"
    by blast
  have "take (i + length (escape c)) out' = take i out @ escape c"
    using room length_escape [of c] by (auto simp: out'_def w_def min_def)
  then show ?case
    using rest step len by simp
qed


lemma advance_0: "(\<lambda>p. (True, advance 0 p)) = Pair True"
  by (simp add: advance_def fun_eq_iff)

lemma string_prints:
  assumes inv: "pb_inv p"
  shows "outcome printed (print_string_ptr s p) p (Some (string_text s))"
proof (cases s)
  case None
  then show ?thesis
    using write_text_prints [OF inv, of "[34, 34]" 3] advance_0
    by (simp add: print_string_ptr_def string_text_def write_text_def)
next
  case (Some xs)
  define n where "n = length xs + sum_list (map escape_cost xs)"
  define t where "t = string_text s"
  define body where "body = concat (map escape xs)"
  have t: "t = 34 # body @ [34]" "length t = n + 2" "length body = n"
    using length_escapes [of xs] by (simp_all add: t_def body_def string_text_def n_def Some)
  obtain r p' where e: "ensure p (n + 3) = Some (r, p')"
      "if r then appended p [] p' \<and> pb_offset p + (n + 3) < pb_length p' else \<not> roomy p (length t) \<and> \<not> pb_freed p'"
    using ensure_spec [OF inv, of "n + 3" "length t"] t by auto
  show ?thesis
  proof (cases r)
    case False
    then have "print_string_ptr s p = Some (False, p')"
      using e by (simp add: print_string_ptr_def Some n_def)
    then show ?thesis
      using e False by (auto intro!: outcome_False simp: t_def)
  next
    case True
    then have p': "appended p [] p'" "pb_offset p + (n + 3) < pb_length p'"
      using e by auto
    have "\<exists>p''. print_string_ptr s p = Some (True, p'') \<and> printed p t p''"
    proof (cases "sum_list (map escape_cost xs) = 0")
      case True
      obtain p'' where p'': "emit (t @ [NUL]) p' = Some p''" "printed p t p''"
        using appended_emit [OF p'(1), of "t @ [NUL]" "length t"] p'(2) t(2) printed_of_appended [of p t]
        by (force simp: nth_append)
      then have "emit (34 # xs @ [34, NUL]) p' = Some p''"
        using no_escapes [of xs] True t(1) by (simp add: body_def)
      then show ?thesis
        using True e \<open>r\<close> p''(2) unfolding print_string_ptr_def Some Let_def by (simp add: n_def)
    next
      case False
      then have zero: "(sum_list (map escape_cost xs) = 0) = False"
        by simp
      obtain b where b: "pb_buffer p' = Some b" "pb_length p' \<le> length b" "pb_offset p' = pb_offset p"
        using p'(1) by (auto simp: appended_def holds_def)
      define o0 where "o0 = pb_offset p'"
      have len: "o0 + n + 3 < length b"
        using p'(2) b by (simp add: o0_def)
      define b1 where "b1 = take o0 b @ 34 # drop (Suc o0) b"
      have b1: "put_byte o0 34 b = Some b1" "length b1 = length b" "take (o0 + 1) b1 = take o0 b @ [34]"
        using len by (simp_all add: b1_def put_byte_def upd_conv_take_nth_drop min_def)
      obtain rest where rest: "escape_loop xs (o0 + 1) b1 = Some (take o0 b @ 34 # body @ rest)"
          "length rest = length b - (o0 + 1) - n"
        using escape_loop_spec [of "o0 + 1" xs b1] b1 len t(3) by (auto simp: body_def)
      then obtain x y rest' where r: "rest = x # y # rest'"
        using len by (cases rest; cases "tl rest") auto
      have r': "length rest' = length b - (o0 + n + 3)"
        using rest(2) r len by simp
      define b2 where "b2 = take o0 b @ (34 # body @ [34, NUL]) @ rest'"
      have l: "length (take o0 b @ 34 # body) = o0 + n + 1" "length (take o0 b @ 34 # body @ [34]) = o0 + n + 2"
        using len t(3) by simp_all
      have "put_byte (o0 + n + 1) 34 (take o0 b @ 34 # body @ rest) = Some (take o0 b @ 34 # body @ 34 # y # rest')"
        using put_byte_at [OF l(1), of 34 x "y # rest'"] r by simp
      moreover have "put_byte (o0 + n + 2) NUL (take o0 b @ 34 # body @ 34 # y # rest') = Some b2"
        using put_byte_at [OF l(2), of NUL y rest'] by (simp add: b2_def)
      ultimately have "print_string_ptr s p = Some (True, p'\<lparr>pb_buffer := Some b2\<rparr>)"
        using e \<open>r\<close> b(1) b1(1) rest(1) unfolding print_string_ptr_def Some option.case Let_def zero if_False
        by (simp add: n_def [symmetric] o0_def [symmetric])
      moreover have "printed p t (p'\<lparr>pb_buffer := Some b2\<rparr>)"
      proof -
        have "length b2 = length b"
          using r' len t(3) by (simp add: b2_def)
        moreover have "take (o0 + length t) b2 = take o0 b @ t" "b2 ! (o0 + length t) = NUL"
          using len t by (simp_all add: b2_def nth_append)
        ultimately show ?thesis
          using p' b t(2) by (auto simp: printed_def appended_def holds_def same_job_def o0_def)
      qed
      ultimately show ?thesis
        by blast
    qed
    then show ?thesis
      by (auto simp: outcome_True t_def)
  qed
qed


section \<open>Values\<close>

lemma deeper_simps [simp]:
  "pb_inv (deeper p) = pb_inv p" "pb_format (deeper p) = pb_format p" "pb_depth (deeper p) = pb_depth p + 1"
  "pb_offset (deeper p) = pb_offset p" "pb_length (deeper p) = pb_length p" "roomy (deeper p) n = roomy p n"
  by (simp_all add: pb_inv_def deeper_def roomy_def)

lemma outcome_FalseD: "outcome R (Some (False, q)) p t \<Longrightarrow> t = Some xs \<Longrightarrow> \<not> roomy p (length xs) \<and> \<not> pb_freed q"
  by (auto simp: outcome_def split: if_splits)

lemma printed_shallower:
  assumes "outcome printed m (deeper p) t"
  shows "outcome printed (map_option (map_prod id shallower) m) p t"
proof -
  obtain r q where m: "m = Some (r, q)" "if r then \<exists>xs. t = Some xs \<and> printed (deeper p) xs q
      else \<forall>xs. t = Some xs \<longrightarrow> \<not> roomy (deeper p) (length xs) \<and> \<not> pb_freed q"
    using assms by (auto simp: outcome_def)
  have "pb_freed (shallower q) = pb_freed q"
    by (simp add: shallower_def)
  moreover have "printed (deeper p) xs q \<Longrightarrow> printed p xs (shallower q)" for xs
    by (auto simp: printed_def holds_def same_job_def deeper_def shallower_def)
  ultimately show ?thesis
    using m by (cases r) (auto intro!: outcome_False outcome_True)
qed

lemma appended_job: "appended p t p' \<Longrightarrow> pb_format p' = pb_format p \<and> pb_depth p' = pb_depth p"
  by (simp add: appended_def same_job_def)

lemma appended_deeper: "appended (deeper p) t p' \<Longrightarrow> appended p t (p'\<lparr>pb_depth := pb_depth p\<rparr>)"
  by (auto simp: appended_def holds_def same_job_def deeper_def)

lemma raw_prints:
  assumes "pb_inv p"
  shows "outcome printed (print_raw item p) p (i_valuestring item)"
proof (cases "i_valuestring item")
  case None
  then show ?thesis
    using assms by (auto simp: print_raw_def deallocate_def pb_inv_def intro!: outcome_False)
next
  case (Some s)
  then show ?thesis
    using write_text_prints [OF assms, of s "length s + 1"] by (simp add: print_raw_def)
qed

text \<open>The brackets around the parts of an array or object; the parts are printed one level deeper.\<close>

lemma outcome_bracket:
  assumes o: "outcome appended m p (Some xs)"
    and e: "\<And>p'. appended p xs p' \<Longrightarrow> outcome appended (f (deeper p')) (deeper p') t"
    and c: "\<And>q ys. appended (deeper p) ys q \<Longrightarrow> outcome printed (g q) q (Some zs)"
  shows "outcome printed (on_success m (\<lambda>p. on_success (f (deeper p)) (\<lambda>p. map_option (map_prod id shallower) (g p))))
    p (join (Some xs) (join t (Some zs)))"
proof (rule printed_then [OF o])
  fix ys p'
  assume "appended p ys p'" "Some xs = Some ys"
  then have p': "appended p xs p'"
    by simp
  have c': "outcome printed (g q) q (Some zs)" if "appended (deeper p') ws q" for ws q
  proof (rule c)
    show "appended (deeper p) (xs @ ws) q"
      using that p' by (auto simp: appended_def holds_def same_job_def deeper_def add.assoc)
  qed
  have o': "outcome printed (on_success (f (deeper p')) g) (deeper p') (join t (Some zs))"
    by (rule printed_then [OF e [OF p']]) (rule c')
  obtain r q where f: "f (deeper p') = Some (r, q)"
    using e [OF p'] by (auto simp: outcome_def)
  show "outcome printed (on_success (f (deeper p')) (\<lambda>p. map_option (map_prod id shallower) (g p))) p'
      (join t (Some zs))"
  proof (cases r)
    case True
    then show ?thesis
      using printed_shallower [OF o'] by (simp add: f)
  next
    case False
    then have "outcome printed (Some (False, q)) (deeper p') (join t (Some zs))"
      using o' by (simp add: f)
    from outcome_FalseD [OF this] show ?thesis
      using False by (auto simp: f intro!: outcome_False)
  qed
qed


lemma elements_print:
  assumes "\<And>c p. c \<in> set ch \<Longrightarrow> pb_inv p \<Longrightarrow>
      outcome printed (print_value dbl c p) p (json_text dbl (pb_format p) (pb_depth p) c)"
    and "libc_g dbl" "\<forall>c \<in> set ch. c_strings c" "pb_inv p" "pb_offset p < pb_length p"
  shows "outcome appended (print_elements dbl ch p) p (elements_text dbl (pb_format p) (pb_depth p) ch)"
  using assms
proof (induction ch arbitrary: p)
  case (Cons c cs)
  have val: "outcome printed (print_value dbl c p) p (json_text dbl (pb_format p) (pb_depth p) c)"
    by (rule Cons.prems(1) [OF _ Cons.prems(4)]) simp
  have rest: "outcome appended (print_elements dbl cs q) q (elements_text dbl (pb_format q) (pb_depth q) cs)"
    if "pb_inv q" "pb_offset q < pb_length q" for q
    using that Cons.prems(1-3) by (intro Cons.IH) auto
  show ?case
    unfolding print_elements.simps elements_text.simps
  proof (rule offset_then [OF val])
    fix xs assume "json_text dbl (pb_format p) (pb_depth p) c = Some xs"
    then show "NUL \<notin> set xs"
      using text_nonzero(1) Cons.prems(2,3) by fastforce
  next
    fix xs p' assume p': "appended p xs p'"
    note i = appended_inv [OF p' Cons.prems(4)] appended_room [OF p'] and j = appended_job [OF p']
    show "outcome appended
        (on_success (if cs = [] then Some (True, p') else
            let n = if pb_format p' then 2 else 1 in
              write_text (n + 1) (if pb_format p' then [44, 32, NUL] else [44, NUL]) n p')
          (\<lambda>p. print_elements dbl cs p)) p'
        (join (Some (if cs = [] then [] else if pb_format p then [44, 32] else [44]))
          (elements_text dbl (pb_format p) (pb_depth p) cs))"
    proof (rule appended_then)
      show "outcome appended (if cs = [] then Some (True, p') else
          let n = if pb_format p' then 2 else 1 in
            write_text (n + 1) (if pb_format p' then [44, 32, NUL] else [44, NUL]) n p') p'
        (Some (if cs = [] then [] else if pb_format p then [44, 32] else [44]))"
        using outcome_skip [OF i] write_text_appends [OF i(1), of "[44, 32, NUL]" 3 2]
          write_text_appends [OF i(1), of "[44, NUL]" 2 1] j
        by (auto simp: numeral_eq_Suc)
    next
      fix ys q assume q: "appended p' ys q"
      show "outcome appended (print_elements dbl cs q) q (elements_text dbl (pb_format p) (pb_depth p) cs)"
        using rest [OF appended_inv [OF q i(1)] appended_room [OF q]] appended_job [OF q] j by simp
    qed
  qed
qed (simp add: outcome_skip)

lemma members_print:
  assumes "\<And>c p. c \<in> set ch \<Longrightarrow> pb_inv p \<Longrightarrow>
      outcome printed (print_value dbl c p) p (json_text dbl (pb_format p) (pb_depth p) c)"
    and "libc_g dbl" "\<forall>c \<in> set ch. c_strings c" "pb_inv p" "pb_offset p < pb_length p"
  shows "outcome appended (print_members dbl ch p) p (members_text dbl (pb_format p) (pb_depth p) ch)"
  using assms
proof (induction ch arbitrary: p)
  case (Cons c cs)
  have val: "outcome printed (print_value dbl c q) q (json_text dbl (pb_format q) (pb_depth q) c)"
    if "pb_inv q" for q
    by (rule Cons.prems(1) [OF _ that]) simp
  have nz: "NUL \<notin> set xs" if "json_text dbl f d c = Some xs" for xs f d
    using that text_nonzero(1) Cons.prems(2,3) by fastforce
  have nzs: "NUL \<notin> set (string_text (i_string c))"
    using Cons.prems(3) by (intro string_text_nonzero) (cases c; simp)
  have rest: "outcome appended (print_members dbl cs q) q (members_text dbl (pb_format q) (pb_depth q) cs)"
    if "pb_inv q" "pb_offset q < pb_length q" for q
    using that Cons.prems(1-3) by (intro Cons.IH) auto
  show ?case
    unfolding print_members.simps members_text.simps
  proof (rule appended_then, goal_cases)
    case 1
    then show ?case
      using outcome_skip [OF Cons.prems(4,5)]
        write_text_appends [OF Cons.prems(4), of "replicate (pb_depth p) 9" "pb_depth p" "pb_depth p"] by simp
  next
    case (2 x1 p1)
    note i1 = appended_inv [OF 2(2) Cons.prems(4)] and j1 = appended_job [OF 2(2)]
    show ?case
    proof (rule offset_then [OF string_prints [OF i1]], goal_cases)
      case 1
      then show ?case
        using nzs by simp
    next
      case (2 x2 p2)
      note i2 = appended_inv [OF 2(2) i1] and j2 = appended_job [OF 2(2)]
      show ?case
      proof (rule appended_then, goal_cases)
        case 1
        then show ?case
          using write_text_appends [OF i2, of "[58, 9]" 2 2] write_text_appends [OF i2, of "[58]" 1 1] j1 j2 by simp
      next
        case (2 x3 p3)
        note i3 = appended_inv [OF 2(2) i2] and j3 = appended_job [OF 2(2)]
        have j: "pb_format p3 = pb_format p" "pb_depth p3 = pb_depth p"
          using j1 j2 j3 by simp_all
        show ?case
        proof (rule offset_then [OF val [OF i3, unfolded j] nz], goal_cases)
          case (2 x4 p4)
          note i4 = appended_inv [OF 2(2) i3] appended_room [OF 2(2)] and j4 = appended_job [OF 2(2)]
          show ?case
          proof (rule appended_then, goal_cases)
            case 1
            then show ?case
              using write_text_appends [OF i4(1), of "[44, 10, NUL]" 3 2] write_text_appends [OF i4(1), of "[44, NUL]" 2 1]
                write_text_appends [OF i4(1), of "[10, NUL]" 2 1] write_text_appends [OF i4(1), of "[NUL]" 1 0] j j4
              by (auto simp: numeral_eq_Suc)
          next
            case (2 x5 p5)
            then show ?case
              using rest [OF appended_inv [OF 2(2) i4(1)] appended_room [OF 2(2)]] appended_job [OF 2(2)] j4 j
              by simp
          qed
        qed
      qed
    qed
  qed
qed (simp add: outcome_skip)

lemma value_prints:
  assumes "libc_g dbl"
  shows "pb_inv p \<Longrightarrow> c_strings item \<Longrightarrow>
    outcome printed (print_value dbl item p) p (json_text dbl (pb_format p) (pb_depth p) item)"
proof (induction item arbitrary: p)
  case (Item ty vs vi vd str ch p)
  define item where "item = Item ty vs vi vd str ch"
  define k where "k = ty AND 0xFF"
  have ch: "\<forall>c \<in> set ch. c_strings c"
    using Item.prems(2) by simp
  have IH: "outcome printed (print_value dbl c q) q (json_text dbl (pb_format q) (pb_depth q) c)"
    if "c \<in> set ch" "pb_inv q" for c q
    using Item.IH [OF that] ch that by simp
  note inv = Item.prems(1)
  consider (lit) "k = cJSON_NULL \<or> k = cJSON_False \<or> k = cJSON_True" | (num) "k = cJSON_Number" | (raw) "k = cJSON_Raw"
    | (str) "k = cJSON_String" | (arr) "k = cJSON_Array" | (obj) "k = cJSON_Object"
    | (none) "k \<notin> {cJSON_NULL, cJSON_False, cJSON_True, cJSON_Number, cJSON_Raw, cJSON_String, cJSON_Array, cJSON_Object}"
    by blast
  then show ?case
  proof cases
    case lit
    then show ?thesis
      using write_text_prints [OF inv, of "s2b ''null''" 5] write_text_prints [OF inv, of "s2b ''true''" 5]
        write_text_prints [OF inv, of "s2b ''false''" 6]
      by (auto simp: print_value.simps json_text.simps k_def cjson_types)
  next
    case num
    then show ?thesis
      using number_prints [OF inv assms, of item]
      by (simp add: print_value.simps json_text.simps k_def [symmetric] item_def cjson_types)
  next
    case raw
    then show ?thesis
      using raw_prints [OF inv, of item]
      by (simp add: print_value.simps json_text.simps k_def [symmetric] item_def cjson_types)
  next
    case str
    then show ?thesis
      using string_prints [OF inv, of vs]
      by (simp add: print_value.simps json_text.simps k_def [symmetric] print_string_def cjson_types)
  next
    case arr
    have "outcome printed
        (on_success (write_text 1 [91] 1 p) (\<lambda>p. on_success (print_elements dbl ch (deeper p)) (\<lambda>p.
            map_option (map_prod id shallower) (write_text 2 [93, NUL] 0 p)))) p
        (join (Some [91]) (join (elements_text dbl (pb_format p) (pb_depth p + 1) ch) (Some [93])))"
    proof (rule outcome_bracket)
      show "outcome appended (write_text 1 [91] 1 p) p (Some [91])"
        using write_text_appends [OF inv, of "[91]" 1 1] by simp
    next
      fix p' assume p': "appended p [91] p'"
      show "outcome appended (print_elements dbl ch (deeper p')) (deeper p')
          (elements_text dbl (pb_format p) (pb_depth p + 1) ch)"
        using elements_print [OF IH assms ch, of "deeper p'"] appended_inv [OF p' inv] appended_room [OF p']
          appended_job [OF p'] by simp
    next
      fix q ys assume "appended (deeper p) ys q"
      then show "outcome printed (write_text 2 [93, NUL] 0 q) q (Some [93])"
        using write_text_prints [of q "[93]" 2] appended_inv inv by fastforce
    qed
    then show ?thesis
      using arr by (simp add: print_value.simps json_text.simps k_def [symmetric] cjson_types)
  next
    case obj
    define f where "f = pb_format p"
    have "outcome printed
        (on_success (let n = (if f then 2 else 1) in write_text (n + 1) (if f then [123, 10] else [123]) n p)
          (\<lambda>p. on_success (print_members dbl ch (deeper p)) (\<lambda>p.
            map_option (map_prod id shallower)
              (write_text (if pb_format p then pb_depth p + 1 else 2)
                ((if pb_format p then replicate (pb_depth p - 1) 9 else []) @ [125, NUL]) 0 p)))) p
        (join (Some (if f then [123, 10] else [123])) (join (members_text dbl f (pb_depth p + 1) ch)
          (Some ((if f then replicate (pb_depth p) 9 else []) @ [125]))))"
    proof (rule outcome_bracket)
      show "outcome appended (let n = (if f then 2 else 1) in
          write_text (n + 1) (if f then [123, 10] else [123]) n p) p (Some (if f then [123, 10] else [123]))"
        using write_text_appends [OF inv, of "[123, 10]" 3 2] write_text_appends [OF inv, of "[123]" 2 1]
        by (simp add: numeral_eq_Suc)
    next
      fix p' assume p': "appended p (if f then [123, 10] else [123]) p'"
      show "outcome appended (print_members dbl ch (deeper p')) (deeper p')
          (members_text dbl f (pb_depth p + 1) ch)"
        using members_print [OF IH assms ch, of "deeper p'"] appended_inv [OF p' inv] appended_room [OF p']
          appended_job [OF p'] by (simp add: f_def)
    next
      fix q ys assume q: "appended (deeper p) ys q"
      then have "pb_inv q" "pb_format q = f" "pb_depth q = pb_depth p + 1"
        using appended_inv [OF q] appended_job [OF q] inv by (simp_all add: f_def)
      then show "outcome printed (write_text (if pb_format q then pb_depth q + 1 else 2)
            ((if pb_format q then replicate (pb_depth q - 1) 9 else []) @ [125, NUL]) 0 q) q
          (Some ((if f then replicate (pb_depth p) 9 else []) @ [125]))"
        using write_text_prints [of q "replicate (pb_depth p) 9 @ [125]" "pb_depth p + 2"]
          write_text_prints [of q "[125]" 2] by simp
    qed
    then show ?thesis
      using obj by (simp add: print_value.simps json_text.simps k_def [symmetric] cjson_types f_def)
  next
    case none
    then show ?thesis
      by (auto simp: print_value.simps json_text.simps Let_def k_def intro!: outcome_False)
  qed
qed


section \<open>Whole items\<close>

text \<open>The start state of the three entry points.\<close>

lemma outcome_cases:
  "outcome R m p (Some t) \<Longrightarrow> (\<exists>p'. m = Some (True, p') \<and> R p t p') \<or>
    (\<exists>p'. m = Some (False, p') \<and> \<not> roomy p (length t) \<and> \<not> pb_freed p')"
  by (auto simp: outcome_def split: if_splits)

lemma start_inv:
  assumes "hooks_ok hooks" "n \<le> length b" "0 < length b \<or> na"
  shows "pb_inv \<lparr>pb_buffer = Some b, pb_length = n, pb_offset = 0, pb_depth = 0, pb_noalloc = na,
    pb_format = fmt, pb_hooks = hooks, pb_freed = False\<rparr>"
  using assms by (auto simp: pb_inv_def)

lemma print_spec:
  assumes "libc_g dbl" "hooks_ok hooks" "c_strings item" "json_text dbl fmt 0 item = Some t"
  shows "\<exists>r. print dbl (Some item) fmt hooks = Some r \<and>
    (\<forall>b. r = Some b \<longrightarrow> take (length t + 1) b = t @ [NUL]) \<and>
    (memory_left hooks \<and> length t + 4 \<le> INT_LIMIT \<longrightarrow> r \<noteq> None)"
proof (cases "allocate hooks First_block 256")
  case None
  then show ?thesis
    by (auto simp: print_def memory_left_def)
next
  case (Some block)
  then have block: "length block = 256"
    using assms(2) by (simp add: hooks_ok_def)
  define p where "p = \<lparr>pb_buffer = Some block, pb_length = 0, pb_offset = 0, pb_depth = 0, pb_noalloc = False,
    pb_format = fmt, pb_hooks = hooks, pb_freed = False\<rparr>"
  have inv: "pb_inv p"
    unfolding p_def using assms(2) block by (intro start_inv) auto
  have nz: "NUL \<notin> set t"
    using text_nonzero(1) [OF assms(1,4,3)] .
  from value_prints [OF assms(1) inv assms(3)]
  have "outcome printed (print_value dbl item p) p (Some t)"
    using assms(4) by (simp add: p_def)
  then consider (fail) p' where "print_value dbl item p = Some (False, p')" "\<not> roomy p (length t)" "\<not> pb_freed p'"
    | (ok) p' where "print_value dbl item p = Some (True, p')" "printed p t p'"
    using outcome_cases by blast
  then show ?thesis
  proof cases
    case fail
    then have "print dbl (Some item) fmt hooks = Some None"
      using Some by (auto simp: print_def p_def [symmetric] print_fail_def deallocate_def)
    then show ?thesis
      using fail(2) by (auto simp: roomy_def p_def)
  next
    case ok
    then obtain p'' where p'': "update_offset p' = Some p''" "appended p t p''"
      using printed_offset nz by blast
    obtain b where b: "pb_buffer p' = Some b" "b ! length t = NUL" "take (length t) b = t"
        "length t < pb_length p'" "pb_length p' \<le> length b"
      using ok(2) by (auto simp: printed_def holds_def p_def)
    have q: "pb_buffer p'' = Some b" "pb_length p'' = pb_length p'" "pb_offset p'' = length t"
      using p'' b(1) by (auto simp: update_offset_def advance_def appended_def p_def)
    have t: "take (length t + 1) b = t @ [NUL]"
      using b take_Suc_conv_app_nth [of "length t" b] by simp
    have run: "print dbl (Some item) fmt hooks =
        (if has_reallocate hooks then Some (reallocate hooks Final_block b (pb_length p'))
         else case allocate hooks Final_block (length t + 1) of None \<Rightarrow> print_fail p''
           | Some new \<Rightarrow> do {
               new \<leftarrow> memcpy new 0 b 0 (min (pb_length p') (length t + 1));
               new \<leftarrow> put_byte (length t) NUL new;
               Some (Some new) })"
      using Some ok(1) p''(1) q by (simp add: print_def p_def [symmetric] split: option.split)
    show ?thesis
    proof (cases "has_reallocate hooks")
      case True
      have "take (length t + 1) (take (pb_length p') b @ ys) = t @ [NUL]" for ys
        using t b(4,5) by (simp add: min_def)
      then show ?thesis
        using run True by (auto simp: reallocate_def memory_left_def)
    next
      case False
      have minimum: "min (pb_length p') (length t + 1) = length t + 1"
        using b(4) by simp
      have "\<not> pb_freed p''"
        using p''(2) by (simp add: appended_def same_job_def p_def)
      moreover have "memcpy new 0 b 0 (min (pb_length p') (length t + 1)) = Some (t @ [NUL])"
        if "length new = length t + 1" for new
        using that t b(4,5) minimum by (simp add: memcpy_def slice_def put_bytes_def)
      moreover have "put_byte (length t) NUL (t @ [NUL]) = Some (t @ [NUL])"
        by (simp add: put_byte_def)
      ultimately show ?thesis
        using run False q(1) assms(2)
        by (cases "allocate hooks Final_block (length t + 1)")
          (auto simp: hooks_ok_def memory_left_def print_fail_def deallocate_def)
    qed
  qed
qed


lemma preallocated_spec:
  assumes "libc_g dbl" "hooks_ok hooks" "c_strings item" "json_text dbl fmt 0 item = Some t"
    and "0 \<le> len" "nat len \<le> length buf"
  shows "\<exists>ok r. cJSON_PrintPreallocated dbl hooks (Some item) (Some buf) len fmt = Some (ok, r) \<and>
    (if ok then (\<exists>b. r = Some b \<and> take (length t + 1) b = t @ [NUL]) \<and> length t < nat len
     else \<not> int (length t) + 4 \<le> len \<or> INT_MAX < int (length t) + 4)"
proof -
  define p where "p = \<lparr>pb_buffer = Some buf, pb_length = nat len, pb_offset = 0, pb_depth = 0, pb_noalloc = True,
    pb_format = fmt, pb_hooks = hooks, pb_freed = False\<rparr>"
  have inv: "pb_inv p"
    unfolding p_def using assms(2,6) by (intro start_inv) auto
  have "outcome printed (print_value dbl item p) p (Some t)"
    using value_prints [OF assms(1) inv assms(3)] assms(4) by (simp add: p_def)
  then consider (fail) p' where "print_value dbl item p = Some (False, p')" "\<not> roomy p (length t)"
    | (ok) p' where "print_value dbl item p = Some (True, p')" "printed p t p'"
    using outcome_cases by blast
  then show ?thesis
  proof cases
    case fail
    have "\<not> int (length t) + 4 \<le> len \<or> INT_MAX < int (length t) + 4"
      using fail(2) assms(5) by (auto simp: roomy_def p_def INT_MAX_def INT_LIMIT_def)
    then show ?thesis
      using fail(1) assms(5)
      by (intro exI [of _ False] exI [of _ "pb_buffer p'"]) (simp add: cJSON_PrintPreallocated_def p_def [symmetric])
  next
    case ok
    then obtain b where b: "pb_buffer p' = Some b" "b ! length t = NUL" "take (length t) b = t"
        "length t < pb_length p'" "pb_length p' \<le> length b" "pb_length p' = nat len"
      by (auto simp: printed_def holds_def p_def same_job_def)
    have "take (length t + 1) b = t @ [NUL]"
      using b take_Suc_conv_app_nth [of "length t" b] by simp
    then show ?thesis
      using ok(1) b assms(5)
      by (intro exI [of _ True] exI [of _ "pb_buffer p'"]) (simp add: cJSON_PrintPreallocated_def p_def [symmetric])
  qed
qed

end
