(* ===== verification/Cjson_Parse.thy ===== *)
theory Cjson_Parse
  imports Cjson_Data
begin

text \<open>
  The parser of the JSON library (\<^verbatim>\<open>src/src/cJSON.cc\<close>): a recursive descent over one buffer with
  an offset.  \<open>None\<close> is a read or write outside an array, or the end of the fuel; an item \<open>None\<close> in
  the result is the parser's error return.  Each of the mutually recursive functions takes one unit
  of fuel per call.
\<close>

section \<open>The buffer\<close>

record parse_buffer =
  in_content :: bytes
  in_length :: nat
  in_offset :: nat
  in_depth :: nat

type_synonym 'd parsing = "('d cJSON option \<times> parse_buffer) option"

definition CJSON_NESTING_LIMIT :: nat where "CJSON_NESTING_LIMIT = 1000"

definition can_read :: "parse_buffer \<Rightarrow> nat \<Rightarrow> bool" where
  "can_read b n \<longleftrightarrow> in_offset b + n \<le> in_length b"

definition can_access_at_index :: "parse_buffer \<Rightarrow> nat \<Rightarrow> bool" where
  "can_access_at_index b index \<longleftrightarrow> in_offset b + index < in_length b"

definition at_offset :: "parse_buffer \<Rightarrow> nat \<Rightarrow> byte option" where
  "at_offset b i = get (in_content b) (in_offset b + i)"

definition move :: "nat \<Rightarrow> parse_buffer \<Rightarrow> parse_buffer" where
  "move n b = b\<lparr>in_offset := in_offset b + n\<rparr>"

function skip_from :: "bytes \<Rightarrow> nat \<Rightarrow> nat \<Rightarrow> nat option" where
  "skip_from xs len i = (if i < len
     then do { c \<leftarrow> get xs i; if c \<le> 32 then skip_from xs len (i + 1) else Some i }
     else Some i)"
  by pat_completeness auto
termination
  by (relation "measure (\<lambda>(xs, len, i). len - i)") auto

declare skip_from.simps [simp del]

definition buffer_skip_whitespace :: "parse_buffer \<Rightarrow> parse_buffer option" where
  "buffer_skip_whitespace b = do {
     i \<leftarrow> skip_from (in_content b) (in_length b) (in_offset b);
     Some (b\<lparr>in_offset := if i = in_length b then i - 1 else i\<rparr>) }"

definition skip_utf8_bom :: "parse_buffer \<Rightarrow> parse_buffer option" where
  "skip_utf8_bom b = (if can_access_at_index b 4
     then do {
       xs \<leftarrow> slice (in_offset b) 3 (in_content b);
       Some (if xs = [0xEF, 0xBB, 0xBF] then move 3 b else b) }
     else Some b)"

section \<open>Numbers\<close>

definition number_char :: "byte \<Rightarrow> bool" where
  "number_char c \<longleftrightarrow> 48 \<le> c \<and> c \<le> 57 \<or> c = 43 \<or> c = 45 \<or> c = 101 \<or> c = 69 \<or> c = 46"

text \<open>The loop that fills \<open>number_c_string\<close>, which has room for 63 characters.\<close>

fun number_loop :: "nat \<Rightarrow> parse_buffer \<Rightarrow> nat \<Rightarrow> bytes option" where
  "number_loop 0 b i = Some []"
| "number_loop (Suc n) b i =
     (if can_access_at_index b i then do {
        c \<leftarrow> at_offset b i;
        if number_char c then map_option ((#) (if c = 46 then 46 else c)) (number_loop n b (i + 1))
        else Some [] }
      else Some [])"

definition set_number :: "('d, 'e) libc_double_scheme \<Rightarrow> 'd \<Rightarrow> 'd cJSON \<Rightarrow> 'd cJSON" where
  "set_number dbl number item = set_type cJSON_Number (cJSON_SetNumberHelper dbl item number)"

definition parse_number ::
  "('d, 'e) libc_double_scheme \<Rightarrow> 'd cJSON \<Rightarrow> parse_buffer \<Rightarrow> 'd parsing" where
  "parse_number dbl item b = do {
     number_c_string \<leftarrow> number_loop 63 b 0;
     let (number, n) = d_strtod dbl number_c_string;
     if n = 0 then Some (None, b)
     else Some (Some (set_number dbl number item), move n b) }"

section \<open>Strings\<close>

definition hex_digit :: "byte \<Rightarrow> u32 option" where
  "hex_digit c =
     (if 48 \<le> c \<and> c \<le> 57 then Some (ucast c - 48)
      else if 65 \<le> c \<and> c \<le> 70 then Some (10 + ucast c - 65)
      else if 97 \<le> c \<and> c \<le> 102 then Some (10 + ucast c - 97)
      else None)"

text \<open>\<open>hex4_loop n i h\<close>: the last \<open>n\<close> digits.  A character that is no digit makes the result 0.\<close>

fun hex4_loop :: "bytes \<Rightarrow> nat \<Rightarrow> nat \<Rightarrow> u32 \<Rightarrow> u32 option" where
  "hex4_loop xs 0 i h = Some h"
| "hex4_loop xs (Suc n) i h = do {
     c \<leftarrow> get xs i;
     case hex_digit c of
       None \<Rightarrow> Some 0
     | Some d \<Rightarrow> hex4_loop xs n (i + 1) (if n = 0 then h + d else push_bit 4 (h + d)) }"

definition parse_hex4 :: "bytes \<Rightarrow> nat \<Rightarrow> u32 option" where
  "parse_hex4 xs i = hex4_loop xs 4 i 0"

text \<open>The continuation bytes, last one first, and what is left of the code point.\<close>

fun utf8_tail :: "nat \<Rightarrow> u64 \<Rightarrow> bytes \<Rightarrow> bytes \<times> u64" where
  "utf8_tail 0 codepoint acc = (acc, codepoint)"
| "utf8_tail (Suc n) codepoint acc =
     utf8_tail n (drop_bit 6 codepoint) (ucast ((codepoint OR 0x80) AND 0xBF) # acc)"

definition utf8_encode :: "u64 \<Rightarrow> bytes option" where
  "utf8_encode codepoint =
     (let encode = (\<lambda>len first_byte_mark.
        let (rest, codepoint) = utf8_tail (len - 1) codepoint [] in
          Some ((if 1 < len then ucast ((codepoint OR first_byte_mark) AND 0xFF)
                 else ucast (codepoint AND 0x7F)) # rest))
      in if codepoint < 0x80 then encode 1 0
         else if codepoint < 0x800 then encode 2 0xC0
         else if codepoint < 0x10000 then encode 3 0xE0
         else if codepoint \<le> 0x10FFFF then encode 4 0xF0
         else None)"

text \<open>The length of the sequence (0 on failure) and the bytes written.\<close>

definition utf16_literal_to_utf8 :: "bytes \<Rightarrow> nat \<Rightarrow> nat \<Rightarrow> (nat \<times> bytes) option" where
  "utf16_literal_to_utf8 xs input_pointer input_end =
     (let fail = Some (0, []);
          result = (\<lambda>sequence_length codepoint. case utf8_encode codepoint of
             None \<Rightarrow> fail | Some out \<Rightarrow> Some (sequence_length, out))
      in if input_end - input_pointer < 6 then fail
      else do {
        first_code \<leftarrow> parse_hex4 xs (input_pointer + 2);
        if 0xDC00 \<le> first_code \<and> first_code \<le> 0xDFFF then fail
        else if 0xD800 \<le> first_code \<and> first_code \<le> 0xDBFF then
          let second_sequence = input_pointer + 6 in
          if input_end - second_sequence < 6 then fail
          else do {
            c0 \<leftarrow> get xs second_sequence;
            c1 \<leftarrow> get xs (second_sequence + 1);
            if c0 \<noteq> 92 \<or> c1 \<noteq> 117 then fail
            else do {
              second_code \<leftarrow> parse_hex4 xs (second_sequence + 2);
              if second_code < 0xDC00 \<or> 0xDFFF < second_code then fail
              else result 12
                (0x10000 + (push_bit 10 (ucast first_code AND 0x3FF) OR (ucast second_code AND 0x3FF))) } }
        else result 6 (ucast first_code) })"

text \<open>The first pass: the closing quote and the number of backslashes, or \<open>Some None\<close>.\<close>

function scan_string :: "bytes \<Rightarrow> nat \<Rightarrow> nat \<Rightarrow> nat \<Rightarrow> (nat \<times> nat) option option" where
  "scan_string xs len i skipped =
     (if i < len then do {
        c \<leftarrow> get xs i;
        if c = 34 then Some (Some (i, skipped))
        else if c = 92 then
          (if len \<le> i + 1 then Some None else scan_string xs len (i + 2) (skipped + 1))
        else scan_string xs len (i + 1) skipped }
      else Some None)"
  by pat_completeness auto
termination
  by (relation "measure (\<lambda>(xs, len, i, skipped). len - i)") auto

declare scan_string.simps [simp del]

definition simple_escape :: "byte \<Rightarrow> byte option" where
  "simple_escape c =
     (if c = 98 then Some 8 else if c = 102 then Some 12 else if c = 110 then Some 10
      else if c = 114 then Some 13 else if c = 116 then Some 9
      else if c = 34 \<or> c = 92 \<or> c = 47 then Some c else None)"

text \<open>
  The second pass, which writes to an array of \<open>cap\<close> bytes of which \<open>out\<close> are written.  Its results
  are the bytes, or the position of the error.
\<close>

definition write_out :: "nat \<Rightarrow> bytes \<Rightarrow> bytes \<Rightarrow> bytes option" where
  "write_out cap out xs = (if length out + length xs \<le> cap then Some (out @ xs) else None)"

function unescape :: "bytes \<Rightarrow> nat \<Rightarrow> nat \<Rightarrow> nat \<Rightarrow> bytes \<Rightarrow> (nat + bytes) option" where
  "unescape xs cap i input_end out =
     (if i < input_end then do {
        c \<leftarrow> get xs i;
        if c \<noteq> 92 then do {
          out \<leftarrow> write_out cap out [c];
          unescape xs cap (i + 1) input_end out }
        else do {
          e \<leftarrow> get xs (i + 1);
          case simple_escape e of
            Some d \<Rightarrow> do {
              out \<leftarrow> write_out cap out [d];
              unescape xs cap (i + 2) input_end out }
          | None \<Rightarrow>
              if e = 117 then do {
                (sequence_length, utf8) \<leftarrow> utf16_literal_to_utf8 xs i input_end;
                if sequence_length = 0 then Some (Inl i)
                else do {
                  out \<leftarrow> write_out cap out utf8;
                  unescape xs cap (i + sequence_length) input_end out } }
              else Some (Inl i) } }
      else Some (Inr out))"
  by pat_completeness auto
termination
  by (relation "measure (\<lambda>(xs, cap, i, input_end, out). input_end - i)") auto

declare unescape.simps [simp del]

definition fail_at :: "nat \<Rightarrow> parse_buffer \<Rightarrow> 'd parsing" where
  "fail_at i b = Some (None, b\<lparr>in_offset := i\<rparr>)"

text \<open>
  \<open>mem i\<close> says whether the allocations the parser makes when it stands at offset \<open>i\<close> succeed.  The
  member \<open>valuestring\<close> is the C string at the start of the array.
\<close>

definition parse_string :: "(nat \<Rightarrow> bool) \<Rightarrow> 'd cJSON \<Rightarrow> parse_buffer \<Rightarrow> 'd parsing" where
  "parse_string mem item b = do {
     let start = in_offset b + 1;
     q \<leftarrow> at_offset b 0;
     if q \<noteq> 34 then fail_at start b
     else do {
       s \<leftarrow> scan_string (in_content b) (in_length b) start 0;
       case s of
         None \<Rightarrow> fail_at start b
       | Some (input_end, skipped_bytes) \<Rightarrow>
           if \<not> mem (in_offset b) then fail_at start b
           else do {
             let allocation_length = input_end - in_offset b - skipped_bytes;
             r \<leftarrow> unescape (in_content b) (allocation_length + 1) start input_end [];
             case r of
               Inl i \<Rightarrow> fail_at i b
             | Inr out \<Rightarrow> do {
                 output \<leftarrow> write_out (allocation_length + 1) out [NUL];
                 (case item of Item _ _ vi vd str ch \<Rightarrow>
                   Some (Some (Item cJSON_String (Some (c_str output)) vi vd str ch),
                     b\<lparr>in_offset := input_end + 1\<rparr>)) } } } }"

section \<open>Values\<close>

definition literal :: "parse_buffer \<Rightarrow> bytes \<Rightarrow> bool option" where
  "literal b word = (if can_read b (length word)
     then map_option (\<lambda>xs. xs = word) (slice (in_offset b) (length word) (in_content b)) else Some False)"

definition is_at :: "parse_buffer \<Rightarrow> (byte \<Rightarrow> bool) \<Rightarrow> bool option" where
  "is_at b P = (if can_access_at_index b 0 then map_option P (at_offset b 0) else Some False)"

definition name_of_value :: "'d cJSON \<Rightarrow> 'd cJSON" where
  "name_of_value item = (case item of Item ty vs vi vd _ ch \<Rightarrow> Item ty None vi vd vs ch)"

definition set_list :: "u32 \<Rightarrow> 'd cJSON list \<Rightarrow> 'd cJSON \<Rightarrow> 'd cJSON" where
  "set_list ty head item = (case item of Item _ vs vi vd str _ \<Rightarrow> Item ty vs vi vd str head)"

definition set_true :: "'d cJSON \<Rightarrow> 'd cJSON" where
  "set_true item = (case item of Item _ vs _ vd str ch \<Rightarrow> Item cJSON_True vs 1 vd str ch)"

text \<open>A step whose failure is the failure of its caller.\<close>

definition or_fail ::
  "('a option \<times> parse_buffer) option \<Rightarrow> ('a \<Rightarrow> parse_buffer \<Rightarrow> ('b option \<times> parse_buffer) option) \<Rightarrow>
   ('b option \<times> parse_buffer) option" where
  "or_fail m f = (case m of
     None \<Rightarrow> None
   | Some (None, b) \<Rightarrow> Some (None, b)
   | Some (Some x, b) \<Rightarrow> f x b)"

text \<open>The end of an array or object at its closing bracket.\<close>

definition close_list :: "u32 \<Rightarrow> 'd cJSON list \<Rightarrow> 'd cJSON \<Rightarrow> parse_buffer \<Rightarrow> 'd parsing" where
  "close_list ty head item b =
     Some (Some (set_list ty head item), b\<lparr>in_depth := in_depth b - 1, in_offset := in_offset b + 1\<rparr>)"

text \<open>
  The two list parsers differ in the test of the opening bracket, the closing one and the elements: \<open>elements\<close> is the loop, called
  with the offset one before the first element.
\<close>

definition parse_list ::
  "u32 \<Rightarrow> (parse_buffer \<Rightarrow> bool option) \<Rightarrow> byte \<Rightarrow> (parse_buffer \<Rightarrow> ('d cJSON list option \<times> parse_buffer) option) \<Rightarrow>
   'd cJSON \<Rightarrow> parse_buffer \<Rightarrow> 'd parsing" where
  "parse_list ty opened closing elements item b =
     (if CJSON_NESTING_LIMIT \<le> in_depth b then Some (None, b)
      else let b = b\<lparr>in_depth := in_depth b + 1\<rparr> in do {
        right \<leftarrow> opened b;
        if \<not> right then Some (None, b)
        else do {
          b \<leftarrow> buffer_skip_whitespace (move 1 b);
          empty \<leftarrow> is_at b (\<lambda>c. c = closing);
          if empty then close_list ty [] item b
          else if \<not> can_access_at_index b 0 then Some (None, b\<lparr>in_offset := in_offset b - 1\<rparr>)
          else or_fail (elements (b\<lparr>in_offset := in_offset b - 1\<rparr>)) (\<lambda>head b. do {
            closed \<leftarrow> is_at b (\<lambda>c. c = closing);
            if closed then close_list ty head item b else Some (None, b) }) } })"

fun parse_value ::
    "nat \<Rightarrow> ('d, 'e) libc_double_scheme \<Rightarrow> (nat \<Rightarrow> bool) \<Rightarrow> 'd cJSON \<Rightarrow> parse_buffer \<Rightarrow> 'd parsing"
  and parse_elements ::
    "nat \<Rightarrow> ('d, 'e) libc_double_scheme \<Rightarrow> (nat \<Rightarrow> bool) \<Rightarrow> parse_buffer \<Rightarrow>
     ('d cJSON list option \<times> parse_buffer) option"
  and parse_members ::
    "nat \<Rightarrow> ('d, 'e) libc_double_scheme \<Rightarrow> (nat \<Rightarrow> bool) \<Rightarrow> parse_buffer \<Rightarrow>
     ('d cJSON list option \<times> parse_buffer) option"
where
  "parse_value 0 dbl mem item b = None"
| "parse_value (Suc fuel) dbl mem item b = do {
     is_null \<leftarrow> literal b (s2b ''null'');
     is_false \<leftarrow> literal b (s2b ''false'');
     is_true \<leftarrow> literal b (s2b ''true'');
     is_string \<leftarrow> is_at b (\<lambda>c. c = 34);
     is_number \<leftarrow> is_at b (\<lambda>c. c = 45 \<or> 48 \<le> c \<and> c \<le> 57);
     is_array \<leftarrow> is_at b (\<lambda>c. c = 91);
     is_object \<leftarrow> is_at b (\<lambda>c. c = 123);
     if is_null then Some (Some (set_type cJSON_NULL item), move 4 b)
     else if is_false then Some (Some (set_type cJSON_False item), move 5 b)
     else if is_true then Some (Some (set_true item), move 4 b)
     else if is_string then parse_string mem item b
     else if is_number then parse_number dbl item b
     else if is_array then parse_list cJSON_Array (\<lambda>b. map_option (\<lambda>c. c = 91) (at_offset b 0)) 93
        (parse_elements fuel dbl mem) item b
     else if is_object then parse_list cJSON_Object (\<lambda>b. is_at b (\<lambda>c. c = 123)) 125
        (parse_members fuel dbl mem) item b
     else Some (None, b) }"
| "parse_elements 0 dbl mem b = None"
| "parse_elements (Suc fuel) dbl mem b =
     (case cJSON_New_Item dbl (mem (in_offset b)) of
        None \<Rightarrow> Some (None, b)
      | Some new_item \<Rightarrow> do {
          b \<leftarrow> buffer_skip_whitespace (move 1 b);
          or_fail (parse_value fuel dbl mem new_item b) (\<lambda>item b. do {
            b \<leftarrow> buffer_skip_whitespace b;
            again \<leftarrow> is_at b (\<lambda>c. c = 44);
            if again then or_fail (parse_elements fuel dbl mem b) (\<lambda>items b. Some (Some (item # items), b))
            else Some (Some [item], b) }) })"
| "parse_members 0 dbl mem b = None"
| "parse_members (Suc fuel) dbl mem b =
     (case cJSON_New_Item dbl (mem (in_offset b)) of
        None \<Rightarrow> Some (None, b)
      | Some new_item \<Rightarrow> do {
          b \<leftarrow> buffer_skip_whitespace (move 1 b);
          or_fail (parse_string mem new_item b) (\<lambda>named b. do {
            b \<leftarrow> buffer_skip_whitespace b;
            colon \<leftarrow> is_at b (\<lambda>c. c = 58);
            if \<not> colon then Some (None, b)
            else do {
              b \<leftarrow> buffer_skip_whitespace (move 1 b);
              or_fail (parse_value fuel dbl mem (name_of_value named) b) (\<lambda>item b. do {
                b \<leftarrow> buffer_skip_whitespace b;
                again \<leftarrow> is_at b (\<lambda>c. c = 44);
                if again then or_fail (parse_members fuel dbl mem b) (\<lambda>items b. Some (Some (item # items), b))
                else Some (Some [item], b) }) } }) })"

section \<open>The entry points\<close>

text \<open>
  Three units of fuel for every byte are enough (\<open>parse_fuel\<close>).  The results are the item and the
  position given to the caller, which on an error is the position of \<open>global_error\<close>.
\<close>

definition parse_fuel :: "nat \<Rightarrow> nat" where
  "parse_fuel n = 3 * n + 3"

definition cJSON_ParseWithOpts ::
  "('d, 'e) libc_double_scheme \<Rightarrow> (nat \<Rightarrow> bool) \<Rightarrow> bool \<Rightarrow> bytes \<Rightarrow> bool \<Rightarrow> ('d cJSON option \<times> nat) option" where
  "cJSON_ParseWithOpts dbl mem root_mem value require_null_terminated =
     (let b = \<lparr>in_content = value @ [NUL], in_length = length value + 1, in_offset = 0, in_depth = 0\<rparr>;
          fail = (\<lambda>b. Some (None, if in_offset b < in_length b then in_offset b else in_length b - 1))
      in case cJSON_New_Item dbl root_mem of
        None \<Rightarrow> fail b
      | Some item \<Rightarrow> do {
          b \<leftarrow> skip_utf8_bom b;
          b \<leftarrow> buffer_skip_whitespace b;
          r \<leftarrow> parse_value (parse_fuel (length value + 1)) dbl mem item b;
          case r of
            (None, b) \<Rightarrow> fail b
          | (Some item, b) \<Rightarrow>
              if require_null_terminated then do {
                b \<leftarrow> buffer_skip_whitespace b;
                if in_length b \<le> in_offset b then fail b
                else do {
                  c \<leftarrow> at_offset b 0;
                  if c \<noteq> NUL then fail b else Some (Some item, in_offset b) } }
              else Some (Some item, in_offset b) })"

definition cJSON_Parse ::
  "('d, 'e) libc_double_scheme \<Rightarrow> (nat \<Rightarrow> bool) \<Rightarrow> bool \<Rightarrow> bytes \<Rightarrow> 'd cJSON option option" where
  "cJSON_Parse dbl mem root_mem value = map_option fst (cJSON_ParseWithOpts dbl mem root_mem value False)"

end
