(* ===== verification/Cjson_Parse_Safe.thy ===== *)
theory Cjson_Parse_Safe
  imports Cjson_Parse
begin

text \<open>
  The parser on arbitrary input: it ends within its fuel, reads only inside the buffer, and its
  string decoder writes only inside the array it sized in its first pass, also on malformed escapes
  that the two passes cut into different pieces.
\<close>

section \<open>White space\<close>

definition in_ok :: "parse_buffer \<Rightarrow> bool" where
  "in_ok b \<longleftrightarrow> 0 < in_length b \<and> in_length b \<le> length (in_content b) \<and> in_content b ! (in_length b - 1) = NUL"

definition same_input :: "parse_buffer \<Rightarrow> parse_buffer \<Rightarrow> bool" where
  "same_input b b' \<longleftrightarrow> in_content b' = in_content b \<and> in_length b' = in_length b"

lemma same_input_ok: "same_input b b' \<Longrightarrow> in_ok b \<Longrightarrow> in_ok b'"
  by (simp add: same_input_def in_ok_def)

lemma same_input_trans: "same_input a b \<Longrightarrow> same_input b c \<Longrightarrow> same_input a c"
  by (simp add: same_input_def)

lemma skip_from_ex: "i \<le> len \<Longrightarrow> len \<le> length xs \<Longrightarrow> \<exists>j. skip_from xs len i = Some j \<and> i \<le> j \<and> j \<le> len"
proof (induction xs len i rule: skip_from.induct)
  case (1 xs len i)
  show ?case
  proof (cases "i < len \<and> xs ! i \<le> 32")
    case True
    then obtain j where "skip_from xs len (i + 1) = Some j" "i + 1 \<le> j" "j \<le> len"
      using 1 by auto
    then show ?thesis
      using True 1(3) by (subst skip_from.simps) auto
  next
    case False
    then show ?thesis
      using 1(2,3) by (subst skip_from.simps) auto
  qed
qed

lemma skip_ex:
  assumes "in_ok b" "in_offset b \<le> in_length b"
  shows "\<exists>b'. buffer_skip_whitespace b = Some b' \<and> same_input b b' \<and> in_offset b' < in_length b \<and>
    in_offset b \<le> in_offset b' + 1 \<and> (in_offset b < in_length b \<longrightarrow> in_offset b \<le> in_offset b')"
proof -
  obtain j where "skip_from (in_content b) (in_length b) (in_offset b) = Some j" "in_offset b \<le> j" "j \<le> in_length b"
    using skip_from_ex [of "in_offset b" "in_length b" "in_content b"] assms by (auto simp: in_ok_def)
  then show ?thesis
    using assms(1) by (auto simp: buffer_skip_whitespace_def same_input_def in_ok_def)
qed

lemma is_at_ex:
  assumes "in_ok b"
  shows "\<exists>r. is_at b P = Some r \<and> (r \<longleftrightarrow> in_offset b < in_length b \<and> P (in_content b ! in_offset b))"
  using assms by (auto simp: is_at_def at_offset_def can_access_at_index_def in_ok_def)

lemma is_at_not_end:
  assumes "in_ok b" "is_at b P = Some True" "\<not> P NUL"
  shows "in_offset b + 1 < in_length b"
proof -
  have "in_offset b < in_length b" "P (in_content b ! in_offset b)"
    using is_at_ex [OF assms(1), of P] assms(2) by auto
  moreover from this have "in_offset b \<noteq> in_length b - 1"
    using assms by (auto simp: in_ok_def)
  ultimately show ?thesis
    by simp
qed

section \<open>Literals and numbers\<close>

lemma literal_ex:
  assumes "in_ok b"
  shows "\<exists>r. literal b w = Some r \<and> (r \<longrightarrow> NUL \<notin> set w \<longrightarrow> w \<noteq> [] \<longrightarrow> in_offset b + length w < in_length b)"
proof (cases "can_read b (length w)")
  case True
  have "in_offset b + length w < in_length b"
    if "take (length w) (drop (in_offset b) (in_content b)) = w" "NUL \<notin> set w" "w \<noteq> []"
  proof (rule ccontr)
    assume "\<not> ?thesis"
    then have e: "in_offset b + length w = in_length b"
      using True by (simp add: can_read_def)
    then have "in_content b ! (in_length b - 1) = w ! (length w - 1)"
      using that(1,3) assms nth_take [of "length w - 1" "length w" "drop (in_offset b) (in_content b)"]
      by (simp add: in_ok_def Suc_le_eq add_diff_assoc2 flip: e)
    then show False
      using that(2,3) assms by (metis in_ok_def length_greater_0_conv diff_less nth_mem zero_less_one)
  qed
  then show ?thesis
    using True assms by (auto simp: literal_def slice_def can_read_def in_ok_def)
qed (auto simp: literal_def)

lemma number_loop_ex:
  assumes "in_ok b"
  shows "\<exists>s. number_loop n b i = Some s \<and> (\<forall>k < length s. in_offset b + (i + k) < in_length b \<and>
    number_char (in_content b ! (in_offset b + (i + k))))"
proof (induction n arbitrary: i)
  case (Suc n)
  obtain s where s: "number_loop n b (i + 1) = Some s"
      "\<forall>k < length s. in_offset b + (i + 1 + k) < in_length b \<and> number_char (in_content b ! (in_offset b + (i + 1 + k)))"
    using Suc [of "i + 1"] by blast
  show ?case
  proof (cases "can_access_at_index b i \<and> number_char (in_content b ! (in_offset b + i))")
    case True
    let ?c = "in_content b ! (in_offset b + i)"
    have "number_loop (Suc n) b i = Some ((if ?c = 46 then 46 else ?c) # s)"
      using True s(1) assms by (simp add: at_offset_def can_access_at_index_def in_ok_def)
    moreover have "in_offset b + (i + k) < in_length b \<and> number_char (in_content b ! (in_offset b + (i + k)))"
      if "k < Suc (length s)" for k
      using that s(2) True by (cases k) (auto simp: can_access_at_index_def)
    ultimately show ?thesis
      by auto
  next
    case False
    then show ?thesis
      using assms by (auto simp: at_offset_def can_access_at_index_def in_ok_def)
  qed
qed simp

text \<open>\<open>strtod\<close> takes at most the characters it is given.\<close>

definition libc_strtod :: "('d, 'e) libc_double_scheme \<Rightarrow> bool" where
  "libc_strtod dbl \<longleftrightarrow> (\<forall>s. snd (d_strtod dbl s) \<le> length s)"

lemma parse_number_ex:
  assumes "in_ok b" "libc_strtod dbl"
  shows "\<exists>r b'. parse_number dbl item b = Some (r, b') \<and> same_input b b' \<and>
    (r \<noteq> None \<longrightarrow> in_offset b < in_offset b' \<and> in_offset b' < in_length b)"
proof -
  obtain s where s: "number_loop 63 b 0 = Some s" "\<forall>k < length s. in_offset b + k < in_length b \<and>
      number_char (in_content b ! (in_offset b + k))"
    using number_loop_ex [OF assms(1), of 63 0] by auto
  obtain v n where v: "d_strtod dbl s = (v, n)"
    by fastforce
  then have n: "n \<le> length s"
    using assms(2) by (metis libc_strtod_def snd_conv)
  have "in_offset b + n < in_length b" if "n \<noteq> 0"
  proof -
    have k: "in_offset b + (n - 1) < in_length b" "number_char (in_content b ! (in_offset b + (n - 1)))"
      using s(2) [rule_format, of "n - 1"] n that by simp_all
    then have "in_offset b + (n - 1) \<noteq> in_length b - 1"
      using assms(1) by (auto simp: in_ok_def number_char_def)
    then show ?thesis
      using k(1) that by simp
  qed
  then show ?thesis
    using s(1) v by (auto simp: parse_number_def same_input_def move_def)
qed


section \<open>Strings\<close>

lemma hex4_loop_ex:
  assumes "i + n \<le> length xs"
  shows "\<exists>h'. hex4_loop xs n i h = Some h' \<and>
    (h' \<noteq> 0 \<longrightarrow> (\<forall>k < n. hex_digit (xs ! (i + k)) \<noteq> None))"
  using assms
proof (induction n arbitrary: i h)
  case (Suc n)
  show ?case
  proof (cases "hex_digit (xs ! i)")
    case None
    then show ?thesis
      using Suc.prems by simp
  next
    case (Some d)
    obtain h' where h': "hex4_loop xs n (i + 1) (if n = 0 then h + d else push_bit 4 (h + d)) = Some h'"
        "h' \<noteq> 0 \<longrightarrow> (\<forall>k < n. hex_digit (xs ! (i + 1 + k)) \<noteq> None)"
      using Suc.IH [of "i + 1"] Suc.prems by fastforce
    have "\<forall>k < Suc n. hex_digit (xs ! (i + k)) \<noteq> None" if "h' \<noteq> 0"
      using h'(2) that Some by (auto simp: less_Suc_eq_0_disj)
    then show ?thesis
      using h'(1) Some Suc.prems by auto
  qed
qed simp

lemma parse_hex4_ex:
  "i + 4 \<le> length xs \<Longrightarrow>
   \<exists>h. parse_hex4 xs i = Some h \<and> (h \<noteq> 0 \<longrightarrow> (\<forall>k < 4. hex_digit (xs ! (i + k)) \<noteq> None))"
  unfolding parse_hex4_def by (rule hex4_loop_ex)

lemma hex_not_backslash: "hex_digit c \<noteq> None \<Longrightarrow> c \<noteq> 92"
  by (auto simp: hex_digit_def)

lemma hex_block:
  assumes "\<forall>k < 4. hex_digit (xs ! (j + k)) \<noteq> None" "j \<le> k" "k < j + 4"
  shows "xs ! k \<noteq> 92"
proof -
  have "k = j + (k - j)" "k - j < 4"
    using assms(2,3) by simp_all
  then show ?thesis
    using assms(1) hex_not_backslash by metis
qed

lemma length_utf8_tail: "length (fst (utf8_tail n cp acc)) = n + length acc"
  by (induction n cp acc rule: utf8_tail.induct) simp_all

lemma utf8_encode_length:
  "utf8_encode cp = Some out \<Longrightarrow> length out \<le> 4 \<and> (cp = 0 \<longrightarrow> length out = 1)"
  using length_utf8_tail [of 1 cp "[]"] length_utf8_tail [of 2 cp "[]"] length_utf8_tail [of 3 cp "[]"]
  by (auto simp: utf8_encode_def Let_def split: if_splits prod.splits)

text \<open>
  What the decoding of one \<open>\\u\<close> sequence takes and writes, and where it can have met a backslash.
\<close>

definition backslashes :: "bytes \<Rightarrow> nat \<Rightarrow> nat \<Rightarrow> nat set" where
  "backslashes xs i n = {k. i \<le> k \<and> k < i + n \<and> xs ! k = 92}"

lemma backslashes_block:
  assumes "xs ! (i + 1) = 117" "\<forall>k < 4. hex_digit (xs ! (i + 2 + k)) \<noteq> None"
  shows "backslashes xs i 6 \<subseteq> {i}"
proof
  fix k assume "k \<in> backslashes xs i 6"
  then have k: "i \<le> k" "k < i + 6" "xs ! k = 92"
    by (auto simp: backslashes_def)
  then consider "k = i" | "k = i + 1" | "i + 2 \<le> k" "k < i + 2 + 4"
    by linarith
  then show "k \<in> {i}"
    using hex_block [OF assms(2), of k] assms(1) k(3) by cases auto
qed

lemma backslashes_split: "backslashes xs i (m + n) \<subseteq> backslashes xs i m \<union> backslashes xs (i + m) n"
  by (auto simp: backslashes_def)

lemma utf16_ex:
  assumes "input_end \<le> length xs" "xs ! (i + 1) = 117"
  shows "\<exists>n out. utf16_literal_to_utf8 xs i input_end = Some (n, out) \<and> (n = 0 \<or>
    n = 6 \<and> i + 6 \<le> input_end \<and> length out \<le> 1 \<or>
    n = 6 \<and> i + 6 \<le> input_end \<and> length out \<le> 4 \<and> backslashes xs i 6 \<subseteq> {i} \<or>
    n = 12 \<and> i + 12 \<le> input_end \<and> length out \<le> 4 \<and> backslashes xs i 12 \<subseteq> {i, i + 6})"
proof (cases "input_end - i < 6")
  case True
  then show ?thesis
    by (simp add: utf16_literal_to_utf8_def)
next
  case False
  then have room: "i + 6 \<le> input_end"
    by simp
  obtain h where h: "parse_hex4 xs (i + 2) = Some h" "h \<noteq> 0 \<longrightarrow> (\<forall>k < 4. hex_digit (xs ! (i + 2 + k)) \<noteq> None)"
    using parse_hex4_ex [of "i + 2" xs] room assms(1) by auto
  have b6: "backslashes xs i 6 \<subseteq> {i}" if "h \<noteq> 0"
    using backslashes_block [OF assms(2)] h(2) that by simp
  show ?thesis
  proof (cases "0xD800 \<le> h \<and> h \<le> 0xDBFF")
    case True
    then have low: "\<not> (0xDC00 \<le> h \<and> h \<le> 0xDFFF)" "h \<noteq> 0"
      by (auto simp: word_le_nat_alt)
    show ?thesis
    proof (cases "input_end - (i + 6) < 6")
      case True
      then have "utf16_literal_to_utf8 xs i input_end = Some (0, [])"
        using low \<open>_ \<and> _\<close> h(1) False by (simp add: utf16_literal_to_utf8_def Let_def)
      then show ?thesis
        by simp
    next
      case False
      then have room: "i + 12 \<le> input_end"
        by simp
      obtain h2 where h2: "parse_hex4 xs (i + 6 + 2) = Some h2"
          "h2 \<noteq> 0 \<longrightarrow> (\<forall>k < 4. hex_digit (xs ! (i + 6 + 2 + k)) \<noteq> None)"
        using parse_hex4_ex [of "i + 6 + 2" xs] room assms(1) by auto
      have g: "get xs (i + 6) = Some (xs ! (i + 6))" "get xs (i + 6 + 1) = Some (xs ! (i + 6 + 1))"
        using room assms(1) by simp_all
      define bad where "bad \<longleftrightarrow> (xs ! (i + 6) \<noteq> 92 \<or> xs ! (i + 6 + 1) \<noteq> 117) \<or> h2 < 0xDC00 \<or> 0xDFFF < h2"
      have low': "(0xDC00 \<le> h \<and> h \<le> 0xDFFF) = False"
        using low(1) by simp
      define cp :: u64 where "cp = 0x10000 + (push_bit 10 (ucast h AND 0x3FF) OR (ucast h2 AND 0x3FF))"
      have run: "utf16_literal_to_utf8 xs i input_end =
          (if bad then Some (0, []) else case utf8_encode cp of None \<Rightarrow> Some (0, []) | Some out \<Rightarrow> Some (12, out))"
        using \<open>0xD800 \<le> h \<and> h \<le> 0xDBFF\<close> h(1) \<open>\<not> input_end - i < 6\<close> False h2(1) g
        unfolding utf16_literal_to_utf8_def Let_def bad_def cp_def by (simp add: low')
      have b12: "backslashes xs i 12 \<subseteq> {i, i + 6}" if "\<not> bad"
      proof -
        have "h2 \<noteq> 0" "xs ! (i + 6 + 1) = 117"
          using that by (auto simp: bad_def word_less_nat_alt)
        then have "backslashes xs (i + 6) 6 \<subseteq> {i + 6}"
          using backslashes_block h2(2) by blast
        then show ?thesis
          using b6 [OF low(2)] backslashes_split [of xs i 6 6] by auto
      qed
      show ?thesis
        using run b12 room utf8_encode_length [of cp] by (cases "utf8_encode cp") auto
    qed
  next
    case high: False
    have "utf16_literal_to_utf8 xs i input_end =
        (if 0xDC00 \<le> h \<and> h \<le> 0xDFFF then Some (0, [])
         else case utf8_encode (ucast h) of None \<Rightarrow> Some (0, []) | Some out \<Rightarrow> Some (6, out))"
      using high h(1) False unfolding utf16_literal_to_utf8_def Let_def by auto
    then show ?thesis
      using b6 room utf8_encode_length [of "ucast h"]
      by (cases "utf8_encode (ucast h)"; cases "h = 0") auto
  qed
qed


text \<open>
  The first pass pairs backslashes with the character after them; \<open>D\<close> is where its pairs start.
\<close>

definition pairs :: "bytes \<Rightarrow> nat \<Rightarrow> nat \<Rightarrow> nat set \<Rightarrow> bool" where
  "pairs xs i e D \<longleftrightarrow> finite D \<and> (\<forall>d \<in> D. i \<le> d \<and> d + 1 < e \<and> xs ! d = 92 \<and> Suc d \<notin> D)"

lemma scan_string_ex:
  assumes "i \<le> len" "len \<le> length xs"
  shows "\<exists>r. scan_string xs len i s = Some r \<and> (\<forall>e s'. r = Some (e, s') \<longrightarrow>
    i \<le> e \<and> e < len \<and> xs ! e = 34 \<and> s \<le> s' \<and> (\<exists>D. pairs xs i e D \<and> card D = s' - s))"
  using assms
proof (induction xs len i s rule: scan_string.induct)
  case (1 xs len i s)
  consider (end_) "\<not> i < len" | (quote) "i < len" "xs ! i = 34" | (cut) "i < len" "xs ! i = 92" "len \<le> i + 1"
    | (pair) "i < len" "xs ! i = 92" "\<not> len \<le> i + 1" | (plain) "i < len" "xs ! i \<noteq> 34" "xs ! i \<noteq> 92"
    by blast
  then show ?case
  proof cases
    case quote
    then show ?thesis
      using 1(4) by (subst scan_string.simps) (auto simp: pairs_def intro!: exI [of _ "{}"])
  next
    case pair
    have g: "get xs i = Some (xs ! i)"
      using pair 1(4) by simp
    obtain r where r: "scan_string xs len (i + 2) (s + 1) = Some r" "\<forall>e s'. r = Some (e, s') \<longrightarrow>
        i + 2 \<le> e \<and> e < len \<and> xs ! e = 34 \<and> s + 1 \<le> s' \<and> (\<exists>D. pairs xs (i + 2) e D \<and> card D = s' - (s + 1))"
      using 1(1) [OF pair(1) g _ pair(2,3)] pair 1(4) by auto
    have "\<exists>D. pairs xs i e D \<and> card D = s' - s" if e: "r = Some (e, s')" for e s'
    proof -
      obtain D where D: "pairs xs (i + 2) e D" "card D = s' - (s + 1)" "i + 2 \<le> e" "s + 1 \<le> s'"
        using r(2) e by auto
      then have "i \<notin> D" "Suc i \<notin> D"
        by (auto simp: pairs_def)
      then have "pairs xs i e (insert i D)" "card (insert i D) = s' - s"
        using D pair(2) by (auto simp: pairs_def)
      then show ?thesis
        by blast
    qed
    then show ?thesis
      using r pair g by (subst scan_string.simps) fastforce
  next
    case plain
    have g: "get xs i = Some (xs ! i)"
      using plain 1(4) by simp
    obtain r where r: "scan_string xs len (i + 1) s = Some r" "\<forall>e s'. r = Some (e, s') \<longrightarrow>
        i + 1 \<le> e \<and> e < len \<and> xs ! e = 34 \<and> s \<le> s' \<and> (\<exists>D. pairs xs (i + 1) e D \<and> card D = s' - s)"
      using 1(2) [OF plain(1) g] plain 1(4) by auto
    have "pairs xs (i + 1) e D \<Longrightarrow> pairs xs i e D" for e D
      by (auto simp: pairs_def)
    then show ?thesis
      using r plain g by (subst scan_string.simps) fastforce
  qed (use 1(4) in \<open>subst scan_string.simps; simp\<close>)+
qed

text \<open>Room for the second pass: every piece it takes has a byte for each byte it writes.\<close>

definition pairs_from :: "nat set \<Rightarrow> nat \<Rightarrow> nat" where
  "pairs_from D i = card {d \<in> D. i \<le> d}"

lemma pairs_from_step:
  assumes "finite D" "{d \<in> D. i \<le> d \<and> d < i + n} \<subseteq> B" "finite B"
  shows "pairs_from D i \<le> pairs_from D (i + n) + card B"
proof -
  have "{d \<in> D. i \<le> d} \<subseteq> {d \<in> D. i + n \<le> d} \<union> B"
    using assms(2) by auto
  then have "card {d \<in> D. i \<le> d} \<le> card ({d \<in> D. i + n \<le> d} \<union> B)"
    using assms(1,3) by (intro card_mono) auto
  also have "\<dots> \<le> pairs_from D (i + n) + card B"
    unfolding pairs_from_def by (rule card_Un_le)
  finally show ?thesis
    by (simp add: pairs_from_def)
qed

lemma pairs_six:
  assumes "pairs xs s e D"
  shows "card {d \<in> D. i \<le> d \<and> d < i + 6} \<le> 3"
proof -
  have two: "card {d \<in> D. j \<le> d \<and> d < j + 2} \<le> 1" for j
  proof -
    have "{d \<in> D. j \<le> d \<and> d < j + 2} \<subseteq> {j} \<or> {d \<in> D. j \<le> d \<and> d < j + 2} \<subseteq> {Suc j}"
      using assms by (auto simp: pairs_def less_Suc_eq numeral_2_eq_2 le_less_Suc_eq)
    then have "card {d \<in> D. j \<le> d \<and> d < j + 2} \<le> card {j} \<or> card {d \<in> D. j \<le> d \<and> d < j + 2} \<le> card {Suc j}"
      using card_mono [of "{j}"] card_mono [of "{Suc j}"] by blast
    then show ?thesis
      by simp
  qed
  have "{d \<in> D. i \<le> d \<and> d < i + 6} \<subseteq> {d \<in> D. i \<le> d \<and> d < i + 2} \<union> {d \<in> D. i + 2 \<le> d \<and> d < i + 2 + 2}
      \<union> {d \<in> D. i + 4 \<le> d \<and> d < i + 4 + 2}"
    by auto
  then have "card {d \<in> D. i \<le> d \<and> d < i + 6} \<le> card ({d \<in> D. i \<le> d \<and> d < i + 2}
      \<union> {d \<in> D. i + 2 \<le> d \<and> d < i + 2 + 2} \<union> {d \<in> D. i + 4 \<le> d \<and> d < i + 4 + 2})"
    using assms by (intro card_mono) (auto simp: pairs_def)
  also have "\<dots> \<le> 1 + 1 + 1"
    using two [of i] two [of "i + 2"] two [of "i + 4"]
    by (intro order.trans [OF card_Un_le] add_mono order.trans [OF card_Un_le]) auto
  finally show ?thesis
    by simp
qed


lemma pairs_from_bound:
  assumes "pairs xs s e D"
  shows "pairs_from D i \<le> e - i"
proof -
  have "{d \<in> D. i \<le> d} \<subseteq> {i..<e}"
    using assms by (auto simp: pairs_def)
  then show ?thesis
    unfolding pairs_from_def using card_mono [of "{i..<e}"] by fastforce
qed

lemma pairs_backslashes: "pairs xs s e D \<Longrightarrow> {d \<in> D. i \<le> d \<and> d < i + n} \<subseteq> backslashes xs i n"
  by (auto simp: pairs_def backslashes_def)

lemma room_step:
  assumes D: "pairs xs s e D" and room: "length out + (e - i) \<le> cap + pairs_from D i"
    and B: "{d \<in> D. i \<le> d \<and> d < i + n} \<subseteq> B" "finite B" "card B + w \<le> n" and i: "i + n \<le> e"
  shows "length out + w \<le> cap \<and> length out + w + (e - (i + n)) \<le> cap + pairs_from D (i + n)"
proof -
  have "finite D"
    using D by (simp add: pairs_def)
  from pairs_from_step [OF this B(1,2)]
  have "length out + w + (e - (i + n)) \<le> cap + pairs_from D (i + n)"
    using room B(3) i by linarith
  then show ?thesis
    using pairs_from_bound [OF D, of "i + n"] by linarith
qed

lemma room_last:
  assumes D: "pairs xs s e D" and room: "length out + (e - i) \<le> cap + pairs_from D i" and i: "i + 1 = e"
  shows "length out + 1 \<le> cap \<and> length out + 1 + (e - (i + 2)) \<le> cap + pairs_from D (i + 2)"
proof -
  have "{d \<in> D. i \<le> d} = {}"
    using D i by (auto simp: pairs_def)
  then have "pairs_from D i = 0"
    by (simp only: pairs_from_def card.empty)
  then have "length out + 1 \<le> cap"
    using room i by linarith
  then show ?thesis
    using i by linarith
qed

lemma room_pair:
  assumes D: "pairs xs s e D" and room: "length out + (e - i) \<le> cap + pairs_from D i" and i: "i < e"
  shows "length out + 1 \<le> cap \<and> length out + 1 + (e - (i + 2)) \<le> cap + pairs_from D (i + 2)"
proof (cases "i + 1 = e")
  case True
  with room_last [OF D room] show ?thesis
    by blast
next
  case False
  have "{d \<in> D. i \<le> d \<and> d < i + 2} \<subseteq> {i} \<or> {d \<in> D. i \<le> d \<and> d < i + 2} \<subseteq> {Suc i}"
    using D by (auto simp: pairs_def less_Suc_eq numeral_2_eq_2 le_less_Suc_eq)
  then show ?thesis
  proof
    assume "{d \<in> D. i \<le> d \<and> d < i + 2} \<subseteq> {i}"
    from room_step [OF D room this, of 1] show ?thesis
      using False i by simp
  next
    assume "{d \<in> D. i \<le> d \<and> d < i + 2} \<subseteq> {Suc i}"
    from room_step [OF D room this, of 1] show ?thesis
      using False i by simp
  qed
qed

lemma unescape_ex:
  assumes D: "pairs xs s e D" and e: "e < length xs" and c: "cap \<le> room"
  shows "length out + (e - i) \<le> cap + pairs_from D i \<Longrightarrow>
    \<exists>r. unescape xs room i e out = Some r \<and> (\<forall>ys. r = Inr ys \<longrightarrow> length ys \<le> cap)"
proof (induction "e - i" arbitrary: i out rule: less_induct)
  case less
  show ?case
  proof (cases "i < e")
    case False
    then show ?thesis
      using less.prems pairs_from_bound [OF D, of i] by (subst unescape.simps) auto
  next
    case True
    have g: "get xs i = Some (xs ! i)" "get xs (i + 1) = Some (xs ! (i + 1))"
      using True e by simp_all
    have go: "\<exists>r. unescape xs room (i + n) e (out @ ys) = Some r \<and> (\<forall>zs. r = Inr zs \<longrightarrow> length zs \<le> cap)"
      if "length out + length ys \<le> cap \<and> length out + length ys + (e - (i + n)) \<le> cap + pairs_from D (i + n)" "0 < n"
      for n ys
      using that True by (intro less.hyps) auto
    show ?thesis
    proof (cases "xs ! i = 92")
      case False
      then have "{d \<in> D. i \<le> d \<and> d < i + 1} \<subseteq> {}"
        using D by (auto simp: pairs_def le_less_Suc_eq)
      from room_step [OF D less.prems this, of 1] have
        r: "length out + length [xs ! i] \<le> cap \<and> length out + length [xs ! i] + (e - (i + 1)) \<le> cap + pairs_from D (i + 1)"
        using True by simp
      then show ?thesis
        using go [OF r] True False g by (subst unescape.simps) (use c in \<open>simp add: write_out_def\<close>)
    next
      case True
      note bs = this
      show ?thesis
      proof (cases "simple_escape (xs ! (i + 1))")
        case (Some d)
        have r: "length out + length [d] \<le> cap \<and> length out + length [d] + (e - (i + 2)) \<le> cap + pairs_from D (i + 2)"
          using room_pair [OF D less.prems \<open>i < e\<close>] by simp
        then show ?thesis
          using go [OF r] \<open>i < e\<close> bs Some g by (subst unescape.simps) (use c in \<open>simp add: write_out_def\<close>)
      next
        case None
        show ?thesis
        proof (cases "xs ! (i + 1) = 117")
          case False
          then show ?thesis
            using \<open>i < e\<close> bs None g by (subst unescape.simps) simp
        next
          case True
          obtain n utf8 where u: "utf16_literal_to_utf8 xs i e = Some (n, utf8)" "n = 0 \<or>
              n = 6 \<and> i + 6 \<le> e \<and> length utf8 \<le> 1 \<or>
              n = 6 \<and> i + 6 \<le> e \<and> length utf8 \<le> 4 \<and> backslashes xs i 6 \<subseteq> {i} \<or>
              n = 12 \<and> i + 12 \<le> e \<and> length utf8 \<le> 4 \<and> backslashes xs i 12 \<subseteq> {i, i + 6}"
            using utf16_ex [of e xs i] True e by auto
          show ?thesis
          proof (cases "n = 0")
            case n: True
            then show ?thesis
              using \<open>i < e\<close> bs None True g u(1) by (subst unescape.simps) simp
          next
            case n: False
            have "length out + length utf8 \<le> cap \<and> length out + length utf8 + (e - (i + n)) \<le> cap + pairs_from D (i + n)"
              using u(2) n
            proof (elim disjE conjE)
              assume "n = 6" "i + 6 \<le> e" "length utf8 \<le> 1"
              then show ?thesis
                using room_step [OF D less.prems order_refl, of 6 "length utf8"] pairs_six [OF D, of i] D
                by (simp add: pairs_def)
            next
              assume "n = 6" "i + 6 \<le> e" "length utf8 \<le> 4" "backslashes xs i 6 \<subseteq> {i}"
              then show ?thesis
                using room_step [OF D less.prems, of 6 "{i}" "length utf8"] pairs_backslashes [OF D, of i 6]
                by simp
            next
              assume "n = 12" "i + 12 \<le> e" "length utf8 \<le> 4" "backslashes xs i 12 \<subseteq> {i, i + 6}"
              then show ?thesis
                using room_step [OF D less.prems, of 12 "{i, i + 6}" "length utf8"] pairs_backslashes [OF D, of i 12]
                by simp
            qed simp
            then show ?thesis
              using go [of utf8 n] \<open>i < e\<close> bs None True g u(1) n
              by (subst unescape.simps) (use c in \<open>simp add: write_out_def\<close>)
          qed
        qed
      qed
    qed
  qed
qed

lemma parse_string_ex:
  assumes "in_ok b" "in_offset b < in_length b"
  shows "\<exists>r b'. parse_string mem item b = Some (r, b') \<and> same_input b b' \<and>
    (r \<noteq> None \<longrightarrow> in_offset b < in_offset b' \<and> in_offset b' < in_length b)"
proof -
  let ?xs = "in_content b"
  have q: "at_offset b 0 = Some (?xs ! in_offset b)"
    using assms by (simp add: at_offset_def in_ok_def)
  have fail: "\<exists>r b'. fail_at i b = Some (r, b') \<and> same_input b b' \<and>
    (r \<noteq> None \<longrightarrow> in_offset b < in_offset b' \<and> in_offset b' < in_length b)" for i
    by (simp add: fail_at_def same_input_def)
  obtain r where r: "scan_string ?xs (in_length b) (in_offset b + 1) 0 = Some r"
      "\<forall>e s'. r = Some (e, s') \<longrightarrow> in_offset b + 1 \<le> e \<and> e < in_length b \<and> ?xs ! e = 34 \<and>
        (\<exists>D. pairs ?xs (in_offset b + 1) e D \<and> card D = s')"
    using scan_string_ex [of "in_offset b + 1" "in_length b" ?xs 0] assms by (auto simp: in_ok_def)
  show ?thesis
  proof (cases "?xs ! in_offset b \<noteq> 34 \<or> r = None \<or> \<not> mem (in_offset b)")
    case True
    then show ?thesis
      using q r(1) fail by (auto simp: parse_string_def Let_def split: option.splits)
  next
    case False
    then obtain e s' where e: "r = Some (e, s')"
      by auto
    then obtain D where D: "pairs ?xs (in_offset b + 1) e D" "card D = s'"
      and le: "in_offset b + 1 \<le> e" "e < in_length b" "?xs ! e = 34"
      using r(2) by blast
    have "{d \<in> D. in_offset b + 1 \<le> d} = D"
      using D(1) by (auto simp: pairs_def)
    then have p: "pairs_from D (in_offset b + 1) = s'"
      by (simp only: pairs_from_def D(2))
    define cap where "cap = e - in_offset b - s'"
    then have c: "e - (in_offset b + s') = cap"
      by simp
    have "s' \<le> e - (in_offset b + 1)"
      using D pairs_from_bound [OF D(1), of "in_offset b + 1"] p by simp
    have "length ([] :: bytes) + (e - (in_offset b + 1)) \<le> cap + pairs_from D (in_offset b + 1)"
      unfolding p by (simp add: cap_def)
    then obtain u where u: "unescape ?xs (cap + 1) (in_offset b + 1) e [] = Some u"
        "\<forall>ys. u = Inr ys \<longrightarrow> length ys \<le> cap"
      using unescape_ex [OF D(1), of cap "cap + 1" "[]" "in_offset b + 1"] le assms(1) by (fastforce simp: in_ok_def)
    have "e \<noteq> in_length b - 1"
      using le(3) assms(1) by (auto simp: in_ok_def)
    then have len: "e + 1 < in_length b"
      using le(2) by linarith
    have *: "parse_string mem item b = (case u of Inl i \<Rightarrow> fail_at i b | Inr out \<Rightarrow>
        (case write_out (cap + 1) out [NUL] of None \<Rightarrow> None | Some output \<Rightarrow>
          (case item of Item _ _ vi vd str ch \<Rightarrow>
            Some (Some (Item cJSON_String (Some (c_str output)) vi vd str ch), b\<lparr>in_offset := e + 1\<rparr>))))"
      using False q r(1) e u(1) c
      by (simp add: parse_string_def Let_def split: option.split sum.split)
    show ?thesis
    proof (cases u)
      case (Inl i)
      then show ?thesis
        using * fail by simp
    next
      case (Inr ys)
      then have "write_out (cap + 1) ys [NUL] = Some (ys @ [NUL])"
        using u(2) by (simp add: write_out_def)
      then show ?thesis
        using * Inr len le(1) by (simp add: same_input_def split: cJSON.split)
    qed
  qed
qed

section \<open>Values\<close>

text \<open>A parser started on \<open>b\<close> returns, and a success has moved past \<open>lo\<close> but not past the last byte.\<close>

definition returns :: "parse_buffer \<Rightarrow> nat \<Rightarrow> ('a option \<times> parse_buffer) option \<Rightarrow> bool" where
  "returns b lo m \<longleftrightarrow> (\<exists>r b'. m = Some (r, b') \<and> same_input b b' \<and>
    (r \<noteq> None \<longrightarrow> lo < in_offset b' \<and> in_offset b' < in_length b))"

lemma returns_fail: "same_input b b' \<Longrightarrow> returns b lo (Some (None, b'))"
  by (simp add: returns_def)

lemma returns_done: "same_input b b' \<Longrightarrow> lo < in_offset b' \<Longrightarrow> in_offset b' < in_length b \<Longrightarrow> returns b lo (Some (r, b'))"
  by (simp add: returns_def)

lemma returns_weaken:
  assumes "returns b' lo' m" "same_input b b'" "lo \<le> lo'"
  shows "returns b lo m"
  using assms by (auto simp: returns_def same_input_def)

lemma returns_or_fail:
  assumes "returns b' lo' m" "same_input b b'"
    and "\<And>x c. same_input b c \<Longrightarrow> lo' < in_offset c \<Longrightarrow> in_offset c < in_length b \<Longrightarrow> returns b lo (f x c)"
  shows "returns b lo (or_fail m f)"
proof -
  obtain r c where m: "m = Some (r, c)" "same_input b' c"
      "r \<noteq> None \<longrightarrow> lo' < in_offset c \<and> in_offset c < in_length b'"
    using assms(1) by (auto simp: returns_def)
  have c: "same_input b c"
    using assms(2) m(2) by (rule same_input_trans)
  have len: "in_length b' = in_length b"
    using assms(2) by (simp add: same_input_def)
  show ?thesis
  proof (cases r)
    case None
    then show ?thesis
      using m(1) c by (simp add: or_fail_def returns_fail)
  next
    case (Some x)
    then show ?thesis
      using m assms(3) [OF c, of x] len by (simp add: or_fail_def)
  qed
qed

lemma returns_skip:
  assumes "in_ok b" "same_input b b1" "in_offset b1 \<le> in_length b"
    and "\<And>b2. same_input b b2 \<Longrightarrow> in_offset b2 < in_length b \<Longrightarrow>
      in_offset b1 < in_length b \<longrightarrow> in_offset b1 \<le> in_offset b2 \<Longrightarrow> returns b lo (f b2)"
  shows "returns b lo (buffer_skip_whitespace b1 \<bind> f)"
proof -
  have ok: "in_ok b1" "in_offset b1 \<le> in_length b1" "in_length b1 = in_length b"
    using assms(1-3) same_input_ok [OF assms(2,1)] by (auto simp: same_input_def)
  obtain b2 where b2: "buffer_skip_whitespace b1 = Some b2" "same_input b1 b2" "in_offset b2 < in_length b1"
      "in_offset b1 < in_length b1 \<longrightarrow> in_offset b1 \<le> in_offset b2"
    using skip_ex [OF ok(1,2)] by blast
  have "returns b lo (f b2)"
    using assms(4) [OF same_input_trans [OF assms(2) b2(2)]] b2(3,4) ok(3) by simp
  then show ?thesis
    by (simp add: b2(1))
qed

lemma returns_is_at:
  assumes "in_ok b" "same_input b b1"
    and "\<And>r. (r \<longrightarrow> in_offset b1 < in_length b) \<Longrightarrow>
      (r \<longrightarrow> \<not> P NUL \<longrightarrow> in_offset b1 + 1 < in_length b) \<Longrightarrow> returns b lo (f r)"
  shows "returns b lo (is_at b1 P \<bind> f)"
proof -
  have ok: "in_ok b1" and len: "in_length b1 = in_length b"
    using assms(1,2) same_input_ok [OF assms(2,1)] by (auto simp: same_input_def)
  obtain r where r: "is_at b1 P = Some r" "r \<longrightarrow> in_offset b1 < in_length b1"
    using is_at_ex [OF ok, of P] by blast
  have "r \<longrightarrow> \<not> P NUL \<longrightarrow> in_offset b1 + 1 < in_length b1"
    using is_at_not_end [OF ok, of P] r(1) by (cases r) auto
  then have "returns b lo (f r)"
    using assms(3) [of r] r(2) len by simp
  then show ?thesis
    by (simp add: r(1))
qed

lemma same_input_simps [simp]:
  "same_input b b"
  "same_input b (move n b1) \<longleftrightarrow> same_input b b1"
  "same_input b (b1\<lparr>in_offset := i\<rparr>) \<longleftrightarrow> same_input b b1"
  "same_input b (b1\<lparr>in_depth := d\<rparr>) \<longleftrightarrow> same_input b b1"
  "same_input b (b1\<lparr>in_depth := d, in_offset := i\<rparr>) \<longleftrightarrow> same_input b b1"
  by (simp_all add: same_input_def move_def)

lemma move_offset [simp]: "in_offset (move n b) = in_offset b + n" "in_length (move n b) = in_length b"
  "in_content (move n b) = in_content b"
  by (simp_all add: move_def)

lemma close_list_returns:
  "same_input b b1 \<Longrightarrow> lo \<le> in_offset b1 \<Longrightarrow> in_offset b1 + 1 < in_length b \<Longrightarrow>
   returns b lo (close_list ty head item b1)"
  unfolding close_list_def by (intro returns_done) auto

lemma parse_list_returns:
  assumes ok: "in_ok b" "in_offset b + 1 < in_length b"
    and opened: "\<exists>r. opened (b\<lparr>in_depth := in_depth b + 1\<rparr>) = Some r" and closing: "closing \<noteq> NUL"
    and el: "\<And>b1. same_input b b1 \<Longrightarrow> in_offset b \<le> in_offset b1 \<Longrightarrow> in_offset b1 + 1 < in_length b \<Longrightarrow>
      returns b1 (in_offset b1) (elements b1)"
  shows "returns b (in_offset b) (parse_list ty opened closing elements item b)"
proof (cases "CJSON_NESTING_LIMIT \<le> in_depth b \<or> opened (b\<lparr>in_depth := in_depth b + 1\<rparr>) = Some False")
  case True
  then show ?thesis
    by (auto simp: parse_list_def intro!: returns_fail)
next
  case False
  then have op: "opened (b\<lparr>in_depth := in_depth b + 1\<rparr>) = Some True" and d: "\<not> CJSON_NESTING_LIMIT \<le> in_depth b"
    using opened by (auto simp: not_le)
  have main: "returns b (in_offset b) (buffer_skip_whitespace (move 1 (b\<lparr>in_depth := in_depth b + 1\<rparr>)) \<bind> (\<lambda>b.
     is_at b (\<lambda>c. c = closing) \<bind> (\<lambda>empty. if empty then close_list ty [] item b
          else if \<not> can_access_at_index b 0 then Some (None, b\<lparr>in_offset := in_offset b - 1\<rparr>)
          else or_fail (elements (b\<lparr>in_offset := in_offset b - 1\<rparr>)) (\<lambda>head b. is_at b (\<lambda>c. c = closing) \<bind> (\<lambda>closed.
            if closed then close_list ty head item b else Some (None, b))))))"
  proof (rule returns_skip [OF ok(1)], goal_cases)
    case (3 b2)
    then have o2: "in_offset b + 1 \<le> in_offset b2"
      using ok(2) by simp
    show ?case
    proof (rule returns_is_at [OF ok(1) 3(1)], goal_cases)
      case r: (1 r)
      show ?case
      proof (cases r)
        case True
        then show ?thesis
          using r closing o2 3 by (auto intro: close_list_returns)
      next
        case r: False
        have "returns b (in_offset b) (or_fail (elements (b2\<lparr>in_offset := in_offset b2 - 1\<rparr>))
          (\<lambda>head b. is_at b (\<lambda>c. c = closing) \<bind> (\<lambda>closed. if closed then close_list ty head item b else Some (None, b))))"
        proof (rule returns_or_fail [OF el], goal_cases)
          case (5 x c)
          show ?case
          proof (rule returns_is_at [OF ok(1) 5(1)], goal_cases)
            case (1 r)
            then show ?case
              using closing 5 o2 by (auto intro!: close_list_returns returns_fail)
          qed
        qed (use 3 o2 in auto)
        moreover have "can_access_at_index b2 0"
          using 3 by (simp add: can_access_at_index_def same_input_def)
        ultimately show ?thesis
          using r by simp
      qed
    qed
  qed (use ok(2) in auto)
  show ?thesis
    using main d op by (simp add: parse_list_def Let_def)
qed

lemma list_tail_returns:
  assumes ok: "in_ok b" and c: "same_input b c" "lo < in_offset c" "in_offset c < in_length b"
    and again: "\<And>b2. same_input b b2 \<Longrightarrow> in_offset c \<le> in_offset b2 \<Longrightarrow> in_offset b2 + 1 < in_length b \<Longrightarrow>
      returns b2 (in_offset b2) (again b2)"
  shows "returns b lo (buffer_skip_whitespace c \<bind> (\<lambda>b. is_at b (\<lambda>c. c = 44) \<bind> (\<lambda>r.
    if r then or_fail (again b) (\<lambda>items b. Some (Some (x # items), b)) else Some (Some [x], b))))"
proof (rule returns_skip [OF ok c(1)], goal_cases)
  case b2: (2 b2)
  show ?case
  proof (rule returns_is_at [OF ok b2(1)], goal_cases)
    case r: (1 r)
    have "returns b lo (or_fail (again b2) (\<lambda>items b. Some (Some (x # items), b)))" if r
    proof (rule returns_or_fail [OF again b2(1)], goal_cases)
      case (4 y d)
      then show ?case
        using c b2 by (intro returns_done) auto
    qed (use r that b2 c in auto)
    then show ?case
      using c b2 by (auto intro!: returns_done)
  qed
qed (use c in auto)

lemma parse_returns:
  assumes dbl: "libc_strtod dbl"
  shows "in_ok b \<Longrightarrow> in_offset b < in_length b \<Longrightarrow> 3 * (in_length b - in_offset b) + 1 \<le> fuel \<Longrightarrow>
      returns b (in_offset b) (parse_value fuel dbl mem item b)"
    and "in_ok b \<Longrightarrow> in_offset b + 1 < in_length b \<Longrightarrow> 3 * (in_length b - in_offset b) \<le> fuel \<Longrightarrow>
      returns b (in_offset b) (parse_elements fuel dbl mem b)"
    and "in_ok b \<Longrightarrow> in_offset b + 1 < in_length b \<Longrightarrow> 3 * (in_length b - in_offset b) \<le> fuel \<Longrightarrow>
      returns b (in_offset b) (parse_members fuel dbl mem b)"
proof (induction fuel arbitrary: b item)
  case (Suc fuel)
  {
    case 1
    have ok: "in_ok b" and off: "in_offset b < in_length b" and fuel: "3 * (in_length b - in_offset b) \<le> fuel"
      using 1 by simp_all
    have lit: "\<exists>r. literal b w = Some r \<and> (r \<longrightarrow> in_offset b + length w < in_length b)" if "NUL \<notin> set w" "w \<noteq> []" for w
      using literal_ex [OF ok, of w] that by auto
    obtain n f t where l: "literal b (s2b ''null'') = Some n" "n \<longrightarrow> in_offset b + 4 < in_length b"
        "literal b (s2b ''false'') = Some f" "f \<longrightarrow> in_offset b + 5 < in_length b"
        "literal b (s2b ''true'') = Some t" "t \<longrightarrow> in_offset b + 4 < in_length b"
      using lit [of "s2b ''null''"] lit [of "s2b ''false''"] lit [of "s2b ''true''"] by (auto simp: s2b_def)
    have at: "\<exists>r. is_at b P = Some r \<and> (r \<longrightarrow> \<not> P NUL \<longrightarrow> in_offset b + 1 < in_length b)" for P
      using is_at_ex [OF ok, of P] is_at_not_end [OF ok, of P] by (metis (full_types))
    obtain q d a ob where c: "is_at b (\<lambda>c. c = 34) = Some q" "is_at b (\<lambda>c. c = 45 \<or> 48 \<le> c \<and> c \<le> 57) = Some d"
        "is_at b (\<lambda>c. c = 91) = Some a" "a \<longrightarrow> in_offset b + 1 < in_length b"
        "is_at b (\<lambda>c. c = 123) = Some ob" "ob \<longrightarrow> in_offset b + 1 < in_length b"
      using at [of "\<lambda>c. c = 34"] at [of "\<lambda>c. c = 45 \<or> 48 \<le> c \<and> c \<le> 57"] at [of "\<lambda>c. c = 91"] at [of "\<lambda>c. c = 123"]
      by auto
    have str: "returns b (in_offset b) (parse_string mem item b)"
      using parse_string_ex [OF ok off] by (simp add: returns_def)
    have num: "returns b (in_offset b) (parse_number dbl item b)"
      using parse_number_ex [OF ok dbl] by (simp add: returns_def)
    have el: "returns b1 (in_offset b1) (parse_elements fuel dbl mem b1)"
        "returns b1 (in_offset b1) (parse_members fuel dbl mem b1)"
      if "same_input b b1" "in_offset b \<le> in_offset b1" "in_offset b1 + 1 < in_length b" for b1
      using Suc.IH(2,3) [of b1] same_input_ok [OF that(1) ok] that fuel by (simp_all add: same_input_def)
    have arr: "returns b (in_offset b) (parse_list cJSON_Array (\<lambda>b. map_option (\<lambda>c. c = 91) (at_offset b 0)) 93
        (parse_elements fuel dbl mem) item b)" if a
      using c(4) that off ok el(1) by (intro parse_list_returns) (auto simp: at_offset_def in_ok_def)
    have obj: "returns b (in_offset b) (parse_list cJSON_Object (\<lambda>b. is_at b (\<lambda>c. c = 123)) 125
        (parse_members fuel dbl mem) item b)" if ob
      using c(6) that ok el(2) is_at_ex [of "b\<lparr>in_depth := in_depth b + 1\<rparr>" "\<lambda>c. c = 123"]
      by (intro parse_list_returns) (auto simp: in_ok_def)
    have lits: "returns b (in_offset b) (Some (r, move k b))" if "in_offset b + k < in_length b" "0 < k" for r k
      using that by (intro returns_done) auto
    show ?case
      using l c str num arr obj lits [of 4] lits [of 5]
      by (cases n; cases f; cases t) (simp_all add: returns_fail)
  next
    case 2
    show ?case
    proof (cases "cJSON_New_Item dbl (mem (in_offset b))")
      case None
      then show ?thesis
        by (simp add: returns_fail)
    next
      case (Some new)
      have "returns b (in_offset b) (buffer_skip_whitespace (move 1 b) \<bind> (\<lambda>b.
          or_fail (parse_value fuel dbl mem new b) (\<lambda>item b. buffer_skip_whitespace b \<bind> (\<lambda>b.
            is_at b (\<lambda>c. c = 44) \<bind> (\<lambda>again.
            if again then or_fail (parse_elements fuel dbl mem b) (\<lambda>items b. Some (Some (item # items), b))
            else Some (Some [item], b))))))"
      proof (rule returns_skip [OF 2(1)], goal_cases)
        case b1: (3 b1)
        then have o1: "in_offset b < in_offset b1"
          using 2 by simp
        show ?case
        proof (rule returns_or_fail [OF Suc.IH(1) b1(1)], goal_cases)
          case c: (4 x c)
          show ?case
          proof (rule list_tail_returns [OF 2(1) c(1)])
            show "returns b2 (in_offset b2) (parse_elements fuel dbl mem b2)"
              if "same_input b b2" "in_offset c \<le> in_offset b2" "in_offset b2 + 1 < in_length b" for b2
              using Suc.IH(2) [of b2] that c o1 2 same_input_ok [OF that(1)] by (simp add: same_input_def)
          qed (use c o1 in auto)
        qed (use b1 o1 2 same_input_ok [OF b1(1)] in \<open>auto simp: same_input_def\<close>)
      qed (use 2 in auto)
      then show ?thesis
        using Some by simp
    qed
  next
    case 3
    show ?case
    proof (cases "cJSON_New_Item dbl (mem (in_offset b))")
      case None
      then show ?thesis
        by (simp add: returns_fail)
    next
      case (Some new)
      have "returns b (in_offset b) (buffer_skip_whitespace (move 1 b) \<bind> (\<lambda>b.
          or_fail (parse_string mem new b) (\<lambda>named b. buffer_skip_whitespace b \<bind> (\<lambda>b.
            is_at b (\<lambda>c. c = 58) \<bind> (\<lambda>colon. if \<not> colon then Some (None, b)
            else buffer_skip_whitespace (move 1 b) \<bind> (\<lambda>b.
              or_fail (parse_value fuel dbl mem (name_of_value named) b) (\<lambda>item b.
                buffer_skip_whitespace b \<bind> (\<lambda>b. is_at b (\<lambda>c. c = 44) \<bind> (\<lambda>again.
                if again then or_fail (parse_members fuel dbl mem b) (\<lambda>items b. Some (Some (item # items), b))
                else Some (Some [item], b))))))))))"
      proof (rule returns_skip [OF 3(1)], goal_cases)
        case b1: (3 b1)
        then have o1: "in_offset b < in_offset b1"
          using 3 by simp
        have str: "returns b1 (in_offset b1) (parse_string mem new b1)"
          using parse_string_ex [of b1] same_input_ok [OF b1(1) 3(1)] b1 by (simp add: returns_def same_input_def)
        show ?case
        proof (rule returns_or_fail [OF str b1(1)], goal_cases)
          case c: (1 named c)
          show ?case
          proof (rule returns_skip [OF 3(1) c(1)], goal_cases)
            case b2: (2 b2)
            show ?case
            proof (rule returns_is_at [OF 3(1) b2(1)], goal_cases)
              case r: (1 colon)
              have "returns b (in_offset b) (buffer_skip_whitespace (move 1 b2) \<bind> (\<lambda>b.
                or_fail (parse_value fuel dbl mem (name_of_value named) b) (\<lambda>item b.
                buffer_skip_whitespace b \<bind> (\<lambda>b. is_at b (\<lambda>c. c = 44) \<bind> (\<lambda>again.
                if again then or_fail (parse_members fuel dbl mem b) (\<lambda>items b. Some (Some (item # items), b))
                else Some (Some [item], b))))))" if colon
              proof (rule returns_skip [OF 3(1)], goal_cases)
                case b3: (3 b3)
                have o3: "in_offset b < in_offset b3"
                  using b3 r that b2 c o1 by simp
                show ?case
                proof (rule returns_or_fail [OF Suc.IH(1) b3(1)], goal_cases)
                  case d: (4 item d)
                  show ?case
                  proof (rule list_tail_returns [OF 3(1) d(1)])
                    show "returns b4 (in_offset b4) (parse_members fuel dbl mem b4)"
                      if "same_input b b4" "in_offset d \<le> in_offset b4" "in_offset b4 + 1 < in_length b" for b4
                      using Suc.IH(3) [of b4] that d o3 3 same_input_ok [OF that(1)] by (simp add: same_input_def)
                  qed (use d o3 in auto)
                qed (use b3 o3 3 same_input_ok [OF b3(1)] in \<open>auto simp: same_input_def\<close>)
              qed (use r that b2 in auto)
              then show ?case
                using b2 by (auto intro!: returns_fail)
            qed
          qed (use c in auto)
        qed
      qed (use 3 in auto)
      then show ?thesis
        using Some by simp
    qed
  }
qed simp_all

section \<open>The entry point\<close>

lemma bom_ex:
  assumes "in_ok b"
  shows "\<exists>b'. skip_utf8_bom b = Some b' \<and> same_input b b' \<and> (in_offset b < in_length b \<longrightarrow> in_offset b' < in_length b)"
  using assms by (auto simp: skip_utf8_bom_def slice_def in_ok_def can_access_at_index_def)

lemma parse_opts_total:
  assumes dbl: "libc_strtod dbl"
  shows "\<exists>r n. cJSON_ParseWithOpts dbl mem root_mem value require_null_terminated = Some (r, n) \<and> n \<le> length value"
proof (cases "cJSON_New_Item dbl root_mem")
  case None
  then show ?thesis
    by (simp add: cJSON_ParseWithOpts_def)
next
  case (Some item)
  define b0 where "b0 = \<lparr>in_content = value @ [NUL], in_length = Suc (length value), in_offset = 0, in_depth = 0\<rparr>"
  have ok: "in_ok b0" and len: "in_length b0 = length value + 1" "in_offset b0 = 0"
    by (simp_all add: b0_def in_ok_def)
  obtain b1 where b1: "skip_utf8_bom b0 = Some b1" "same_input b0 b1" "in_offset b1 < in_length b0"
    using bom_ex [OF ok] len by auto
  have ok1: "in_ok b1" "in_offset b1 \<le> in_length b1" "in_length b1 = in_length b0"
    using same_input_ok [OF b1(2) ok] b1(2,3) by (simp_all add: same_input_def)
  obtain b2 where b2: "buffer_skip_whitespace b1 = Some b2" "same_input b1 b2" "in_offset b2 < in_length b1"
    using skip_ex [OF ok1(1,2)] by blast
  have ok2: "in_ok b2" "in_offset b2 < in_length b2" "in_length b2 = length value + 1"
    using same_input_ok [OF b2(2) ok1(1)] b2(2,3) ok1(3) len by (simp_all add: same_input_def)
  have "returns b2 (in_offset b2) (parse_value (parse_fuel (Suc (length value))) dbl mem item b2)"
    using ok2 by (intro parse_returns(1) [OF dbl]) (simp_all add: parse_fuel_def)
  then obtain r b3 where b3: "parse_value (parse_fuel (Suc (length value))) dbl mem item b2 = Some (r, b3)"
      "same_input b2 b3" "r \<noteq> None \<longrightarrow> in_offset b3 < in_length b2"
    unfolding returns_def by blast
  have ok3: "in_ok b3" "in_length b3 = length value + 1"
    using same_input_ok [OF b3(2) ok2(1)] b3(2) ok2(3) by (simp_all add: same_input_def)
  note run = cJSON_ParseWithOpts_def Let_def Some b0_def [symmetric] b1(1) b2(1) b3(1)
  show ?thesis
  proof (cases "r = None \<or> \<not> require_null_terminated")
    case True
    then show ?thesis
      using b3(3) ok2(3) ok3(2) by (cases r) (auto simp: run)
  next
    case False
    then have "in_offset b3 \<le> in_length b3"
      using b3(3) ok2(3) ok3(2) by simp
    then obtain b4 where b4: "buffer_skip_whitespace b3 = Some b4" "same_input b3 b4" "in_offset b4 < in_length b3"
      using skip_ex [OF ok3(1)] by blast
    have ok4: "in_ok b4" "in_length b4 = length value + 1" "in_offset b4 < in_length b4"
      using same_input_ok [OF b4(2) ok3(1)] b4(2,3) ok3(2) by (simp_all add: same_input_def)
    then have "at_offset b4 0 = Some (in_content b4 ! in_offset b4)"
      by (simp add: at_offset_def in_ok_def)
    then show ?thesis
      using False b4(1) ok4 by (auto simp: run)
  qed
qed

end
