(* ===== verification/Cjson_Double.thy ===== *)
theory Cjson_Double
  imports Cjson_Text Cjson_Parse_Safe Decimal
begin

text \<open>
  An arithmetic with which the hypotheses on \<open>double\<close> and the C library hold: the integers.  Those
  below \<open>10 ^ 15\<close>, which \<open>double\<close> represents exactly and \<open>%1.15g\<close> prints without point or exponent,
  stand for themselves, and the others for values that are not finite.
\<close>

definition int_double :: "int libc_double" where
  "int_double = \<lparr>d_zero = 0, d_of_int = id, d_eq = (=), d_nonfinite = (\<lambda>d. 10 ^ 15 \<le> \<bar>d\<bar>),
     d_le = (\<le>), d_trunc = id, d_g15 = dec_int, d_g17 = dec_int,
     d_scan = (\<lambda>s. let (v, n) = read_int s in if n = 0 then None else Some v), d_strtod = read_int\<rparr>"

lemma int_number_text: "number_text int_double d = (if 10 ^ 15 \<le> \<bar>d\<bar> then s2b ''null'' else dec_int d)"
  by (simp add: number_text_def int_double_def Let_def split: option.split)

lemma length_dec_int: "\<bar>i\<bar> < 10 ^ 15 \<Longrightarrow> length (dec_int i) \<le> 16"
  using length_dec_nat [of "nat (- i)" 15] length_dec_nat [of "nat i" 15]
  by (auto simp: dec_int_def nat_less_iff)

lemma int_libc_g: "libc_g int_double"
proof -
  have "length (dec_int d) \<le> 25" if "\<not> 10 ^ 15 \<le> \<bar>d\<bar>" for d
    using length_dec_int [of d] that by simp
  then show ?thesis
    by (simp add: libc_g_def int_number_text dec_int_no_NUL)
qed

lemma int_libc_strtod: "libc_strtod int_double"
proof -
  have "length (takeWhile is_digit s) + (if t \<noteq> [] \<and> hd t = 45 then 1 else 0) \<le> length t"
    if "s = (if t \<noteq> [] \<and> hd t = 45 then tl t else t)" for s t :: bytes
    using that length_takeWhile_le [of is_digit s] length_takeWhile_le [of is_digit "tl t"] by (cases t) auto
  then have "snd (read_int t) \<le> length t" for t
    by (simp add: read_int_def Let_def)
  then show ?thesis
    by (simp add: libc_strtod_def int_double_def)
qed

text \<open>An allocator that always has memory, filled with a recognisable byte.\<close>

definition plenty :: internal_hooks where
  "plenty = \<lparr>allocate = (\<lambda>r n. Some (replicate n 170)), has_reallocate = True\<rparr>"

lemma plenty_ok: "hooks_ok plenty" "memory_left plenty"
  by (simp_all add: hooks_ok_def memory_left_def plenty_def)


section \<open>Properties of the printer\<close>

text \<open>
  C23: the printer implements the text function: for an item that has a text, whatever new blocks
  contain and whether or not there is \<open>realloc\<close>, no write leaves the buffer and no block is freed
  twice; a returned block holds the text and its terminator; and when memory lasts and the text is
  shorter than \<open>INT_MAX\<close> by four bytes, a block is returned.
\<close>

theorem print_writes_text:
  assumes "libc_g dbl" "hooks_ok hooks" "c_strings item" "json_text dbl fmt 0 item = Some t"
  shows "\<exists>r. print dbl (Some item) fmt hooks = Some r \<and>
    (\<forall>b. r = Some b \<longrightarrow> take (length t + 1) b = t @ [NUL]) \<and>
    (memory_left hooks \<and> length t + 4 \<le> INT_LIMIT \<longrightarrow> r \<noteq> None)"
  by (rule print_spec [OF assms])

definition sample_item :: "int cJSON" where
  "sample_item = Item 64 None 0 0 None
     [Item 16 (Some [10, 65]) 0 0 (Some [107]) [], Item 32 None 0 0 (Some [108]) [Item 8 None (-7) (-7) None []]]"

lemma sample_text: "json_text int_double False 0 sample_item
    = Some (s2b [CHR 0x7B, CHR 0x22, CHR ''k'', CHR 0x22, CHR '':'', CHR 0x22, CHR 0x5C, CHR ''n'', CHR ''A'', CHR 0x22,
        CHR '','', CHR 0x22, CHR ''l'', CHR 0x22, CHR '':'', CHR ''['', CHR ''-'', CHR ''7'', CHR '']'', CHR 0x7D])"
  by (simp add: sample_item_def json_text.simps Let_def cjson_types int_number_text dec_int_def
      dec_nat.simps string_text_def escape_def one_char_escape_def)

theorem print_writes_text_witness:
  "\<exists>r. print int_double (Some sample_item) False plenty = Some r \<and> r \<noteq> None"
proof -
  obtain t where t: "json_text int_double False 0 sample_item = Some t" "length t + 4 \<le> INT_LIMIT"
    using sample_text by (auto simp: INT_LIMIT_def)
  have "c_strings sample_item"
    by (simp add: sample_item_def)
  from print_writes_text [OF int_libc_g plenty_ok(1) this t(1)] show ?thesis
    using plenty_ok(2) t(2) by blast
qed

text \<open>
  C24: printing into an array of the caller never writes outside its first \<open>len\<close> bytes and reports
  success exactly with the terminated text in them; it is bound to succeed when the array has four
  bytes more than the text (the header asks callers for five).
\<close>

theorem preallocated_bounds:
  assumes "libc_g dbl" "hooks_ok hooks" "c_strings item" "json_text dbl fmt 0 item = Some t"
    and "0 \<le> len" "nat len \<le> length buf"
  shows "\<exists>ok r. cJSON_PrintPreallocated dbl hooks (Some item) (Some buf) len fmt = Some (ok, r) \<and>
    (if ok then (\<exists>b. r = Some b \<and> take (length t + 1) b = t @ [NUL]) \<and> length t < nat len
     else \<not> int (length t) + 4 \<le> len \<or> INT_MAX < int (length t) + 4)"
  by (rule preallocated_spec [OF assms])

theorem preallocated_bounds_witness:
  "\<exists>ok r. cJSON_PrintPreallocated int_double plenty (Some sample_item) (Some (replicate 24 0)) 24 False = Some (ok, r) \<and> ok"
proof -
  obtain t where t: "json_text int_double False 0 sample_item = Some t" "length t = 20"
    using sample_text by auto
  have "c_strings sample_item"
    by (simp add: sample_item_def)
  from preallocated_bounds [OF int_libc_g plenty_ok(1) this t(1), of 24 "replicate 24 0"] show ?thesis
    using t(2) by (auto simp: INT_MAX_def split: if_splits)
qed

text \<open>
  A raw item without a string has no text, and the renderer frees the buffer before it reports
  the error; \<open>print\<close> then frees it a second time.
\<close>

theorem print_raw_double_free:
  assumes "kind item = cJSON_Raw" "i_valuestring item = None" "allocate hooks First_block 256 = Some block"
  shows "print dbl (Some item) fmt hooks = None"
  using assms
  by (cases item)
    (simp add: print_def print_value.simps kind_def print_raw_def deallocate_def print_fail_def cjson_types)

theorem print_raw_double_free_witness: "print int_double (Some (Item 128 None 0 0 None [])) True plenty = None"
  by (rule print_raw_double_free [where block = "replicate 256 170"]) (simp_all add: kind_def cjson_types plenty_def)

section \<open>Properties of the parser\<close>

text \<open>
  C25: the parser is total: on every byte string, with allocations that succeed or fail in any
  pattern, it ends, reads nothing outside the string and its terminator, writes nothing outside the
  arrays it allocates for string values, and gives its caller a position inside the text.
\<close>

theorem parse_total:
  assumes "libc_strtod dbl"
  shows "\<exists>r n. cJSON_ParseWithOpts dbl mem root_mem value require_null_terminated = Some (r, n) \<and> n \<le> length value"
  by (rule parse_opts_total [OF assms])

theorem parse_total_witness:
  "\<exists>r n. cJSON_ParseWithOpts int_double (\<lambda>_. True) True (s2b [CHR 0x22, CHR 0x5C]) True = Some (r, n) \<and> n \<le> 2"
  using parse_total [OF int_libc_strtod, of "\<lambda>_. True" True "s2b [CHR 0x22, CHR 0x5C]" True]
  by (simp add: numeral_2_eq_2)

end
