(* ===== verification/Cjson_Roundtrip.thy ===== *)
theory Cjson_Roundtrip
  imports Cjson_Double
begin

text \<open>
  The parser reads back what the printer writes, formatted or not: strings through their escapes,
  numbers through the C library, arrays and objects up to the nesting limit.
\<close>

section \<open>The part of the buffer that is left\<close>

definition left :: "parse_buffer \<Rightarrow> bytes" where
  "left b = drop (in_offset b) (in_content b)"

definition whole :: "parse_buffer \<Rightarrow> bool" where
  "whole b \<longleftrightarrow> in_length b = length (in_content b)"

lemma left_simps [simp]:
  "left (move n b) = drop n (left b)" "whole (move n b) \<longleftrightarrow> whole b"
  "left (b\<lparr>in_depth := d\<rparr>) = left b" "whole (b\<lparr>in_depth := d\<rparr>) \<longleftrightarrow> whole b"
  "whole (b\<lparr>in_offset := i\<rparr>) \<longleftrightarrow> whole b"
  "in_depth (move n b) = in_depth b"
  by (simp_all add: left_def whole_def move_def add.commute)

lemma move_move [simp]: "move m (move n b) = move (n + m) b"
  by (simp add: move_def)

lemma move_0 [simp]: "move 0 b = b"
  by (simp add: move_def)

lemma drop_get: "drop i xs = a # r \<Longrightarrow> get xs i = Some a \<and> drop (Suc i) xs = r \<and> i < length xs"
  by (metis drop_Suc tl_drop list.sel(3) get_Some nth_via_drop not_le_imp_less drop_all list.discI)

lemma at_left: "left b = c # r \<Longrightarrow> at_offset b 0 = Some c"
  using drop_get [of "in_offset b" "in_content b" c r] by (simp add: left_def at_offset_def)

lemma left_length: "whole b \<Longrightarrow> left b \<noteq> [] \<Longrightarrow> in_offset b + length (left b) = in_length b"
  by (simp add: left_def whole_def)

lemma can_access_left: "whole b \<Longrightarrow> can_access_at_index b i \<longleftrightarrow> i < length (left b)"
  by (auto simp: can_access_at_index_def whole_def left_def)

lemma is_at_left: "whole b \<Longrightarrow> left b = c # r \<Longrightarrow> is_at b P = Some (P c)"
  by (simp add: is_at_def can_access_left at_left)

lemma literal_left: "whole b \<Longrightarrow> left b \<noteq> [] \<Longrightarrow> literal b w = Some (take (length w) (left b) = w)"
proof (cases "length w \<le> length (left b)")
  case True
  moreover assume "whole b" "left b \<noteq> []"
  ultimately show ?thesis
    using left_length [of b] by (auto simp: literal_def can_read_def slice_def left_def whole_def)
next
  case False
  moreover assume "whole b" "left b \<noteq> []"
  moreover have "take (length w) (left b) \<noteq> w"
    using False by (metis length_take min_def nat_le_linear)
  ultimately show ?thesis
    using left_length [of b] by (auto simp: literal_def can_read_def)
qed

lemma skip_from_left:
  "drop i xs = ws @ c # r \<Longrightarrow> \<forall>w \<in> set ws. w \<le> 32 \<Longrightarrow> 32 < c \<Longrightarrow> skip_from xs (length xs) i = Some (i + length ws)"
proof (induction ws arbitrary: i)
  case Nil
  then show ?case
    using drop_get [of i xs c r] by (subst skip_from.simps) auto
next
  case (Cons w ws)
  have "get xs i = Some w \<and> drop (Suc i) xs = ws @ c # r \<and> i < length xs"
    using Cons.prems(1) by (intro drop_get) simp
  then show ?case
    using Cons.prems(2,3) Cons.IH [of "Suc i"] by (subst skip_from.simps) simp
qed

lemma skip_left:
  assumes "whole b" "left b = ws @ c # r" "\<forall>w \<in> set ws. w \<le> 32" "32 < c"
  shows "buffer_skip_whitespace b = Some (move (length ws) b)"
proof -
  have "in_offset b + length ws < in_length b"
    using left_length [OF assms(1)] assms(2) by simp
  then show ?thesis
    using skip_from_left [OF assms(2) [unfolded left_def] assms(3,4)] assms(1)
    by (simp add: buffer_skip_whitespace_def whole_def move_def)
qed

lemma skip_end:
  assumes "whole b" "left b = [NUL]"
  shows "buffer_skip_whitespace b = Some b"
proof -
  have g: "get (in_content b) (in_offset b) = Some NUL" "length (in_content b) = Suc (in_offset b)"
    using assms drop_get [of "in_offset b" "in_content b" NUL "[]"] left_length [of b]
    by (simp_all add: left_def whole_def)
  have "skip_from (in_content b) (length (in_content b)) (in_offset b) = Some (Suc (in_offset b))"
    unfolding g(2) by (subst skip_from.simps, subst skip_from.simps) (simp add: g(1))
  then show ?thesis
    using assms(1) g(2) by (simp add: buffer_skip_whitespace_def whole_def)
qed

section \<open>Numbers\<close>

text \<open>
  What is asked of the C library: \<open>sprintf\<close> writes finite values as number literals; 17 digits
  determine a value, so that \<open>strtod\<close> reads \<open>%1.17g\<close> back; \<open>sscanf\<close> with \<open>%lg\<close> reads what \<open>strtod\<close> reads;
  and what it reads from \<open>%1.15g\<close> of a value, if it compares equal to the value, is that value (only
  the two zeros are equal and different, and the sign is printed).  Nothing is asked of 15 digits:
  they need not determine the value.
\<close>

definition number_literal :: "bytes \<Rightarrow> bool" where
  "number_literal t \<longleftrightarrow> (\<forall>c \<in> set t. number_char c) \<and> (case t of [] \<Rightarrow> False | c # _ \<Rightarrow> c = 45 \<or> 48 \<le> c \<and> c \<le> 57)"

definition libc_read :: "('d, 'e) libc_double_scheme \<Rightarrow> bool" where
  "libc_read dbl \<longleftrightarrow> (\<forall>d. \<not> d_nonfinite dbl d \<longrightarrow>
     number_literal (d_g15 dbl d) \<and> number_literal (d_g17 dbl d) \<and>
     d_strtod dbl (d_g17 dbl d) = (d, length (d_g17 dbl d)) \<and>
     (\<forall>v. d_scan dbl (d_g15 dbl d) = Some v \<longrightarrow>
        d_strtod dbl (d_g15 dbl d) = (v, length (d_g15 dbl d)) \<and> (d_eq dbl v d \<longrightarrow> v = d)))"

text \<open>So the choice of \<open>print_number\<close> between the two texts is read back.\<close>

lemma number_text_reads:
  assumes "libc_read dbl" "\<not> d_nonfinite dbl d"
  shows "number_literal (number_text dbl d)" "d_strtod dbl (number_text dbl d) = (d, length (number_text dbl d))"
  using assms by (auto simp: libc_read_def number_text_def Let_def split: option.split)

lemma number_loop_left:
  assumes "whole b"
  shows "drop i (left b) = t @ c # r \<Longrightarrow> \<forall>c \<in> set t. number_char c \<Longrightarrow> \<not> number_char c \<Longrightarrow> length t < n \<Longrightarrow>
    number_loop n b i = Some t"
proof (induction t arbitrary: i n)
  case Nil
  then show ?case
    using assms drop_get [of "in_offset b + i" "in_content b" c r]
    by (cases n) (auto simp: left_def add.commute can_access_at_index_def whole_def at_offset_def)
next
  case (Cons a t)
  have d: "get (in_content b) (in_offset b + i) = Some a \<and> drop (Suc (in_offset b + i)) (in_content b) = t @ c # r \<and>
      in_offset b + i < length (in_content b)"
    using Cons.prems(1) by (intro drop_get) (simp add: left_def add.commute)
  obtain m where m: "n = Suc m"
    using Cons.prems(4) by (cases n) simp_all
  have "number_loop m b (Suc i) = Some t"
    using Cons.prems d m by (intro Cons.IH) (simp_all add: left_def add.commute)
  then show ?case
    using d m Cons.prems(2) assms by (auto simp: can_access_at_index_def whole_def at_offset_def)
qed

lemma parse_number_left:
  assumes "whole b" "left b = number_text dbl d @ c # r" "\<not> number_char c" "\<not> d_nonfinite dbl d"
    and "libc_g dbl" "libc_read dbl"
  shows "parse_number dbl item b = Some (Some (set_number dbl d item), move (length (number_text dbl d)) b)"
proof -
  have len: "length (number_text dbl d) < 63"
    using assms(5) by (meson libc_g_def le_less_trans numeral_less_iff semiring_norm)
  have "number_loop 63 b 0 = Some (number_text dbl d)"
    using assms len by (intro number_loop_left [of b 0 _ c r]) (auto dest: number_text_reads(1) simp: number_literal_def)
  moreover have "number_text dbl d \<noteq> []" "d_strtod dbl (number_text dbl d) = (d, length (number_text dbl d))"
    using number_text_reads [OF assms(6,4)] by (auto simp: number_literal_def)
  ultimately show ?thesis
    by (simp add: parse_number_def)
qed

section \<open>Strings\<close>

lemma drop_gets:
  assumes "drop i xs = ys @ r" "k < length ys"
  shows "get xs (i + k) = Some (ys ! k)"
proof -
  have "drop (i + k) xs = drop k (drop i xs)"
    by (simp add: add.commute)
  then have "drop (i + k) xs = drop k ys @ r"
    using assms by simp
  then have "drop (i + k) xs = ys ! k # drop (Suc k) ys @ r"
    using assms(2) by (simp add: drop_eq_Cons)
  from drop_get [OF this] show ?thesis
    by blast
qed

text \<open>The digits of \<open>\\u00XX\<close> give the control character back.\<close>

lemma control_code:
  assumes "(c :: byte) < 32"
  shows "\<exists>n. c = word_of_nat n \<and> n < 32"
  using assms by (intro exI [of _ "unat c"]) (simp add: word_less_nat_alt)

lemma all_less_32: "(\<forall>n < 32. P n) \<longleftrightarrow> (\<forall>n \<in> set [0..<32]. P (n :: nat))"
  by auto

lemma hex4_control:
  "n < 32 \<Longrightarrow> hex4_loop [48, 48, hex_lower (n div 16), hex_lower (n mod 16)] 4 0 0 = Some (word_of_nat n)"
proof -
  have "\<forall>n \<in> set [0..<32]. hex4_loop [48, 48, hex_lower (n div 16), hex_lower (n mod 16)] 4 0 0 = Some (word_of_nat n)"
    by code_simp
  then show "n < 32 \<Longrightarrow> ?thesis"
    by simp
qed

lemma utf8_control:
  "n < 32 \<Longrightarrow> utf8_encode (ucast (word_of_nat n :: u32)) = Some [word_of_nat n]"
proof -
  have "\<forall>n \<in> set [0..<32]. utf8_encode (ucast (word_of_nat n :: u32)) = Some [word_of_nat n]"
    by code_simp
  then show "n < 32 \<Longrightarrow> ?thesis"
    by simp
qed

lemma hex4_loop_drop:
  assumes "drop i xs = ys @ r"
  shows "k + n \<le> length ys \<Longrightarrow> hex4_loop xs n (i + k) h = hex4_loop ys n k h"
proof (induction n arbitrary: k h)
  case (Suc n)
  then have g: "get xs (i + k) = Some (ys ! k)" "get ys k = Some (ys ! k)"
    using drop_gets [OF assms, of k] by simp_all
  have "hex4_loop xs n (i + Suc k) h' = hex4_loop ys n (Suc k) h'" for h'
    using Suc.IH [of "Suc k" h'] Suc.prems by simp
  then show ?case
    by (simp only: hex4_loop.simps g) (auto split: option.split)
qed simp

lemma escape_cases:
  obtains (plain) "escape c = [c]" "c \<noteq> 34" "c \<noteq> 92"
  | (simple) e where "escape c = [92, e]" "simple_escape e = Some c"
  | (control) n where "escape c = [92, 117, 48, 48, hex_lower (n div 16), hex_lower (n mod 16)]" "n < 32" "c = word_of_nat n"
proof (cases "31 < c \<and> c \<noteq> 34 \<and> c \<noteq> 92")
  case True
  then show ?thesis
    by (intro plain) (simp_all add: escape_def)
next
  case False
  show ?thesis
  proof (cases "one_char_escape c")
    case (Some e)
    have "simple_escape e = Some c"
      using Some by (auto simp: one_char_escape_def simple_escape_def split: if_splits)
    then show ?thesis
      using False Some by (intro simple [of e]) (auto simp: escape_def)
  next
    case None
    then have "c \<noteq> 34" "c \<noteq> 92"
      by (auto simp: one_char_escape_def)
    then have "c < 32"
      using False by (simp add: not_less word_le_nat_alt word_less_nat_alt)
    then obtain n where n: "c = word_of_nat n" "n < 32"
      using control_code by blast
    then have u: "unat c = n"
      by (simp add: unat_of_nat take_bit_nat_eq_self)
    have "escape c = 92 # butlast (u04x c)"
      using False None by (auto simp: escape_def)
    then show ?thesis
      using n u by (intro control [of n]) (simp_all add: u04x_def)
  qed
qed

lemma hex_lower_plain: "n < 16 \<Longrightarrow> hex_lower n \<noteq> 34 \<and> hex_lower n \<noteq> 92"
proof -
  have "\<forall>n \<in> set [0..<16]. hex_lower n \<noteq> 34 \<and> hex_lower n \<noteq> 92"
    by code_simp
  then show "n < 16 \<Longrightarrow> ?thesis"
    by simp
qed

lemma scan_plain:
  assumes "drop i xs = c # r" "c \<noteq> 34" "c \<noteq> 92"
  shows "scan_string xs (length xs) i k = scan_string xs (length xs) (Suc i) k"
  using drop_get [OF assms(1)] assms(2,3) by (subst scan_string.simps) simp

lemma scan_pair:
  assumes "drop i xs = 92 # e # r"
  shows "scan_string xs (length xs) i k = scan_string xs (length xs) (i + 2) (Suc k)"
  using drop_get [OF assms] drop_get [of "Suc i" xs e r] by (subst scan_string.simps) simp

definition escaped :: "byte \<Rightarrow> nat" where
  "escaped c = (if length (escape c) = 1 then 0 else 1)"

lemma scan_escape:
  assumes d: "drop i xs = escape c @ r"
  shows "scan_string xs (length xs) i k = scan_string xs (length xs) (i + length (escape c)) (k + escaped c)"
proof (cases c rule: escape_cases)
  case plain
  then show ?thesis
    using d scan_plain [of i xs c r] by (simp add: escaped_def)
next
  case (simple e)
  then show ?thesis
    using d scan_pair [of i xs e r] by (simp add: escaped_def)
next
  case (control n)
  let ?h = "hex_lower (n div 16)" and ?l = "hex_lower (n mod 16)"
  have d0: "drop i xs = 92 # 117 # 48 # 48 # ?h # ?l # r"
    using d control(1) by simp
  then have d2: "drop (i + 2) xs = 48 # 48 # ?h # ?l # r"
    using drop_get [OF d0] drop_get [of "Suc i" xs] by simp
  have d3: "drop (Suc (i + 2)) xs = 48 # ?h # ?l # r"
    using drop_get [OF d2] by simp
  have d4: "drop (Suc (Suc (i + 2))) xs = ?h # ?l # r"
    using drop_get [OF d3] by simp
  have d5: "drop (Suc (Suc (Suc (i + 2)))) xs = ?l # r"
    using drop_get [OF d4] by simp
  have h: "?h \<noteq> 34 \<and> ?h \<noteq> 92" "?l \<noteq> 34 \<and> ?l \<noteq> 92"
    using control(2) hex_lower_plain [of "n div 16"] hex_lower_plain [of "n mod 16"] by simp_all
  have "scan_string xs (length xs) i k = scan_string xs (length xs) (Suc (Suc (Suc (Suc (i + 2))))) (Suc k)"
    using scan_pair [OF d0] scan_plain [OF d2] scan_plain [OF d3] scan_plain [OF d4] scan_plain [OF d5] h by simp
  then show ?thesis
    using control(1) by (simp add: escaped_def)
qed

lemma scan_text:
  "drop i xs = concat (map escape s) @ 34 # r \<Longrightarrow> scan_string xs (length xs) i k =
    Some (Some (i + length (concat (map escape s)), k + sum_list (map escaped s)))"
proof (induction s arbitrary: i k)
  case Nil
  then show ?case
    using drop_get [of i xs 34 r] by (subst scan_string.simps) simp
next
  case (Cons c s)
  have d: "drop i xs = escape c @ concat (map escape s) @ 34 # r"
    using Cons.prems by simp
  have "drop (i + length (escape c)) xs = drop (length (escape c)) (drop i xs)"
    by (simp add: add.commute)
  then have "drop (i + length (escape c)) xs = concat (map escape s) @ 34 # r"
    by (simp add: d)
  then show ?case
    using scan_escape [OF d] Cons.IH by (simp add: add.assoc)
qed

lemma unescape_escape:
  assumes d: "drop i xs = escape c @ r" and e: "i + length (escape c) \<le> input_end" and cap: "length out < cap"
  shows "unescape xs cap i input_end out = unescape xs cap (i + length (escape c)) input_end (out @ [c])"
proof (cases c rule: escape_cases)
  case plain
  then show ?thesis
    using d e cap drop_get [of i xs c r] by (subst unescape.simps) (simp add: write_out_def)
next
  case (simple x)
  then have "get xs i = Some 92" "get xs (Suc i) = Some x"
    using d drop_get [of i xs 92 "x # r"] drop_get [of "Suc i" xs x r] by simp_all
  then show ?thesis
    using simple e cap by (subst unescape.simps) (simp add: write_out_def)
next
  case (control n)
  let ?ys = "[48, 48, hex_lower (n div 16), hex_lower (n mod 16)]"
  have d0: "drop i xs = 92 # 117 # ?ys @ r"
    using d control(1) by simp
  have g: "get xs i = Some 92" "get xs (Suc i) = Some 117" and d2: "drop (i + 2) xs = ?ys @ r"
    using drop_get [OF d0] drop_get [of "Suc i" xs 117 "?ys @ r"] by simp_all
  have h: "parse_hex4 xs (i + 2) = Some (word_of_nat n)"
    using hex4_loop_drop [OF d2, of 0 4 0] hex4_control [OF control(2)] by (simp add: parse_hex4_def)
  have "(word_of_nat n :: u32) < 32"
    using control(2) by (simp add: word_less_nat_alt unat_of_nat take_bit_nat_eq_self)
  then have "\<not> (0xDC00 \<le> (word_of_nat n :: u32))" "\<not> (0xD800 \<le> (word_of_nat n :: u32))"
    by (simp_all add: not_le word_less_nat_alt)
  then have "utf16_literal_to_utf8 xs i input_end = Some (6, [c])"
    using control e h utf8_control [OF control(2)] by (simp add: utf16_literal_to_utf8_def Let_def)
  moreover have "length (escape c) = 6"
    by (simp add: control(1))
  ultimately show ?thesis
    using g e cap by (subst unescape.simps) (simp add: write_out_def simple_escape_def)
qed

lemma unescape_text:
  "drop i xs = concat (map escape s) @ r \<Longrightarrow> length out + length s \<le> cap \<Longrightarrow>
   unescape xs cap i (i + length (concat (map escape s))) out = Some (Inr (out @ s))"
proof (induction s arbitrary: i out)
  case Nil
  then show ?case
    by (subst unescape.simps) simp
next
  case (Cons c s)
  have d: "drop i xs = escape c @ concat (map escape s) @ r"
    using Cons.prems by simp
  have "drop (i + length (escape c)) xs = drop (length (escape c)) (drop i xs)"
    by (simp add: add.commute)
  then have "drop (i + length (escape c)) xs = concat (map escape s) @ r"
    by (simp add: d)
  from Cons.IH [OF this, of "out @ [c]"] show ?case
    using unescape_escape [OF d, of "i + length (concat (map escape (c # s)))" out cap] Cons.prems(2)
    by (simp add: add.assoc)
qed

lemma escaped_room: "length s + sum_list (map escaped s) \<le> length (concat (map escape s))"
proof (induction s)
  case (Cons c s)
  have "1 + escaped c \<le> length (escape c)"
    by (cases c rule: escape_cases) (simp_all add: escaped_def)
  then show ?case
    using Cons by simp
qed simp

lemma parse_string_left:
  assumes w: "whole b" and l: "left b = string_text (Some s) @ r" and n: "NUL \<notin> set s"
  shows "parse_string (\<lambda>_. True) (Item ty vs vi vd str ch) b =
    Some (Some (Item cJSON_String (Some s) vi vd str ch), move (length (string_text (Some s))) b)"
proof -
  let ?t = "concat (map escape s)" and ?xs = "in_content b" and ?o = "in_offset b"
  have d: "drop ?o ?xs = 34 # ?t @ 34 # r"
    using l by (simp add: left_def string_text_def)
  have d1: "drop (Suc ?o) ?xs = ?t @ 34 # r"
    using drop_get [OF d] by simp
  define k where "k = sum_list (map escaped s)"
  have sc: "scan_string ?xs (in_length b) (Suc ?o) 0 = Some (Some (Suc ?o + length ?t, k))"
    using scan_text [OF d1, of 0] w by (simp add: whole_def k_def)
  define cap where "cap = Suc (length ?t) - k"
  have room: "length s + 1 \<le> cap"
    using escaped_room [of s] by (simp add: cap_def k_def)
  have u: "unescape ?xs (cap + 1) (Suc ?o) (Suc ?o + length ?t) [] = Some (Inr s)"
    using unescape_text [OF d1, of "[]" "cap + 1"] room by simp
  have o: "write_out (cap + 1) s [NUL] = Some (s @ [NUL])"
    using room by (simp add: write_out_def)
  have "parse_string (\<lambda>_. True) (Item ty vs vi vd str ch) b =
      Some (Some (Item cJSON_String (Some s) vi vd str ch), b\<lparr>in_offset := Suc ?o + length ?t + 1\<rparr>)"
    using at_left [of b 34] l sc u o c_str_stop [OF n, of "[]"]
    by (simp add: parse_string_def Let_def string_text_def cap_def)
  then show ?thesis
    by (simp add: move_def string_text_def)
qed

section \<open>Items\<close>

text \<open>The items the parser makes, and how deep they nest arrays and objects.\<close>

fun canonical :: "('d, 'e) libc_double_scheme \<Rightarrow> 'd cJSON \<Rightarrow> bool" where
  "canonical dbl (Item ty vs vi vd str ch) \<longleftrightarrow>
     (if ty = cJSON_NULL \<or> ty = cJSON_False then vs = None \<and> vi = 0 \<and> vd = d_zero dbl \<and> ch = []
      else if ty = cJSON_True then vs = None \<and> vi = 1 \<and> vd = d_zero dbl \<and> ch = []
      else if ty = cJSON_Number then vs = None \<and> vi = saturate dbl vd \<and> \<not> d_nonfinite dbl vd \<and> ch = []
      else if ty = cJSON_String then
        (case vs of None \<Rightarrow> False | Some s \<Rightarrow> NUL \<notin> set s) \<and> vi = 0 \<and> vd = d_zero dbl \<and> ch = []
      else if ty = cJSON_Array then vs = None \<and> vi = 0 \<and> vd = d_zero dbl \<and>
        (\<forall>c \<in> set ch. i_string c = None \<and> canonical dbl c)
      else ty = cJSON_Object \<and> vs = None \<and> vi = 0 \<and> vd = d_zero dbl \<and>
        (\<forall>c \<in> set ch. (case i_string c of None \<Rightarrow> False | Some s \<Rightarrow> NUL \<notin> set s) \<and> canonical dbl c))"

fun nests :: "nat \<Rightarrow> 'd cJSON \<Rightarrow> bool" where
  "nests n (Item ty vs vi vd str ch) \<longleftrightarrow>
     (ty = cJSON_Array \<or> ty = cJSON_Object \<longrightarrow> 0 < n \<and> (\<forall>c \<in> set ch. nests (n - 1) c))"

definition fresh :: "('d, 'e) libc_double_scheme \<Rightarrow> u32 \<Rightarrow> 'd cJSON \<Rightarrow> 'd cJSON" where
  "fresh dbl ty item = Item ty None 0 (d_zero dbl) (i_string item) []"

definition tabs :: "bool \<Rightarrow> nat \<Rightarrow> bytes" where
  "tabs fmt depth = (if fmt then replicate depth 9 else [])"

lemma tabs_small: "\<forall>w \<in> set (tabs fmt d). w \<le> 32"
  by (simp add: tabs_def)

lemma number_text_first:
  assumes "libc_read dbl" "\<not> d_nonfinite dbl d"
  shows "\<exists>c u. number_text dbl d = c # u \<and> (c = 45 \<or> 48 \<le> c \<and> c \<le> 57) \<and> 32 < c \<and> c < 124"
proof (cases "number_text dbl d")
  case Nil
  then show ?thesis
    using number_text_reads(1) [OF assms] by (auto simp: number_literal_def)
next
  case (Cons c u)
  then have "c = 45 \<or> 48 \<le> c \<and> c \<le> 57"
    using number_text_reads(1) [OF assms] by (auto simp: number_literal_def)
  moreover from this have "32 < c \<and> c < 124"
    by (auto simp: word_le_nat_alt word_less_nat_alt)
  ultimately show ?thesis
    using Cons by blast
qed

lemma text_first:
  assumes "libc_read dbl" "canonical dbl item" "json_text dbl fmt d item = Some t"
  shows "\<exists>c u. t = c # u \<and> 32 < c \<and> c \<noteq> 44 \<and> c \<noteq> 93 \<and> c < 124"
proof (cases item)
  case (Item ty vs vi vd str ch)
  have n: "\<exists>c u. number_text dbl vd = c # u \<and> 32 < c \<and> c \<noteq> 44 \<and> c \<noteq> 93 \<and> c < 124" if "\<not> d_nonfinite dbl vd"
    using number_text_first [OF assms(1) that] by fastforce
  consider "ty = cJSON_NULL" | "ty = cJSON_False" | "ty = cJSON_True" | "ty = cJSON_Number" | "ty = cJSON_String"
    | "ty = cJSON_Array" | "ty = cJSON_Object"
    using assms(2) Item by (auto split: if_splits)
  then show ?thesis
    using assms(2,3) Item n
    by cases (auto simp: json_text.simps cjson_types string_text_def join_eq_Some split: if_splits)
qed

lemma members_text_first:
  assumes "members_text dbl fmt d (x # xs) = Some t" "i_string x = Some s"
  obtains v rest where "t = tabs fmt d @ string_text (Some s) @ (if fmt then [58, 9] else [58]) @ v @
      ((if xs \<noteq> [] then [44] else []) @ (if fmt then [10] else [])) @ rest"
    "json_text dbl fmt d x = Some v" "members_text dbl fmt d xs = Some rest"
  using assms by (auto simp: join_eq_Some tabs_def)

lemma elements_text_first:
  assumes "libc_read dbl" "\<forall>x \<in> set xs. canonical dbl x" "elements_text dbl fmt d xs = Some t"
  shows "32 < hd (t @ [93]) \<and> (xs \<noteq> [] \<longrightarrow> hd (t @ [93]) \<noteq> 93)"
proof (cases xs)
  case Nil
  then show ?thesis
    using assms(3) by simp
next
  case (Cons x ys)
  then obtain v where "json_text dbl fmt d x = Some v" "\<exists>w. t = v @ w"
    using assms(3) by (auto simp: join_eq_Some)
  then show ?thesis
    using text_first [OF assms(1), of x fmt d v] assms(2) Cons by auto
qed

lemma members_text_tabs:
  assumes "members_text dbl fmt d xs = Some t" "xs \<noteq> []"
  obtains u where "t = tabs fmt d @ u" "hd u = 34" "u \<noteq> []"
proof (cases xs)
  case (Cons x ys)
  have "\<exists>w. t = tabs fmt d @ 34 # w"
    using assms(1) Cons by (auto simp: join_eq_Some tabs_def string_text_def)
  then show ?thesis
    using that by fastforce
qed (use assms(2) in simp)

lemma step:
  assumes "whole b" "left b = xs @ ys"
  shows "whole (move (length xs) b)" "left (move (length xs) b) = ys"
  using assms by simp_all

lemma parse_list_left:
  assumes w: "whole b" and l: "left b = o1 # ws @ c # rest" "\<forall>w \<in> set ws. w \<le> 32" "32 < c"
    and d: "in_depth b < CJSON_NESTING_LIMIT"
    and opn: "opened (b\<lparr>in_depth := in_depth b + 1\<rparr>) = Some True"
    and el: "c \<noteq> closing \<Longrightarrow> elements (move (length ws) (b\<lparr>in_depth := in_depth b + 1\<rparr>)) =
      Some (Some xs, move (length ws + n) (b\<lparr>in_depth := in_depth b + 1\<rparr>))"
      "c \<noteq> closing \<Longrightarrow> left (move (length ws + n) b) = closing # r"
    and emp: "c = closing \<Longrightarrow> xs = [] \<and> n = 1"
  shows "parse_list ty opened closing elements item b =
    Some (Some (set_list ty xs item), move (length ws + n + 1) b)"
proof -
  let ?b = "b\<lparr>in_depth := in_depth b + 1\<rparr>"
  have w1: "whole (move 1 ?b)" and l1: "left (move 1 ?b) = ws @ c # rest"
    using w l(1) by simp_all
  have sk: "buffer_skip_whitespace (move 1 ?b) = Some (move (length ws + 1) ?b)"
    using skip_left [OF w1 l1 l(2,3)] by simp
  have w2: "whole (move (length ws + 1) ?b)" and l2: "left (move (length ws + 1) ?b) = c # rest"
    using w l(1) by simp_all
  note at = is_at_left [OF w2 l2]
  have ret: "move (Suc (length ws)) (b\<lparr>in_depth := Suc (in_depth b)\<rparr>)\<lparr>in_offset := in_offset b + length ws\<rparr> =
      move (length ws) (b\<lparr>in_depth := Suc (in_depth b)\<rparr>)"
    by (simp add: move_def)
  have close: "close_list ty zs item (move k ?b) = Some (Some (set_list ty zs item), move (k + 1) b)" for zs k
    by (simp add: close_list_def move_def)
  show ?thesis
  proof (cases "c = closing")
    case True
    then show ?thesis
      using d opn sk at emp close [of "[]" "length ws + 1"] by (simp add: parse_list_def Let_def not_le)
  next
    case False
    have l3: "left (move (length ws + n) ?b) = closing # r"
      using el(2) [OF False] by simp
    have w3: "whole (move (length ws + n) ?b)"
      using w by simp
    have acc: "can_access_at_index (move (length ws + 1) ?b) 0"
      using can_access_left [OF w2] l(1) by simp
    show ?thesis
      using d opn sk at False acc el(1) [OF False] is_at_left [OF w3 l3] close [of xs "length ws + n"]
      by (simp add: parse_list_def Let_def not_le or_fail_def ret)
  qed
qed

lemma new_item: "cJSON_New_Item dbl True = Some (Item 0 None 0 (d_zero dbl) None [])"
  by (simp add: cJSON_New_Item_def)

lemma not_number_char [simp]: "\<not> number_char 44" "\<not> number_char 93" "\<not> number_char 125" "\<not> number_char 10"
    "\<not> number_char 9" "\<not> number_char 0"
  by (simp_all add: number_char_def)

lemma small_not_number: "w \<le> 32 \<Longrightarrow> \<not> number_char w"
  by (auto simp: number_char_def word_le_nat_alt)

text \<open>The tests \<open>parse_value\<close> makes on the first character.\<close>

lemma parse_value_first:
  assumes "whole b" "left b = c # u"
  shows "parse_value (Suc f) dbl mem item b =
    (if take 4 (c # u) = s2b ''null'' then Some (Some (set_type cJSON_NULL item), move 4 b)
     else if take 5 (c # u) = s2b ''false'' then Some (Some (set_type cJSON_False item), move 5 b)
     else if take 4 (c # u) = s2b ''true'' then Some (Some (set_true item), move 4 b)
     else if c = 34 then parse_string mem item b
     else if c = 45 \<or> 48 \<le> c \<and> c \<le> 57 then parse_number dbl item b
     else if c = 91 then parse_list cJSON_Array (\<lambda>b. map_option (\<lambda>c. c = 91) (at_offset b 0)) 93
        (parse_elements f dbl mem) item b
     else if c = 123 then parse_list cJSON_Object (\<lambda>b. is_at b (\<lambda>c. c = 123)) 125 (parse_members f dbl mem) item b
     else Some (None, b))"
proof -
  have "literal b (s2b ''null'') = Some (take 4 (c # u) = s2b ''null'')"
    "literal b (s2b ''false'') = Some (take 5 (c # u) = s2b ''false'')"
    "literal b (s2b ''true'') = Some (take 4 (c # u) = s2b ''true'')"
    using assms by (simp_all add: literal_left eval_nat_numeral)
  then show ?thesis
    unfolding parse_value.simps is_at_left [OF assms] by (simp only: bind.bind_lunit if_True if_False)
qed

declare parse_value.simps [simp del] parse_elements.simps [simp del] parse_members.simps [simp del]

lemma parse_left:
  assumes g: "libc_g dbl" and rd: "libc_read dbl"
  shows "whole b \<Longrightarrow> left b = t @ c # r \<Longrightarrow> \<not> number_char c \<Longrightarrow> canonical dbl item \<Longrightarrow> nests n item \<Longrightarrow>
      in_depth b + n \<le> CJSON_NESTING_LIMIT \<Longrightarrow> json_text dbl fmt d item = Some t \<Longrightarrow>
      3 * length (left b) + 1 \<le> fuel \<Longrightarrow>
      parse_value fuel dbl (\<lambda>_. True) (fresh dbl ty0 item) b = Some (Some item, move (length t) b)"
    and "whole b \<Longrightarrow> left b = y # ws @ t @ 93 # r \<Longrightarrow> xs \<noteq> [] \<Longrightarrow> \<forall>w \<in> set ws. w \<le> 32 \<Longrightarrow>
      \<forall>x \<in> set xs. i_string x = None \<and> canonical dbl x \<and> nests n x \<Longrightarrow>
      in_depth b + n \<le> CJSON_NESTING_LIMIT \<Longrightarrow> elements_text dbl fmt d xs = Some t \<Longrightarrow>
      3 * length (left b) \<le> fuel \<Longrightarrow>
      parse_elements fuel dbl (\<lambda>_. True) b = Some (Some xs, move (Suc (length ws + length t)) b)"
    and "whole b \<Longrightarrow> left b = y # ws @ u @ ws' @ 125 # r \<Longrightarrow> xs \<noteq> [] \<Longrightarrow>
      \<forall>w \<in> set ws. w \<le> 32 \<Longrightarrow> \<forall>w \<in> set ws'. w \<le> 32 \<Longrightarrow>
      \<forall>x \<in> set xs. (case i_string x of None \<Rightarrow> False | Some s \<Rightarrow> NUL \<notin> set s) \<and> canonical dbl x \<and> nests n x \<Longrightarrow>
      in_depth b + n \<le> CJSON_NESTING_LIMIT \<Longrightarrow> members_text dbl fmt d xs = Some (tabs fmt d @ u) \<Longrightarrow>
      3 * length (left b) \<le> fuel \<Longrightarrow>
      parse_members fuel dbl (\<lambda>_. True) b = Some (Some xs, move (Suc (length ws + length u + length ws')) b)"
proof (induction fuel arbitrary: b t c r item n d ty0 y xs ws u ws')
  case (Suc fuel)
  {
    case 1
    obtain ty vs vi vd str ch where item: "item = Item ty vs vi vd str ch"
      by (cases item)
    consider "ty = cJSON_NULL \<or> ty = cJSON_False" | "ty = cJSON_True" | "ty = cJSON_Number" | "ty = cJSON_String"
      | "ty = cJSON_Array" | "ty = cJSON_Object"
      using 1(4) item by (auto split: if_splits)
    then show ?case
    proof cases
      case 3
      then have d: "t = number_text dbl vd" "\<not> d_nonfinite dbl vd" "vs = None" "vi = saturate dbl vd" "ch = []"
        using 1(4,7) item by (simp_all add: json_text.simps cjson_types)
      obtain a v where a: "number_text dbl vd = a # v" "a = 45 \<or> 48 \<le> a \<and> a \<le> 57"
        using number_text_first [OF rd d(2)] by blast
      have l: "left b = a # v @ c # r" "left b = number_text dbl vd @ c # r"
        using 1(2) d a by simp_all
      have "a \<noteq> 110" "a \<noteq> 102" "a \<noteq> 116" "a \<noteq> 34"
        using a(2) by auto
      then show ?thesis
        using parse_value_first [OF 1(1) l(1), of fuel dbl "\<lambda>_. True" "fresh dbl ty0 item"] parse_number_left [OF 1(1) l(2) 1(3) d(2) g rd] a(2) d 3 item
        by (simp add: fresh_def set_number_def set_type_def cJSON_SetNumberHelper_def)
    next
      case 4
      then obtain s where d: "t = string_text (Some s)" "vs = Some s" "NUL \<notin> set s" "vi = 0" "vd = d_zero dbl" "ch = []"
        using 1(4,7) item by (auto simp: json_text.simps cjson_types split: option.splits)
      have l: "left b = 34 # tl (string_text (Some s)) @ c # r" "left b = string_text (Some s) @ c # r"
        using 1(2) d by (simp_all add: string_text_def)
      show ?thesis
        using parse_value_first [OF 1(1) l(1), of fuel dbl "\<lambda>_. True" "fresh dbl ty0 item"] parse_string_left [OF 1(1) l(2) d(3)] d 4 item
        by (simp add: fresh_def)
    next
      case 5
      obtain v where v: "t = 91 # v @ [93]" "elements_text dbl fmt (d + 1) ch = Some v"
        using 1(7) item 5 by (auto simp: json_text.simps cjson_types join_eq_Some)
      have it: "vs = None" "vi = 0" "vd = d_zero dbl" "0 < n"
          "\<forall>x \<in> set ch. i_string x = None \<and> canonical dbl x \<and> nests (n - 1) x"
        using 1(4,5) item 5 by (auto simp: cjson_types)
      let ?b = "b\<lparr>in_depth := in_depth b + 1\<rparr>"
      have l: "left b = 91 # v @ 93 # c # r"
        using 1(2) v(1) by simp
      have "parse_list cJSON_Array (\<lambda>b. map_option (\<lambda>c. c = 91) (at_offset b 0)) 93
          (parse_elements fuel dbl (\<lambda>_. True)) (fresh dbl ty0 item) b =
        Some (Some (set_list cJSON_Array ch (fresh dbl ty0 item)), move (length ([] :: bytes) + Suc (length v) + 1) b)"
      proof (rule parse_list_left)
        show "left b = 91 # [] @ hd (v @ [93]) # tl (v @ [93]) @ c # r"
          using l by (cases v) simp_all
        have "32 < hd (v @ [93]) \<and> (ch \<noteq> [] \<longrightarrow> hd (v @ [93]) \<noteq> 93)"
          using elements_text_first [OF rd _ v(2)] it by simp
        then show "32 < hd (v @ [93])"
          by simp
        show "parse_elements fuel dbl (\<lambda>_. True) (move (length ([] :: bytes)) ?b) =
            Some (Some ch, move (length ([] :: bytes) + Suc (length v)) ?b)" if "hd (v @ [93]) \<noteq> 93"
        proof -
          have "ch \<noteq> []"
            using that v(2) by auto
          then show ?thesis
            using Suc.IH(2) [of ?b 91 "[]" v "c # r" ch "n - 1" "d + 1"] 1(1,6,8) l v(2) it by simp
        qed
        show "ch = [] \<and> Suc (length v) = 1" if "hd (v @ [93]) = 93"
          using v(2) \<open>32 < hd (v @ [93]) \<and> (ch \<noteq> [] \<longrightarrow> hd (v @ [93]) \<noteq> 93)\<close> that by auto
      qed (use 1(1,6) l it at_left [of ?b 91] in auto)
      then show ?thesis
        using parse_value_first [OF 1(1) l(1), of fuel dbl "\<lambda>_. True" "fresh dbl ty0 item"] item it 5 v(1)
        by (simp add: fresh_def set_list_def)
    next
      case 6
      let ?nl = "if fmt then [10] else []" and ?b = "b\<lparr>in_depth := in_depth b + 1\<rparr>"
      obtain m where m: "t = 123 # ?nl @ m @ tabs fmt d @ [125]" "members_text dbl fmt (d + 1) ch = Some m"
        using 1(7) item 6 by (auto simp: json_text.simps cjson_types join_eq_Some tabs_def)
      have it: "vs = None" "vi = 0" "vd = d_zero dbl" "0 < n"
          "\<forall>x \<in> set ch. (case i_string x of None \<Rightarrow> False | Some s \<Rightarrow> NUL \<notin> set s) \<and> canonical dbl x \<and> nests (n - 1) x"
        using 1(4,5) item 6 by (auto simp: cjson_types)
      define ws where "ws = ?nl @ tabs fmt (if ch = [] then d else d + 1)"
      obtain u where u: "m @ tabs fmt d = tabs fmt (if ch = [] then d else d + 1) @ u @ (if ch = [] then [] else tabs fmt d)"
          "ch \<noteq> [] \<longrightarrow> m = tabs fmt (d + 1) @ u" "ch \<noteq> [] \<longrightarrow> u \<noteq> []" "hd (u @ [125]) = (if ch = [] then 125 else 34)" "ch = [] \<longrightarrow> u = []"
      proof (cases "ch = []")
        case True
        then show ?thesis
          using that [of "[]"] m(2) by simp
      next
        case False
        obtain u where "m = tabs fmt (d + 1) @ u" "hd u = 34" "u \<noteq> []"
          using members_text_tabs [OF m(2) False] .
        then show ?thesis
          using False by (intro that [of u]) simp_all
      qed
      define ws' where "ws' = (if ch = [] then [] else tabs fmt d)"
      have l: "left b = 123 # ws @ u @ ws' @ 125 # c # r"
        using 1(2) m(1) u(1) by (simp add: ws_def ws'_def flip: append_assoc)
      have small: "\<forall>w \<in> set ws. w \<le> 32" "\<forall>w \<in> set ws'. w \<le> 32"
        using tabs_small by (auto simp: ws_def ws'_def)
      have "parse_list cJSON_Object (\<lambda>b. is_at b (\<lambda>c. c = 123)) 125
          (parse_members fuel dbl (\<lambda>_. True)) (fresh dbl ty0 item) b =
        Some (Some (set_list cJSON_Object ch (fresh dbl ty0 item)), move (length ws + Suc (length u + length ws') + 1) b)"
      proof (rule parse_list_left)
        show "left b = 123 # ws @ hd (u @ ws' @ [125]) # tl (u @ ws' @ [125]) @ c # r"
          using l by (cases u; cases ws') simp_all
        show "32 < hd (u @ ws' @ [125])"
          using u by (cases "ch = []") (auto simp: ws'_def)
        show "parse_members fuel dbl (\<lambda>_. True) (move (length ws) ?b) =
            Some (Some ch, move (length ws + Suc (length u + length ws')) ?b)" if "hd (u @ ws' @ [125]) \<noteq> 125"
        proof -
          have "ch \<noteq> []"
            using that u(5) by (auto simp: ws'_def)
          moreover have "left (move (length ws) ?b) = last (123 # ws) # [] @ u @ ws' @ 125 # c # r"
            using l by (cases ws rule: rev_cases) simp_all
          ultimately show ?thesis
            using Suc.IH(3) [of "move (length ws) ?b" "last (123 # ws)" "[]" u ws' "c # r" ch "n - 1" "d + 1"]
              1(1,6,8) l m(2) u(2) it small by simp
        qed
        show "left (move (length ws + Suc (length u + length ws')) b) = 125 # c # r"
          using l by simp
        show "ch = [] \<and> Suc (length u + length ws') = 1" if "hd (u @ ws' @ [125]) = 125"
          using that u(3-5) by (cases "ch = []") (auto simp: ws'_def)
      qed (use 1(1,6) l it small is_at_left [of ?b 123] in auto)
      moreover have t: "t = 123 # ws @ u @ ws' @ [125]"
        using 1(2) l by simp
      have "length ws + Suc (length u + length ws') + 1 = length t"
        by (simp add: t)
      ultimately show ?thesis
        using parse_value_first [OF 1(1) l(1), of fuel dbl "\<lambda>_. True" "fresh dbl ty0 item"] item it 6
        by (simp add: fresh_def set_list_def)
    qed (use 1 item parse_value_first [OF 1(1), of "hd t" "tl t @ c # r" fuel dbl "\<lambda>_. True" "fresh dbl ty0 item"] in
        \<open>auto simp: json_text.simps cjson_types fresh_def set_type_def set_true_def split: if_splits\<close>)
  next
    case 2
    obtain x xs' where xs: "xs = x # xs'"
      using 2(3) by (cases xs) auto
    define sep where "sep = (if xs' = [] then [] else if fmt then [44, 32] else [44 :: byte])"
    obtain v rest where v: "t = v @ sep @ rest" "json_text dbl fmt d x = Some v" "elements_text dbl fmt d xs' = Some rest"
      using 2(7) xs by (auto simp: join_eq_Some sep_def)
    have x: "i_string x = None" "canonical dbl x" "nests n x"
      using 2(5) xs by simp_all
    obtain a v' where a: "v = a # v'" "32 < a"
      using text_first [OF rd x(2) v(2)] by blast
    define b1 where "b1 = move (Suc (length ws)) b"
    have w1: "whole b1" and l1: "left b1 = v @ sep @ rest @ 93 # r"
      using 2(1,2) v(1) by (simp_all add: b1_def)
    have s1: "buffer_skip_whitespace (move 1 b) = Some b1"
      using skip_left [of "move 1 b" ws a] 2(1,2,4) v(1) a by (simp add: b1_def)
    obtain e rs where e: "sep @ rest @ 93 # r = e # rs" "e = (if xs' = [] then 93 else 44)"
      using v(3) by (cases "xs' = []"; cases fmt) (auto simp: sep_def)
    have pv: "parse_value fuel dbl (\<lambda>_. True) (fresh dbl 0 x) b1 = Some (Some x, move (length v) b1)"
      using e l1 2(2,6,8) x by (intro Suc.IH(1) [OF w1 _ _ x(2,3) _ v(2)]) (auto simp: b1_def split: if_splits)
    define b2 where "b2 = move (length v) b1"
    have w2: "whole b2" and l2: "left b2 = e # rs"
      using w1 l1 e(1) by (simp_all add: b2_def)
    have s2: "buffer_skip_whitespace b2 = Some b2"
      using skip_left [OF w2, of "[]" e rs] l2 e(2) by simp
    have f: "fresh dbl 0 x = Item 0 None 0 (d_zero dbl) None []"
      using x(1) by (simp add: fresh_def)
    have run: "parse_elements (Suc fuel) dbl (\<lambda>_. True) b =
        (if e = 44 then or_fail (parse_elements fuel dbl (\<lambda>_. True) b2) (\<lambda>items b. Some (Some (x # items), b))
         else Some (Some [x], b2))"
      using s1 pv s2 is_at_left [OF w2 l2]
      by (simp add: parse_elements.simps new_item f or_fail_def flip: b1_def b2_def)
    show ?case
    proof (cases "xs' = []")
      case True
      then show ?thesis
        using run e(2) xs v(1,3) by (simp add: b1_def b2_def sep_def)
    next
      case False
      have "parse_elements fuel dbl (\<lambda>_. True) b2 = Some (Some xs', move (Suc (length (tl sep) + length rest)) b2)"
      proof (rule Suc.IH(2) [OF w2])
        show "left b2 = 44 # tl sep @ rest @ 93 # r"
          using l2 e False by (auto simp: sep_def split: if_splits)
        show "3 * length (left b2) \<le> fuel"
          using 2(2,8) v(1) a(1) by (simp add: b2_def b1_def)
      qed (use False v(3) 2(5,6) xs in \<open>auto simp: sep_def b2_def b1_def\<close>)
      then show ?thesis
        using run e(2) xs v(1) False by (simp add: or_fail_def) (simp add: b1_def b2_def sep_def)
    qed
  next
    case 3
    obtain x xs' where xs: "xs = x # xs'"
      using 3(3) by (cases xs) auto
    obtain nm where nm: "i_string x = Some nm" "NUL \<notin> set nm" and x: "canonical dbl x" "nests n x"
      using 3(6) xs by (auto split: option.splits)
    define colon where "colon = (if fmt then [58, 9] else [58 :: byte])"
    define nl where "nl = (if fmt then [10] else [] :: bytes)"
    define sep where "sep = (if xs' \<noteq> [] then [44] else []) @ nl"
    obtain v rest where v0: "tabs fmt d @ u = tabs fmt d @ string_text (Some nm) @ colon @ v @ sep @ rest"
        and v: "json_text dbl fmt d x = Some v" "members_text dbl fmt d xs' = Some rest"
      using members_text_first [OF 3(8) [unfolded xs] nm(1)] unfolding colon_def sep_def nl_def by blast
    then have u: "u = string_text (Some nm) @ colon @ v @ sep @ rest"
      by simp
    obtain a v' where a: "v = a # v'" "32 < a"
      using text_first [OF rd x(1) v(1)] by blast
    have small: "\<forall>w \<in> set nl. w \<le> 32" "\<forall>w \<in> set (tl colon). w \<le> 32"
      by (auto simp: nl_def colon_def)
    define b1 where "b1 = move (Suc (length ws)) b"
    have w1: "whole b1" and l1: "left b1 = string_text (Some nm) @ colon @ v @ sep @ rest @ ws' @ 125 # t"
      using 3(1,2) u by (simp_all add: b1_def)
    have s1: "buffer_skip_whitespace (move 1 b) = Some b1"
      using skip_left [of "move 1 b" ws 34] 3(1,2,4) u by (simp add: b1_def string_text_def)
    have ps: "parse_string (\<lambda>_. True) (Item 0 None 0 (d_zero dbl) None []) b1 =
        Some (Some (Item cJSON_String (Some nm) 0 (d_zero dbl) None []), move (length (string_text (Some nm))) b1)"
      by (rule parse_string_left [OF w1 l1 nm(2)])
    define b2 where "b2 = move (length (string_text (Some nm))) b1"
    have w2: "whole b2" and l2: "left b2 = 58 # tl colon @ v @ sep @ rest @ ws' @ 125 # t"
      using w1 l1 by (simp_all add: b2_def colon_def)
    have s2: "buffer_skip_whitespace b2 = Some b2"
      using skip_left [OF w2, of "[]" 58] l2 by simp
    define b3 where "b3 = move (length colon) b2"
    have w3: "whole b3" and l3: "left b3 = v @ sep @ rest @ ws' @ 125 # t"
      using w2 l2 by (simp_all add: b3_def colon_def)
    have s3: "buffer_skip_whitespace (move 1 b2) = Some b3"
      using skip_left [of "move 1 b2" "tl colon" a] w2 l2 a small(2) by (simp add: b3_def colon_def split: if_splits)
    obtain e rs where e: "sep @ rest @ ws' @ 125 # t = e # rs" "\<not> number_char e"
    proof (cases "xs' = []")
      case True
      then have "rest = []"
        using v(2) by simp
      then show ?thesis
        using that 3(5) True small_not_number by (cases fmt; cases ws') (auto simp: sep_def nl_def)
    next
      case False
      then show ?thesis
        using that by (simp add: sep_def)
    qed
    have pv: "parse_value fuel dbl (\<lambda>_. True) (fresh dbl cJSON_String x) b3 = Some (Some x, move (length v) b3)"
      using e l3 3(2,7,9) x u by (intro Suc.IH(1) [OF w3 _ _ x _ v(1)]) (auto simp: b3_def b2_def b1_def)
    define b4 where "b4 = move (length v) b3"
    have w4: "whole b4" and l4: "left b4 = sep @ rest @ ws' @ 125 # t"
      using w3 l3 by (simp_all add: b4_def)
    have f: "name_of_value (Item cJSON_String (Some nm) 0 (d_zero dbl) None []) = fresh dbl cJSON_String x"
      using nm(1) by (simp add: fresh_def name_of_value_def)
    have run: "parse_members (Suc fuel) dbl (\<lambda>_. True) b = do {
        b \<leftarrow> buffer_skip_whitespace b4;
        again \<leftarrow> is_at b (\<lambda>c. c = 44);
        if again then or_fail (parse_members fuel dbl (\<lambda>_. True) b) (\<lambda>items b. Some (Some (x # items), b))
        else Some (Some [x], b) }"
      using s1 ps s2 is_at_left [OF w2 l2] s3 pv f
      by (simp add: parse_members.simps new_item or_fail_def flip: b1_def b2_def b3_def b4_def)
    show ?case
    proof (cases "xs' = []")
      case True
      then have "buffer_skip_whitespace b4 = Some (move (length (nl @ ws')) b4)"
        using skip_left [OF w4, of "nl @ ws'" 125 t] l4 v(2) small(1) 3(5) by (auto simp: sep_def)
      moreover have "is_at (move (length (nl @ ws')) b4) (\<lambda>c. c = 44) = Some False"
        using is_at_left [of "move (length (nl @ ws')) b4" 125 t] w4 l4 v(2) True by (simp add: sep_def)
      ultimately show ?thesis
        using run xs u True v(2) by (simp add: b1_def b2_def b3_def b4_def sep_def)
    next
      case False
      obtain u' where u': "rest = tabs fmt d @ u'"
        using members_text_tabs [OF v(2) False] by blast
      have l4': "left b4 = 44 # (nl @ tabs fmt d) @ u' @ ws' @ 125 # t"
        using l4 False u' by (simp add: sep_def)
      have "parse_members fuel dbl (\<lambda>_. True) b4 =
          Some (Some xs', move (Suc (length (nl @ tabs fmt d) + length u' + length ws')) b4)"
      proof (rule Suc.IH(3) [OF w4 l4' False])
        show "3 * length (left b4) \<le> fuel"
          using 3(2,9) u a(1) by (simp add: b4_def b3_def b2_def b1_def string_text_def)
        show "members_text dbl fmt d xs' = Some (tabs fmt d @ u')"
          using v(2) u' by simp
        show "\<forall>w \<in> set (nl @ tabs fmt d). w \<le> 32"
          using small(1) tabs_small [of fmt d] by auto
      qed (use 3(5-7) xs in \<open>auto simp: b4_def b3_def b2_def b1_def\<close>)
      moreover have "buffer_skip_whitespace b4 = Some b4"
        using skip_left [OF w4, of "[]" 44] l4' by simp
      moreover have "is_at b4 (\<lambda>c. c = 44) = Some True"
        using is_at_left [OF w4 l4'] by simp
      ultimately show ?thesis
        using run xs u u' False
        by (simp add: or_fail_def) (simp add: b1_def b2_def b3_def b4_def sep_def)
    qed
  }
qed simp_all

section \<open>Whole texts\<close>

lemma canonical_text:
  "canonical dbl item \<Longrightarrow> \<exists>t. json_text dbl fmt d item = Some t"
proof (induction item arbitrary: d)
  case (Item ty vs vi vd str ch)
  have el: "\<exists>t. elements_text dbl fmt d' xs = Some t \<and> (\<exists>m. members_text dbl fmt d' xs = Some m)"
    if "\<forall>x \<in> set xs. x \<in> set ch \<and> canonical dbl x" for xs d'
    using that
  proof (induction xs)
    case (Cons x xs)
    then have "x \<in> set ch" "canonical dbl x"
      by simp_all
    from Item.IH [OF this] obtain v where "json_text dbl fmt d' x = Some v"
      by blast
    then show ?case
      using Cons by (auto simp: join_eq_Some)
  qed simp
  show ?case
    using Item.prems el [of ch "d + 1"]
    by (auto simp: json_text.simps cjson_types join_eq_Some Let_def split: if_splits)
qed

lemma canonical_c_strings: "canonical dbl item \<Longrightarrow> (\<forall>s. i_string item = Some s \<longrightarrow> NUL \<notin> set s) \<Longrightarrow> c_strings item"
proof (induction item)
  case (Item ty vs vi vd str ch)
  have "c_strings c" if "c \<in> set ch" for c
    using Item.IH [OF that] Item.prems(1) that by (auto split: if_splits option.splits)
  moreover have "\<forall>s. vs = Some s \<longrightarrow> NUL \<notin> set s"
    using Item.prems(1) by (auto split: if_splits option.splits)
  ultimately show ?case
    using Item.prems(2) by simp
qed

lemma parse_text:
  assumes g: "libc_g dbl" and rd: "libc_read dbl" and c: "canonical dbl item" "i_string item = None"
    and n: "nests CJSON_NESTING_LIMIT item" and t: "json_text dbl fmt 0 item = Some t"
  shows "cJSON_ParseWithOpts dbl (\<lambda>_. True) True t term = Some (Some item, length t)"
proof -
  obtain a u where a: "t = a # u" "32 < a" "a < 124"
    using text_first [OF rd c(1) t] by blast
  define b where "b = \<lparr>in_content = t @ [NUL], in_length = Suc (length t), in_offset = 0, in_depth = 0\<rparr>"
  have w: "whole b" and l: "left b = t @ NUL # []" and d: "in_depth b = 0" "in_offset b = 0"
    by (simp_all add: b_def whole_def left_def)
  have "take 3 t \<noteq> [0xEF, 0xBB, 0xBF]"
    using a by (auto simp: take_Cons')
  then have bom: "skip_utf8_bom b = Some b"
    by (simp add: skip_utf8_bom_def b_def slice_def can_access_at_index_def)
  have sk: "buffer_skip_whitespace b = Some b"
    using skip_left [OF w, of "[]" a "u @ [NUL]"] l a by simp
  have new: "cJSON_New_Item dbl True = Some (fresh dbl 0 item)"
    using c(2) by (simp add: new_item fresh_def)
  have pv: "parse_value (parse_fuel (Suc (length t))) dbl (\<lambda>_. True) (fresh dbl 0 item) b =
      Some (Some item, move (length t) b)"
    using l d by (intro parse_left(1) [OF g rd w l _ c(1) n _ t]) (simp_all add: parse_fuel_def)
  have w': "whole (move (length t) b)" and l': "left (move (length t) b) = [NUL]"
    using w l by simp_all
  have len: "in_length b = Suc (length t)"
    by (simp add: b_def)
  show ?thesis
    using skip_end [OF w' l'] at_left [OF l'] d len
    by (simp add: cJSON_ParseWithOpts_def Let_def new bom sk pv flip: b_def)
qed

lemma print_block_text:
  assumes "libc_g dbl" "hooks_ok hooks" "c_strings item" "json_text dbl fmt 0 item = Some t"
    and "print dbl (Some item) fmt hooks = Some (Some block)"
  shows "c_str block = t"
proof -
  have "take (length t + 1) block = t @ [NUL]"
    using print_spec [OF assms(1-4)] assms(5) by auto
  then have "block = t @ NUL # drop (length t + 1) block"
    by (metis append_Cons append_Nil append_assoc append_take_drop_id)
  moreover have "NUL \<notin> set t"
    using text_nonzero(1) [OF assms(1,4,3)] .
  ultimately show ?thesis
    by (metis c_str_stop)
qed

lemma int_libc_read: "libc_read int_double"
proof -
  have "number_char c" if "c \<in> set (dec_int d)" for c d
    using dec_int_chars [OF that] by (auto simp: number_char_def is_digit_def)
  moreover have "case dec_int d of [] \<Rightarrow> False | c # _ \<Rightarrow> c = 45 \<or> 48 \<le> c \<and> c \<le> 57" for d
  proof (cases "dec_int d")
    case Nil
    then show ?thesis
      using dec_nat_nonempty by (auto simp: dec_int_def split: if_splits)
  next
    case (Cons c u)
    then show ?thesis
      using dec_int_chars [of c d] by (auto simp: is_digit_def)
  qed
  ultimately have "number_literal (dec_int d)" for d
    by (simp add: number_literal_def)
  moreover have "dec_int d \<noteq> []" for d
    using calculation [of d] by (auto simp: number_literal_def)
  ultimately show ?thesis
    using read_dec_int by (simp add: libc_read_def int_double_def)
qed

lemma sample_formatted: "\<exists>t. json_text int_double True 0 sample_item = Some t \<and> length t = 27"
  by (simp add: sample_item_def json_text.simps Let_def cjson_types int_number_text dec_int_def
      dec_nat.simps string_text_def escape_def one_char_escape_def)

text \<open>
  C26: what the printer writes for an item of the parser's own kinds (no raw items, no flags, finite
  numbers, nested up to the limit), formatted or not, the parser reads back as that item, and it
  consumes the whole text: strings whatever bytes they hold and however they were escaped, and numbers
  by the choice of \<open>print_number\<close> between 15 and 17 digits, of which only the latter are assumed to
  determine a value.
\<close>

theorem parse_prints_back:
  assumes "libc_g dbl" "libc_read dbl" "hooks_ok hooks"
    and "canonical dbl item" "i_string item = None" "nests CJSON_NESTING_LIMIT item"
    and "print dbl (Some item) fmt hooks = Some (Some block)"
  shows "cJSON_ParseWithOpts dbl (\<lambda>_. True) True (c_str block) True = Some (Some item, length (c_str block))"
proof -
  obtain t where t: "json_text dbl fmt 0 item = Some t"
    using canonical_text [OF assms(4)] by blast
  have c: "c_strings item"
    using canonical_c_strings [OF assms(4)] assms(5) by simp
  have "c_str block = t"
    by (rule print_block_text [OF assms(1,3) c t assms(7)])
  then show ?thesis
    using parse_text [OF assms(1,2,4-6) t] by simp
qed

theorem parse_prints_back_witness:
  "\<exists>block. print int_double (Some sample_item) True plenty = Some (Some block) \<and>
    cJSON_ParseWithOpts int_double (\<lambda>_. True) True (c_str block) True = Some (Some sample_item, length (c_str block))"
proof -
  have c: "canonical int_double sample_item" "i_string sample_item = None" "nests CJSON_NESTING_LIMIT sample_item"
    by (simp_all add: sample_item_def cjson_types CJSON_NESTING_LIMIT_def saturate_def int_double_def INT_MAX_def INT_MIN_def)
  obtain t where t: "json_text int_double True 0 sample_item = Some t" "length t + 4 \<le> INT_LIMIT"
    using sample_formatted by (auto simp: INT_LIMIT_def)
  have "c_strings sample_item"
    by (simp add: sample_item_def)
  from print_spec [OF int_libc_g plenty_ok(1) this t(1)] obtain block where
    b: "print int_double (Some sample_item) True plenty = Some (Some block)"
    using plenty_ok(2) t(2) by auto
  from parse_prints_back [OF int_libc_g int_libc_read plenty_ok(1) c b] b show ?thesis
    by blast
qed

end
