(* ===== verification/Cjson_Depth.thy ===== *)
theory Cjson_Depth
  imports Cjson_Roundtrip
begin

text \<open>
  The nesting limit of the parser: the counter of the buffer is the number of open brackets, so no
  item it returns nests arrays and objects deeper than the limit, whatever the input.
\<close>

declare parse_value.simps [simp del] parse_elements.simps [simp del] parse_members.simps [simp del]

definition deep :: "nat \<Rightarrow> ('a \<Rightarrow> bool) \<Rightarrow> ('a option \<times> parse_buffer) option \<Rightarrow> bool" where
  "deep d P m \<longleftrightarrow> (\<forall>x b. m = Some (Some x, b) \<longrightarrow> in_depth b = d \<and> P x)"

lemma deep_fail [simp]: "deep d P None" "deep d P (Some (None, b))"
  by (simp_all add: deep_def)

lemma deep_done [simp]: "deep d P (Some (Some x, b)) \<longleftrightarrow> in_depth b = d \<and> P x"
  by (simp add: deep_def)

lemma deep_or_fail:
  assumes "deep d P m" "\<And>x b. P x \<Longrightarrow> in_depth b = d \<Longrightarrow> deep d' Q (f x b)"
  shows "deep d' Q (or_fail m f)"
proof (cases "\<exists>x b. m = Some (Some x, b)")
  case True
  then obtain x b where m: "m = Some (Some x, b)"
    by blast
  then have "P x" "in_depth b = d"
    using assms(1) by simp_all
  from assms(2) [OF this] show ?thesis
    by (simp add: or_fail_def m)
next
  case False
  then show ?thesis
    by (auto simp: or_fail_def split: option.split)
qed

lemma deep_bind: "(\<And>x. m = Some x \<Longrightarrow> deep d P (f x)) \<Longrightarrow> deep d P (m \<bind> f)"
  by (cases m) simp_all

lemma skip_depth: "buffer_skip_whitespace b = Some b' \<Longrightarrow> in_depth b' = in_depth b"
  by (auto simp: buffer_skip_whitespace_def bind_eq_Some_conv)

lemma bom_depth: "skip_utf8_bom b = Some b' \<Longrightarrow> in_depth b' = in_depth b"
  by (auto simp: skip_utf8_bom_def bind_eq_Some_conv move_def split: if_splits)

lemma nests_leaf:
  "nests n (set_type cJSON_NULL item)" "nests n (set_type cJSON_False item)" "nests n (set_true item)"
  "nests n (set_number dbl v item)"
  by (cases item; simp add: set_type_def set_true_def set_number_def cJSON_SetNumberHelper_def cjson_types)+

lemma parse_string_deep: "deep (in_depth b) (nests n) (parse_string mem item b)"
  unfolding parse_string_def Let_def
  by (intro deep_bind)
    (auto simp: fail_at_def cjson_types split: option.split sum.split cJSON.split prod.split intro!: deep_bind)

lemma parse_number_deep: "deep (in_depth b) (nests n) (parse_number dbl item b)"
  unfolding parse_number_def Let_def
  by (intro deep_bind) (auto simp: nests_leaf move_def split: prod.split)

lemma parse_list_deep:
  assumes el: "\<And>b1. in_depth b1 = in_depth b + 1 \<Longrightarrow> in_depth b < CJSON_NESTING_LIMIT \<Longrightarrow>
      deep (in_depth b1) (\<lambda>xs. \<forall>x \<in> set xs. nests (CJSON_NESTING_LIMIT - in_depth b1) x) (elements b1)"
  shows "deep (in_depth b) (nests (CJSON_NESTING_LIMIT - in_depth b)) (parse_list ty opened closing elements item b)"
proof (cases "in_depth b < CJSON_NESTING_LIMIT")
  case True
  have close: "deep (in_depth b) (nests (CJSON_NESTING_LIMIT - in_depth b)) (close_list ty xs item b1)"
    if "in_depth b1 = in_depth b + 1" "\<forall>x \<in> set xs. nests (CJSON_NESTING_LIMIT - in_depth b1) x" for xs b1
    using that True by (cases item) (simp add: close_list_def set_list_def)
  show ?thesis
    unfolding parse_list_def Let_def
    using True
    by (auto simp: not_le skip_depth move_def intro!: deep_bind close deep_or_fail [OF el] dest!: skip_depth)
qed (simp add: parse_list_def)

lemma parse_deep:
  "deep (in_depth b) (nests (CJSON_NESTING_LIMIT - in_depth b)) (parse_value fuel dbl mem item b)"
  "deep (in_depth b) (\<lambda>xs. \<forall>x \<in> set xs. nests (CJSON_NESTING_LIMIT - in_depth b) x) (parse_elements fuel dbl mem b)"
  "deep (in_depth b) (\<lambda>xs. \<forall>x \<in> set xs. nests (CJSON_NESTING_LIMIT - in_depth b) x) (parse_members fuel dbl mem b)"
proof (induction fuel arbitrary: b item)
  case 0
  { case 1 show ?case by (simp add: parse_value.simps)
  next case 2 show ?case by (simp add: parse_elements.simps)
  next case 3 show ?case by (simp add: parse_members.simps) }
next
  case (Suc fuel)
  have V: "deep (in_depth b) (nests (CJSON_NESTING_LIMIT - in_depth b)) (parse_value fuel dbl mem it b1)"
    and E: "deep (in_depth b) (\<lambda>xs. \<forall>x \<in> set xs. nests (CJSON_NESTING_LIMIT - in_depth b) x) (parse_elements fuel dbl mem b1)"
    and M: "deep (in_depth b) (\<lambda>xs. \<forall>x \<in> set xs. nests (CJSON_NESTING_LIMIT - in_depth b) x) (parse_members fuel dbl mem b1)"
    and S: "deep (in_depth b) (\<lambda>_. True) (parse_string mem it b1)"
    if "in_depth b1 = in_depth b" for b b1 it
    using Suc.IH [of b1] that parse_string_deep [of b1 0 mem it] by (simp_all add: deep_def)
  {
    case 1
    show ?case
      unfolding parse_value.simps
      by (intro deep_bind)
        (auto simp: nests_leaf move_def intro!: parse_string_deep parse_number_deep parse_list_deep Suc.IH)
  next
    case 2
    show ?case
      unfolding parse_elements.simps
      by (auto split: option.split simp: move_def dest!: skip_depth
          intro!: deep_bind deep_or_fail [OF V [of _ b]] deep_or_fail [OF E [of _ b]])
  next
    case 3
    show ?case
      unfolding parse_members.simps
      by (auto split: option.split simp: move_def dest!: skip_depth
          intro!: deep_bind deep_or_fail [OF S [of _ b]] deep_or_fail [OF V [of _ b]] deep_or_fail [OF M [of _ b]])
  }
qed

text \<open>
  C32: no item the parser returns, whatever the input and the allocations, nests arrays and objects
  deeper than \<open>CJSON_NESTING_LIMIT\<close>, so the recursive functions that walk it later (printing,
  duplication, deletion) recurse at most that deep.
\<close>

theorem parse_nests:
  assumes "cJSON_ParseWithOpts dbl mem root_mem value require_null_terminated = Some (Some item, n)"
  shows "nests CJSON_NESTING_LIMIT item"
proof -
  have v: "nests CJSON_NESTING_LIMIT x" if "parse_value fuel dbl mem it b = Some (Some x, b')" "in_depth b = 0" for fuel it b x b'
    using parse_deep(1) [of b fuel dbl mem it] that by (simp add: deep_def)
  show ?thesis
    using assms
    by (auto simp: cJSON_ParseWithOpts_def Let_def bind_eq_Some_conv
        split: option.splits prod.splits if_splits dest!: skip_depth bom_depth intro: v)
qed

theorem parse_nests_witness:
  "\<exists>t. cJSON_ParseWithOpts int_double (\<lambda>_. True) True t True = Some (Some sample_item, length t) \<and>
    nests CJSON_NESTING_LIMIT sample_item"
proof -
  obtain t where t: "json_text int_double True 0 sample_item = Some t"
    using sample_formatted by blast
  have "cJSON_ParseWithOpts int_double (\<lambda>_. True) True t True = Some (Some sample_item, length t)"
    by (rule parse_text [OF int_libc_g int_libc_read _ _ _ t])
      (simp_all add: sample_item_def cjson_types CJSON_NESTING_LIMIT_def saturate_def int_double_def INT_MAX_def INT_MIN_def)
  with parse_nests [OF this] show ?thesis
    by blast
qed

end
