(* ===== verification/Cjson_Typed.thy ===== *)
theory Cjson_Typed
  imports Cjson_Depth
begin

text \<open>
  The types of items: every item the parser returns, whatever the input, is of one of the seven types
  of JSON with exactly the members that type has, so the functions that read those members later
  (printing, comparison, duplication) find them.
\<close>

section \<open>Well-typed items\<close>

definition is_c_string :: "bytes option \<Rightarrow> bool" where
  "is_c_string s = (case s of None \<Rightarrow> False | Some t \<Rightarrow> NUL \<notin> set t)"

text \<open>Only strings have a text, only arrays and objects have children, and only the latter named ones.\<close>

fun typed :: "('d, 'e) libc_double_scheme \<Rightarrow> 'd cJSON \<Rightarrow> bool" where
  "typed dbl (Item ty vs vi vd str ch) \<longleftrightarrow>
     ty \<in> {cJSON_NULL, cJSON_False, cJSON_True, cJSON_Number, cJSON_String, cJSON_Array, cJSON_Object} \<and>
     (if ty = cJSON_String then is_c_string vs else vs = None) \<and>
     (ty = cJSON_True \<longrightarrow> vi = 1) \<and>
     (ty = cJSON_Number \<longrightarrow> vi = saturate dbl vd) \<and>
     (ty \<noteq> cJSON_Array \<and> ty \<noteq> cJSON_Object \<longrightarrow> ch = []) \<and>
     (\<forall>c \<in> set ch. typed dbl c \<and> (if ty = cJSON_Object then is_c_string (i_string c) else i_string c = None))"

definition blank :: "'d cJSON \<Rightarrow> bool" where
  "blank item \<longleftrightarrow> i_valuestring item = None \<and> i_child item = []"

lemma new_item_blank [simp]:
  "cJSON_New_Item dbl ok = Some item \<Longrightarrow> blank item" "cJSON_New_Item dbl ok = Some item \<Longrightarrow> i_string item = None"
  by (auto simp: cJSON_New_Item_def blank_def split: if_splits)

text \<open>What the leaves of a value are, and that the name an item got stays.\<close>

abbreviation typed_as :: "('d, 'e) libc_double_scheme \<Rightarrow> 'd cJSON \<Rightarrow> 'd cJSON \<Rightarrow> bool" where
  "typed_as dbl item x \<equiv> typed dbl x \<and> i_string x = i_string item"

lemma typed_leaf:
  assumes "blank item"
  shows "typed_as dbl item (set_type cJSON_NULL item)" "typed_as dbl item (set_type cJSON_False item)"
    "typed_as dbl item (set_true item)" "typed_as dbl item (set_number dbl v item)"
  using assms
  by (cases item; simp add: blank_def set_type_def set_true_def set_number_def cJSON_SetNumberHelper_def cjson_types)+

lemma c_str_c_string [simp]: "is_c_string (Some (c_str xs))"
  using set_takeWhileD [of NUL "\<lambda>c. c \<noteq> NUL" xs] by (auto simp: is_c_string_def c_str_def)

lemma typed_list:
  assumes "blank item" "\<forall>x \<in> set xs. typed dbl x \<and> (if ty = cJSON_Object then is_c_string (i_string x) else i_string x = None)"
    and "ty = cJSON_Array \<or> ty = cJSON_Object"
  shows "typed_as dbl item (set_list ty xs item)"
  using assms by (cases item) (auto simp: blank_def set_list_def cjson_types)

section \<open>The parser returns well-typed items\<close>

lemma parse_string_typed:
  assumes "blank item"
  shows "deep (in_depth b) (\<lambda>x. i_type x = cJSON_String \<and> is_c_string (i_valuestring x) \<and> i_child x = [] \<and> i_string x = i_string item)
    (parse_string mem item b)"
  using assms unfolding parse_string_def Let_def
  by (intro deep_bind)
    (auto simp: fail_at_def blank_def split: option.split sum.split cJSON.split prod.split intro!: deep_bind)

lemma deep_mono: "deep d P m \<Longrightarrow> (\<And>x. P x \<Longrightarrow> Q x) \<Longrightarrow> deep d Q m"
  by (auto simp: deep_def)

lemma typed_string:
  "i_type x = cJSON_String \<and> is_c_string (i_valuestring x) \<and> i_child x = [] \<and> i_string x = s \<Longrightarrow> typed dbl x \<and> i_string x = s"
  by (cases x) (simp add: cjson_types)

lemma parse_number_typed: "blank item \<Longrightarrow> deep (in_depth b) (typed_as dbl item) (parse_number dbl item b)"
  unfolding parse_number_def Let_def
  by (intro deep_bind) (auto simp: typed_leaf move_def split: prod.split)

lemma parse_list_typed:
  assumes item: "blank item" "ty = cJSON_Array \<or> ty = cJSON_Object"
    and el: "\<And>b1. deep (in_depth b1)
      (\<lambda>xs. \<forall>x \<in> set xs. typed dbl x \<and> (if ty = cJSON_Object then is_c_string (i_string x) else i_string x = None)) (elements b1)"
  shows "deep (in_depth b) (typed_as dbl item) (parse_list ty opened closing elements item b)"
proof -
  have close: "deep (in_depth b) (typed_as dbl item) (close_list ty xs item b1)"
    if "in_depth b1 = in_depth b + 1"
      "\<forall>x \<in> set xs. typed dbl x \<and> (if ty = cJSON_Object then is_c_string (i_string x) else i_string x = None)" for xs b1
    using that(1) typed_list [OF item(1) that(2) item(2)] by (simp add: close_list_def)
  show ?thesis
    unfolding parse_list_def Let_def
    by (auto simp: move_def intro!: deep_bind close deep_or_fail [OF el] dest!: skip_depth)
qed

lemma parse_typed:
  "blank item \<Longrightarrow> deep (in_depth b) (typed_as dbl item) (parse_value fuel dbl mem item b)"
  "deep (in_depth b) (\<lambda>xs. \<forall>x \<in> set xs. typed dbl x \<and> i_string x = None) (parse_elements fuel dbl mem b)"
  "deep (in_depth b) (\<lambda>xs. \<forall>x \<in> set xs. typed dbl x \<and> is_c_string (i_string x)) (parse_members fuel dbl mem b)"
proof (induction fuel arbitrary: b item)
  case 0
  { case 1 show ?case by (simp add: parse_value.simps)
  next case 2 show ?case by (simp add: parse_elements.simps)
  next case 3 show ?case by (simp add: parse_members.simps) }
next
  case (Suc fuel)
  have V: "deep (in_depth b) (typed_as dbl it) (parse_value fuel dbl mem it b1)"
    and S: "deep (in_depth b) (\<lambda>x. i_type x = cJSON_String \<and> is_c_string (i_valuestring x) \<and> i_child x = [] \<and> i_string x = i_string it)
      (parse_string mem it b1)"
    if "in_depth b1 = in_depth b" "blank it" for b b1 it
    using Suc.IH(1) [of it b1] parse_string_typed [of it b1 mem] that by simp_all
  have E: "deep (in_depth b) (\<lambda>xs. \<forall>x \<in> set xs. typed dbl x \<and> i_string x = None) (parse_elements fuel dbl mem b1)"
    and M: "deep (in_depth b) (\<lambda>xs. \<forall>x \<in> set xs. typed dbl x \<and> is_c_string (i_string x)) (parse_members fuel dbl mem b1)"
    if "in_depth b1 = in_depth b" for b b1
    using Suc.IH(2,3) [of b1] that by simp_all
  have named: "blank (name_of_value x)" "i_string (name_of_value x) = i_valuestring x" if "i_child x = []" for x :: "'a cJSON"
    using that by (cases x; simp add: name_of_value_def blank_def)+
  {
    case 1
    have str: "deep (in_depth b1) (typed_as dbl item) (parse_string mem item b1)" for b1
      by (rule deep_mono [OF parse_string_typed [OF 1]]) (rule typed_string)
    have arr: "deep (in_depth b1) (typed_as dbl item)
        (parse_list cJSON_Array opened closing (parse_elements fuel dbl mem) item b1)" for opened closing b1
      using Suc.IH(2) by (intro parse_list_typed [OF 1]) (auto simp: cjson_types)
    have obj: "deep (in_depth b1) (typed_as dbl item)
        (parse_list cJSON_Object opened closing (parse_members fuel dbl mem) item b1)" for opened closing b1
      using Suc.IH(3) by (intro parse_list_typed [OF 1]) (auto simp: cjson_types)
    show ?case
      unfolding parse_value.simps
      by (intro deep_bind) (auto simp: typed_leaf [OF 1] move_def intro!: str parse_number_typed [OF 1] arr obj)
  next
    case 2
    show ?case
      unfolding parse_elements.simps
      by (auto split: option.split simp: move_def dest!: skip_depth
          intro!: deep_bind deep_or_fail [OF V [of _ b]] deep_or_fail [OF E [of _ b]])
  next
    case 3
    show ?case
      unfolding parse_members.simps
      by (auto split: option.split simp: move_def named dest!: skip_depth
          intro!: deep_bind deep_or_fail [OF S [of _ b]] deep_or_fail [OF V [of _ b]] deep_or_fail [OF M [of _ b]])
  }
qed

section \<open>Well-typed items have a text\<close>

lemma typed_c_strings: "typed dbl item \<Longrightarrow> i_string item = None \<or> is_c_string (i_string item) \<Longrightarrow> c_strings item"
proof (induction item)
  case (Item ty vs vi vd str ch)
  have "c_strings c" if "c \<in> set ch" for c
    using Item.IH [OF that] Item.prems(1) that by (cases "ty = cJSON_Object") auto
  then show ?case
    using Item.prems by (auto simp: is_c_string_def split: option.splits if_splits)
qed

lemma join_None_iff: "join s t = None \<longleftrightarrow> s = None \<or> t = None"
  by (cases s; cases t) simp_all

lemma list_texts:
  assumes "\<forall>c \<in> set ch. \<forall>depth. json_text dbl fmt depth c \<noteq> None"
  shows "elements_text dbl fmt depth ch \<noteq> None" "members_text dbl fmt depth ch \<noteq> None"
  using assms by (induction ch) (simp_all add: join_None_iff)

lemma typed_text: "typed dbl item \<Longrightarrow> json_text dbl fmt depth item \<noteq> None"
proof (induction item arbitrary: depth)
  case (Item ty vs vi vd str ch)
  have "\<forall>c \<in> set ch. \<forall>depth. json_text dbl fmt depth c \<noteq> None"
    using Item by simp
  note texts = list_texts [OF this]
  have "ty \<in> {cJSON_NULL, cJSON_False, cJSON_True, cJSON_Number, cJSON_String, cJSON_Array, cJSON_Object}"
    using Item.prems by simp
  then show ?case
    using texts unfolding json_text.simps Let_def
    by (elim insertE) (simp_all add: join_None_iff cjson_types)
qed

text \<open>
  C33: every item the parser returns, whatever the input and the allocations, is well typed: one of the
  seven types of JSON, with a text exactly if it is a string, numbers whose integer is the
  saturated double, children only in arrays and objects and named ones only in objects.  So it has
  a text, which the printer writes.
\<close>

theorem parse_well_typed:
  assumes "cJSON_ParseWithOpts dbl mem root_mem value require_null_terminated = Some (Some item, n)"
  shows "typed dbl item \<and> i_string item = None \<and> c_strings item \<and> (\<forall>fmt depth. json_text dbl fmt depth item \<noteq> None)"
proof -
  have v: "typed dbl x \<and> i_string x = None"
    if "parse_value fuel dbl mem it b = Some (Some x, b')" "cJSON_New_Item dbl root_mem = Some it" for fuel it b x b'
    using parse_typed(1) [of it b dbl fuel mem] that by (simp add: deep_def)
  have "typed dbl item \<and> i_string item = None"
    using assms
    by (auto simp: cJSON_ParseWithOpts_def Let_def bind_eq_Some_conv
        split: option.splits prod.splits if_splits dest!: v)
  then show ?thesis
    using typed_c_strings typed_text by blast
qed

theorem parse_well_typed_witness:
  "\<exists>t. cJSON_ParseWithOpts int_double (\<lambda>_. True) True t True = Some (Some sample_item, length t) \<and>
    typed int_double sample_item"
proof -
  obtain t where t: "json_text int_double True 0 sample_item = Some t"
    using sample_formatted by blast
  have "cJSON_ParseWithOpts int_double (\<lambda>_. True) True t True = Some (Some sample_item, length t)"
    by (rule parse_text [OF int_libc_g int_libc_read _ _ _ t])
      (simp_all add: sample_item_def cjson_types CJSON_NESTING_LIMIT_def saturate_def int_double_def INT_MAX_def INT_MIN_def)
  with parse_well_typed [OF this] show ?thesis
    by blast
qed

end
