(* ===== verification/Cjson_Minify.thy ===== *)
theory Cjson_Minify
  imports Cjson_Double
begin

text \<open>
  \<open>cJSON_Minify\<close> of \<^verbatim>\<open>src/src/cJSON.cc\<close>, which takes white space and comments out of a text in its
  own array: what it leaves as a function of the text, what happens on texts that end inside a
  comment or a string, and that it turns the formatted print of an item into the unformatted one.
\<close>

section \<open>The code\<close>

text \<open>\<open>buf\<close> is the whole array, \<open>into\<close> and \<open>json\<close> the two pointers into it.\<close>

lemma get_less: "get xs i = Some c \<Longrightarrow> i < length xs"
  by (cases "i < length xs") auto

definition copy_char :: "bytes \<Rightarrow> nat \<Rightarrow> nat \<Rightarrow> bytes option" where
  "copy_char buf into json = do { c \<leftarrow> get buf json; put_byte into c buf }"

lemma copy_char_Some:
  "copy_char buf into json = Some buf' \<Longrightarrow> length buf' = length buf \<and> json < length buf"
  by (auto simp: copy_char_def put_byte_def get_less split: bind_splits if_splits)

function skip_line :: "bytes \<Rightarrow> nat \<Rightarrow> nat option" where
  "skip_line buf json = do {
     c \<leftarrow> get buf json;
     if c \<noteq> NUL \<and> c \<noteq> LF then skip_line buf (json + 1) else Some json }"
  by pat_completeness auto
termination
  by (relation "measure (\<lambda>(buf, json). length buf - json)") (auto dest: get_less)

function skip_comment :: "bytes \<Rightarrow> nat \<Rightarrow> nat option" where
  "skip_comment buf json = do {
     c \<leftarrow> get buf json;
     d \<leftarrow> (if c = 42 then get buf (json + 1) else Some NUL);
     if c \<noteq> NUL \<and> \<not> (c = 42 \<and> d = 47) then skip_comment buf (json + 1) else Some json }"
  by pat_completeness auto
termination
  by (relation "measure (\<lambda>(buf, json). length buf - json)") (auto dest: get_less)

function copy_literal :: "bytes \<Rightarrow> nat \<Rightarrow> nat \<Rightarrow> (bytes \<times> nat \<times> nat) option" where
  "copy_literal buf into json = do {
     c \<leftarrow> get buf json;
     if c \<noteq> NUL \<and> c \<noteq> 34 then do {
       (buf, into, json) \<leftarrow> (if c = 92
          then map_option (\<lambda>buf. (buf, into + 1, json + 1)) (copy_char buf into json)
          else Some (buf, into, json));
       buf \<leftarrow> copy_char buf into json;
       copy_literal buf (into + 1) (json + 1) }
     else Some (buf, into, json) }"
  by pat_completeness auto
termination
  by (relation "measure (\<lambda>(buf, into, json). length buf - json)") (auto dest!: copy_char_Some split: if_splits)

declare skip_line.simps [simp del] skip_comment.simps [simp del] copy_literal.simps [simp del]

lemma skip_line_later: "skip_line buf json = Some j \<Longrightarrow> json \<le> j"
proof (induction buf json rule: skip_line.induct)
  case (1 buf json)
  then show ?case
    by (fastforce simp: skip_line.simps [of buf json] split: bind_splits if_splits)
qed

lemma skip_comment_later: "skip_comment buf json = Some j \<Longrightarrow> json \<le> j"
proof (induction buf json rule: skip_comment.induct)
  case (1 buf json)
  then show ?case
    by (fastforce simp: skip_comment.simps [of buf json] split: bind_splits if_splits)
qed

lemma copy_literal_later:
  "copy_literal buf into json = Some (buf', into', j) \<Longrightarrow> json \<le> j \<and> length buf' = length buf"
proof (induction buf into json rule: copy_literal.induct)
  case (1 buf into json)
  from 1(2) obtain c where c: "get buf json = Some c"
    by (auto simp: copy_literal.simps [of buf into json] split: bind_splits)
  show ?case
  proof (cases "c \<noteq> NUL \<and> c \<noteq> 34")
    case True
    obtain b i k where s: "(if c = 92 then map_option (\<lambda>buf. (buf, into + 1, json + 1)) (copy_char buf into json)
          else Some (buf, into, json)) = Some (b, i, k)"
      using 1(2) True c by (auto simp: copy_literal.simps [of buf into json] split: bind_splits)
    then obtain b' where b': "copy_char b i k = Some b'"
      using 1(2) True c by (auto simp: copy_literal.simps [of buf into json] split: bind_splits)
    have "k + 1 \<le> j \<and> length buf' = length b'"
      using 1(1) [OF c True s refl refl b'] 1(2) True c s b'
      by (simp add: copy_literal.simps [of buf into json])
    then show ?thesis
      using s b' by (auto dest!: copy_char_Some split: if_splits)
  next
    case False
    then show ?thesis
      using 1(2) c by (auto simp: copy_literal.simps [of buf into json])
  qed
qed

lemma skip_line_on: "skip_line buf json = Some j \<Longrightarrow> get buf json = Some 47 \<Longrightarrow> json < j"
  using skip_line_later [of buf "json + 1" j] by (simp add: skip_line.simps [of buf json] Suc_le_eq)

text \<open>The loop, the array and \<open>into\<close> at its end.\<close>

function minify_loop :: "bytes \<Rightarrow> nat \<Rightarrow> nat \<Rightarrow> (bytes \<times> nat) option" where
  "minify_loop buf into json = do {
     c \<leftarrow> get buf json;
     d \<leftarrow> (if c = 47 then get buf (json + 1) else Some NUL);
     if c = NUL then Some (buf, into)
     else if c = 32 then minify_loop buf into (json + 1)
     else if c = 9 then minify_loop buf into (json + 1)
     else if c = CR then minify_loop buf into (json + 1)
     else if c = LF then minify_loop buf into (json + 1)
     else if c = 47 \<and> d = 47 then do {
       json \<leftarrow> skip_line buf json;
       minify_loop buf into json }
     else if c = 47 \<and> d = 42 then do {
       json \<leftarrow> skip_comment buf json;
       minify_loop buf into (json + 2) }
     else if c = 34 then do {
       buf \<leftarrow> copy_char buf into json;
       (buf, into, json) \<leftarrow> copy_literal buf (into + 1) (json + 1);
       buf \<leftarrow> copy_char buf into json;
       minify_loop buf (into + 1) (json + 1) }
     else do {
       buf \<leftarrow> copy_char buf into json;
       minify_loop buf (into + 1) (json + 1) } }"
  by pat_completeness auto
termination
  by (relation "measure (\<lambda>(buf, into, json). length buf - json)")
    (auto intro!: diff_less_mono2 dest: get_less skip_line_on dest!: copy_char_Some copy_literal_later skip_comment_later)

declare minify_loop.simps [simp del]

text \<open>\<open>None\<close> is the null pointer; the result is the array afterwards.\<close>

definition cJSON_Minify :: "bytes option \<Rightarrow> bytes option option" where
  "cJSON_Minify json = (case json of
     None \<Rightarrow> Some None
   | Some buf \<Rightarrow> do {
       (buf, into) \<leftarrow> minify_loop buf 0 0;
       buf \<leftarrow> put_byte into NUL buf;
       Some (Some buf) })"

section \<open>What is left of a text\<close>

text \<open>
  \<open>comment_rest\<close> is what follows a block comment, \<open>literal_end\<close> a string after its opening quote with what
  follows it; both are \<open>None\<close> where the text ends before.
\<close>

fun comment_rest :: "bytes \<Rightarrow> bytes option" where
  "comment_rest [] = None"
| "comment_rest (c # s) = (if c = 42 \<and> take 1 s = [47] then Some (drop 1 s) else comment_rest s)"

fun literal_end :: "bytes \<Rightarrow> (bytes \<times> bytes) option" where
  "literal_end [] = None"
| "literal_end (c # s) =
     (if c = 34 then Some ([34], s)
      else if c = 92 then (case s of [] \<Rightarrow> None | d # s \<Rightarrow> map_option (apfst (\<lambda>l. 92 # d # l)) (literal_end s))
      else map_option (apfst ((#) c)) (literal_end s))"

lemma comment_rest_shorter: "comment_rest s = Some r \<Longrightarrow> length r < length s"
  by (induction s) (auto split: if_splits)

lemma comment_rest_subset: "comment_rest s = Some r \<Longrightarrow> set r \<subseteq> set s"
  by (induction s) (auto split: if_splits dest: in_set_dropD)

lemma literal_parts: "literal_end s = Some (l, r) \<Longrightarrow> s = l @ r \<and> l \<noteq> []"
  by (induction s arbitrary: l rule: literal_end.induct) (auto split: if_splits list.splits)

lemma literal_shorter: "literal_end s = Some (l, r) \<Longrightarrow> length r < length s"
  using literal_parts [of s l r] by (cases l) auto

definition white :: "byte \<Rightarrow> bool" where
  "white c \<longleftrightarrow> c \<in> {32, 9, CR, LF}"

function minified :: "bytes \<Rightarrow> bytes option" where
  "minified [] = Some []"
| "minified (c # s) =
     (if white c then minified s
      else if c = 47 \<and> take 1 s = [47] then minified (dropWhile (\<lambda>c. c \<noteq> LF) s)
      else if c = 47 \<and> take 1 s = [42] then do { r \<leftarrow> comment_rest s; minified r }
      else if c = 34 then do { (l, r) \<leftarrow> literal_end s; map_option (\<lambda>t. 34 # l @ t) (minified r) }
      else map_option ((#) c) (minified s))"
  by pat_completeness auto
termination
  by (relation "measure length")
    (auto dest: comment_rest_shorter literal_shorter intro: less_SucI simp: le_imp_less_Suc [OF length_dropWhile_le])

section \<open>The code leaves that text\<close>

definition written :: "bytes \<Rightarrow> nat \<Rightarrow> bytes \<Rightarrow> bytes" where
  "written buf into xs = take into buf @ xs @ drop (into + length xs) buf"

lemma get_drop: "drop i xs = c # r \<Longrightarrow> get xs i = Some c \<and> drop (i + 1) xs = r"
  by (cases "i < length xs") (auto simp: drop_eq_Cons)

lemma drop_bound: "drop i xs = r @ c # t \<Longrightarrow> i + length r < length xs"
proof -
  assume "drop i xs = r @ c # t"
  then have "length (drop i xs) = length (r @ c # t)"
    by (rule arg_cong)
  then show ?thesis
    by simp
qed

lemma drop_Cons_bound: "drop i xs = c # t \<Longrightarrow> i < length xs"
  using drop_bound [of i xs "[]" c t] by simp

lemma drop_last: "drop i xs = [c] \<Longrightarrow> length xs = Suc i"
proof -
  assume "drop i xs = [c]"
  then have "length (drop i xs) = length [c]"
    by (rule arg_cong)
  then show ?thesis
    by simp
qed

lemma written_nil [simp]: "written buf into [] = buf"
  by (simp add: written_def)

lemma written_length: "into + length xs \<le> length buf \<Longrightarrow> length (written buf into xs) = length buf"
  by (simp add: written_def)

lemma drop_written: "into + length xs \<le> j \<Longrightarrow> j \<le> length buf \<Longrightarrow> drop j (written buf into xs) = drop j buf"
  by (simp add: written_def add.commute)

lemma written_written:
  "into + length xs + length ys \<le> length buf \<Longrightarrow>
     written (written buf into xs) (into + length xs) ys = written buf into (xs @ ys)"
  by (simp add: written_def ac_simps)

lemma copy_char_drop:
  assumes "drop json buf = c # r" "into \<le> json"
  shows "copy_char buf into json = Some (written buf into [c])"
  using assms drop_bound [of json buf "[]" c r] get_drop [of json buf c r]
  by (simp add: copy_char_def put_byte_def written_def upd_conv_take_nth_drop)

lemma skip_line_drop:
  "drop json buf = s @ NUL # tail \<Longrightarrow> NUL \<notin> set s \<Longrightarrow>
     \<exists>j. skip_line buf json = Some j \<and> drop j buf = dropWhile (\<lambda>c. c \<noteq> LF) s @ NUL # tail \<and> json \<le> j"
proof (induction s arbitrary: json)
  case Nil
  then show ?case
    using get_drop [of json buf NUL tail] by (simp add: skip_line.simps)
next
  case (Cons c s)
  then have c: "get buf json = Some c" "drop (json + 1) buf = s @ NUL # tail"
    using get_drop [of json buf c "s @ NUL # tail"] by auto
  show ?case
  proof (cases "c = LF")
    case True
    then show ?thesis
      using Cons.prems c by (simp add: skip_line.simps)
  next
    case False
    then show ?thesis
      using Cons.IH [OF c(2)] Cons.prems(2) c(1) by (auto simp: skip_line.simps [of buf json])
  qed
qed

lemma skip_comment_drop:
  "drop json buf = s @ NUL # tail \<Longrightarrow> NUL \<notin> set s \<Longrightarrow>
     \<exists>j. skip_comment buf json = Some j \<and> json \<le> j \<and> (case comment_rest s of
         None \<Rightarrow> drop j buf = NUL # tail
       | Some r \<Rightarrow> drop (j + 2) buf = r @ NUL # tail)"
proof (induction s arbitrary: json)
  case Nil
  then show ?case
    using get_drop [of json buf NUL tail] by (simp add: skip_comment.simps)
next
  case (Cons c s)
  then have c: "get buf json = Some c" "drop (json + 1) buf = s @ NUL # tail"
    using get_drop [of json buf c "s @ NUL # tail"] by auto
  obtain d r where d: "s @ NUL # tail = d # r" "get buf (json + 1) = Some d" "drop (json + 2) buf = r"
    using c(2) get_drop [of "json + 1" buf] by (cases "s @ NUL # tail") auto
  show ?case
  proof (cases "c = 42 \<and> d = 47")
    case True
    then have "take 1 s = [47]" "drop 1 s @ NUL # tail = r"
      using d(1) by (cases s; simp)+
    then show ?thesis
      using True c d by (simp add: skip_comment.simps [of buf json])
  next
    case False
    then have "\<not> (c = 42 \<and> take 1 s = [47])"
      using d(1) by (cases s) auto
    then show ?thesis
      using False Cons.IH [OF c(2)] Cons.prems(2) c(1) d(2)
      by (auto simp: skip_comment.simps [of buf json])
  qed
qed


text \<open>Where the string ends with the array, the code copies the terminator and leaves the array.\<close>

lemma copy_literal_step:
  assumes "drop json buf = c # r" "into \<le> json" "c \<noteq> NUL" "c \<noteq> 34" "c \<noteq> 92"
  shows "copy_literal buf into json = copy_literal (written buf into [c]) (into + 1) (json + 1)"
  using assms get_drop [of json buf c r] copy_char_drop [of json buf c r into]
  by (simp add: copy_literal.simps [of buf into json])

lemma copy_literal_escape:
  assumes "drop json buf = 92 # d # r" "into \<le> json"
  shows "copy_literal buf into json = copy_literal (written buf into [92, d]) (into + 2) (json + 2)"
proof -
  have b: "json + 1 < length buf" "drop (json + 1) buf = d # r"
    using drop_bound [of json buf "[92]" d r] assms(1) get_drop [of json buf] by auto
  then have "drop (json + 1) (written buf into [92]) = d # r"
    using assms(2) by (simp add: drop_written)
  then have "copy_char (written buf into [92]) (into + 1) (json + 1) = Some (written buf into [92, d])"
    using copy_char_drop [of "json + 1" "written buf into [92]" d r "into + 1"] b assms(2)
      written_written [of into "[92]" "[d]" buf] by simp
  then show ?thesis
    using assms get_drop [of json buf] copy_char_drop [of json buf 92 _ into]
    by (simp add: copy_literal.simps [of buf into json])
qed

lemma copy_literal_drop:
  "drop json buf = s @ NUL # tail \<Longrightarrow> NUL \<notin> set s \<Longrightarrow> into \<le> json \<Longrightarrow> literal_end s = Some (l, r) \<Longrightarrow>
     \<exists>m j. l = m @ [34] \<and> copy_literal buf into json = Some (written buf into m, into + length m, j) \<and>
       into + length m \<le> j \<and> drop j buf = 34 # r @ NUL # tail"
proof (induction s arbitrary: buf into json l rule: literal_end.induct)
  case (2 c s)
  consider (quote) "c = 34" | (escape) d s' l' where "c = 92" "s = d # s'" "literal_end s' = Some (l', r)" "l = 92 # d # l'"
    | (plain) l' where "c \<noteq> 34" "c \<noteq> 92" "literal_end s = Some (l', r)" "l = c # l'"
    using 2(6) by (auto split: if_splits list.splits)
  then show ?case
  proof cases
    case quote
    then show ?thesis
      using 2(3,5,6) get_drop [of json buf 34 "s @ NUL # tail"]
      by (intro exI [of _ "[]"]) (auto simp: copy_literal.simps [of buf into json])
  next
    case escape
    have b: "json + 1 < length buf"
      using drop_bound [of json buf "[c]" d] 2(3) escape(2) by simp
    have d: "drop (json + 2) buf = s' @ NUL # tail"
      using 2(3) escape(2) get_drop [of json buf] get_drop [of "json + 1" buf] by simp
    then have "drop (json + 2) (written buf into [92, d]) = s' @ NUL # tail"
      using 2(5) b by (simp add: drop_written)
    from 2(1) [OF _ escape(1,2) this _ _ escape(3), where into = "into + 2"] obtain m j where
      m: "l' = m @ [34]" "into + 2 + length m \<le> j" "drop j (written buf into [92, d]) = 34 # r @ NUL # tail"
        "copy_literal (written buf into [92, d]) (into + 2) (json + 2)
          = Some (written (written buf into [92, d]) (into + 2) m, into + 2 + length m, j)"
      using 2(4,5) escape(1,2) by auto
    have j: "j < length buf"
      using drop_Cons_bound [OF m(3)] b 2(5)
      by (simp add: written_length)
    show ?thesis
      by (intro exI [of _ "92 # d # m"] exI [of _ j])
        (use m j b 2(3,5) escape written_written [of into "[92, d]" m buf] drop_written [of into "[92, d]" j buf]
          copy_literal_escape [of json buf d "s' @ NUL # tail" into] in simp)
  next
    case plain
    have b: "json < length buf"
      using drop_bound [of json buf "[]" c] 2(3) by simp
    have d: "drop (json + 1) buf = s @ NUL # tail"
      using 2(3) get_drop [of json buf] by simp
    then have "drop (json + 1) (written buf into [c]) = s @ NUL # tail"
      using 2(5) b by (simp add: drop_written)
    from 2(2) [OF plain(1,2) this _ _ plain(3), where into = "into + 1"] obtain m j where
      m: "l' = m @ [34]" "into + 1 + length m \<le> j" "drop j (written buf into [c]) = 34 # r @ NUL # tail"
        "copy_literal (written buf into [c]) (into + 1) (json + 1)
          = Some (written (written buf into [c]) (into + 1) m, into + 1 + length m, j)"
      using 2(4,5) by auto
    have j: "j < length buf"
      using drop_Cons_bound [OF m(3)] b 2(5)
      by (simp add: written_length)
    show ?thesis
      by (intro exI [of _ "c # m"] exI [of _ j])
        (use m j b 2(3,4,5) plain written_written [of into "[c]" m buf] drop_written [of into "[c]" j buf]
          copy_literal_step [of json buf c "s @ NUL # tail" into] in simp)
  qed
qed simp


lemma copy_literal_open:
  "drop json buf = s @ [NUL] \<Longrightarrow> NUL \<notin> set s \<Longrightarrow> into \<le> json \<Longrightarrow> literal_end s = None \<Longrightarrow>
     copy_literal buf into json = Some (b, i, k) \<Longrightarrow> drop k b = [NUL] \<and> i \<le> k"
proof (induction s arbitrary: buf into json rule: literal_end.induct)
  case 1
  then show ?case
    using get_drop [of json buf NUL "[]"] by (auto simp: copy_literal.simps [of buf into json])
next
  case (2 c s)
  consider (ends) "c = 92" "s = []" | (escape) d s' where "c = 92" "s = d # s'" "literal_end s' = None"
    | (plain) "c \<noteq> 34" "c \<noteq> 92" "literal_end s = None"
    using 2(6) by (auto split: if_splits list.splits)
  then show ?case
  proof cases
    case ends
    have "get (written buf into [92, NUL]) (json + 2) = None"
      using drop_bound [of json buf "[92]" NUL "[]"] arg_cong [OF 2(3), of length] 2(5) ends
      by (simp add: written_length)
    then have "copy_literal (written buf into [92, NUL]) (into + 2) (json + 2) = None"
      by (subst copy_literal.simps) simp
    then show ?thesis
      using 2(3,5,7) ends copy_literal_escape [of json buf NUL "[]" into] by simp
  next
    case escape
    have b: "json + 1 < length buf"
      using drop_bound [of json buf "[c]" d] 2(3) escape(2) by simp
    have "drop (json + 2) buf = s' @ [NUL]"
      using 2(3) escape(2) get_drop [of json buf] get_drop [of "json + 1" buf] by simp
    then have d: "drop (json + 2) (written buf into [92, d]) = s' @ [NUL]"
      using 2(5) b by (simp add: drop_written)
    show ?thesis
      by (rule 2(1) [OF _ escape(1,2) d _ _ escape(3)])
        (use 2(3-7) escape copy_literal_escape [of json buf d "s' @ [NUL]" into] in auto)
  next
    case plain
    have b: "json < length buf"
      using drop_bound [of json buf "[]" c] 2(3) by simp
    have "drop (json + 1) buf = s @ [NUL]"
      using 2(3) get_drop [of json buf] by simp
    then have d: "drop (json + 1) (written buf into [c]) = s @ [NUL]"
      using 2(5) b by (simp add: drop_written)
    show ?thesis
      by (rule 2(2) [OF plain(1,2) d _ _ plain(3)])
        (use 2(3-7) plain copy_literal_step [of json buf c "s @ [NUL]" into] in auto)
  qed
qed

lemma get_past: "drop j buf = [] \<Longrightarrow> minify_loop buf into j = None"
  by (simp add: minify_loop.simps [of buf into j])

lemma minify_white:
  assumes "drop json buf = c # r" "white c"
  shows "minify_loop buf into json = minify_loop buf into (json + 1)"
  using assms get_drop [of json buf c r]
  by (auto simp: minify_loop.simps [of buf into json] white_def)

lemma minify_other:
  assumes "drop json buf = c # s @ NUL # tail" "into \<le> json" "c \<noteq> NUL" "\<not> white c" "c \<noteq> 34"
    and "c = 47 \<Longrightarrow> take 1 s \<noteq> [47] \<and> take 1 s \<noteq> [42]"
  shows "minify_loop buf into json = minify_loop (written buf into [c]) (into + 1) (json + 1)"
proof -
  obtain d where "get buf (json + 1) = Some d" "c = 47 \<Longrightarrow> d \<noteq> 47 \<and> d \<noteq> 42"
    using assms(1,6) get_drop [of json buf c] get_drop [of "json + 1" buf] by (cases s) auto
  then show ?thesis
    using assms(1-5) get_drop [of json buf c] copy_char_drop [of json buf c _ into]
    by (simp add: minify_loop.simps [of buf into json] white_def)
qed

lemma minify_line:
  assumes "drop json buf = 47 # 47 # s @ NUL # tail" "NUL \<notin> set s"
  shows "\<exists>j. json < j \<and> drop j buf = dropWhile (\<lambda>c. c \<noteq> LF) (47 # s) @ NUL # tail \<and>
    minify_loop buf into json = minify_loop buf into j"
  using assms skip_line_drop [of json buf "47 # 47 # s" tail] get_drop [of json buf]
    get_drop [of "json + 1" buf] skip_line_on [of buf json]
  by (auto simp: minify_loop.simps [of buf into json])

lemma minify_comment:
  assumes "drop json buf = 47 # 42 # s @ NUL # tail" "NUL \<notin> set s"
  shows "\<exists>j. json \<le> j \<and> minify_loop buf into json = minify_loop buf into (j + 2) \<and>
    (case comment_rest (42 # s) of None \<Rightarrow> drop j buf = NUL # tail | Some r \<Rightarrow> drop (j + 2) buf = r @ NUL # tail)"
  using assms skip_comment_drop [of json buf "47 # 42 # s" tail] get_drop [of json buf]
    get_drop [of "json + 1" buf]
  by (auto simp: minify_loop.simps [of buf into json])


lemma minify_string:
  assumes "drop json buf = 34 # s @ NUL # tail" "NUL \<notin> set s" "into \<le> json" "literal_end s = Some (l, r)"
  shows "\<exists>j. into + length l < j \<and> drop j buf = r @ NUL # tail \<and>
    minify_loop buf into json = minify_loop (written buf into (34 # l)) (into + Suc (length l)) j"
proof -
  let ?b = "written buf into [34]"
  have json: "json < length buf" "drop (json + 1) buf = s @ NUL # tail"
    using drop_Cons_bound [OF assms(1)] get_drop [of json buf] assms(1) by auto
  then have "drop (json + 1) ?b = s @ NUL # tail"
    using assms(3) by (simp add: drop_written)
  from copy_literal_drop [OF this assms(2) _ assms(4), of "into + 1"] assms(3)
  obtain m j where m: "l = m @ [34]" "into + 1 + length m \<le> j" "drop j ?b = 34 # r @ NUL # tail"
      "copy_literal ?b (into + 1) (json + 1) = Some (written ?b (into + 1) m, into + 1 + length m, j)"
    by auto
  have j: "j < length buf"
    using drop_Cons_bound [OF m(3)] json assms(3) by (simp add: written_length)
  have b: "written ?b (into + 1) m = written buf into (34 # m)"
    using written_written [of into "[34]" m buf] m(2) j by simp
  have "drop j buf = 34 # r @ NUL # tail"
    using m(2,3) j drop_written [of into "[34]" j buf] by simp
  then have c: "copy_char (written buf into (34 # m)) (into + 1 + length m) j = Some (written buf into (34 # l))"
    using copy_char_drop [of j "written buf into (34 # m)" 34 "r @ NUL # tail" "into + 1 + length m"] m(1,2) j
      drop_written [of into "34 # m" j buf] written_written [of into "34 # m" "[34]" buf] by simp
  have "minify_loop buf into json = minify_loop (written buf into (34 # l)) (into + Suc (length l)) (j + 1)"
  proof -
    have "get buf json = Some 34" "copy_char buf into json = Some ?b"
      using get_drop [OF assms(1)] copy_char_drop [OF assms(1,3)] by auto
    moreover have "length l = Suc (length m)"
      using m(1) by simp
    ultimately show ?thesis
      using m(4) b c by (subst minify_loop.simps) simp
  qed
  moreover have "drop (j + 1) buf = r @ NUL # tail"
    using get_drop [OF \<open>drop j buf = _\<close>] by simp
  ultimately show ?thesis
    using m(1,2) by (intro exI [of _ "j + 1"]) simp
qed

lemma minify_string_open:
  assumes "drop json buf = 34 # s @ [NUL]" "NUL \<notin> set s" "into \<le> json" "literal_end s = None"
  shows "minify_loop buf into json = None"
proof (rule ccontr)
  let ?b = "written buf into [34]"
  assume "minify_loop buf into json \<noteq> None"
  then obtain b i k b' where k: "copy_literal ?b (into + 1) (json + 1) = Some (b, i, k)" "copy_char b i k = Some b'"
      "minify_loop b' (i + 1) (k + 1) \<noteq> None"
    using get_drop [of json buf] assms(1,3) copy_char_drop [of json buf 34 _ into]
    by (auto simp: minify_loop.simps [of buf into json] split: bind_splits)
  have "drop (json + 1) ?b = s @ [NUL]"
    using drop_Cons_bound [OF assms(1)] get_drop [of json buf] assms(1,3) by (simp add: drop_written)
  then have "drop k b = [NUL] \<and> i \<le> k"
    using copy_literal_open [OF _ assms(2) _ assms(4) k(1)] assms(3) by simp
  then have "drop (k + 1) b' = []"
    using copy_char_Some [OF k(2)] drop_last [of k b NUL] by simp
  then show False
    using k(3) get_past [of "k + 1" b' "i + 1"] by simp
qed

lemma minify_loop_text:
  "drop json buf = s @ NUL # tail \<Longrightarrow> NUL \<notin> set s \<Longrightarrow> into \<le> json \<Longrightarrow>
     (\<forall>t. minified s = Some t \<longrightarrow> minify_loop buf into json = Some (written buf into t, into + length t) \<and>
        into + length t < length buf) \<and>
     (minified s = None \<longrightarrow> tail = [] \<longrightarrow> minify_loop buf into json = None)"
proof (induction s arbitrary: buf into json rule: minified.induct)
  case 1
  then show ?case
    using get_drop [of json buf NUL tail] drop_Cons_bound [of json buf NUL tail]
    by (auto simp: minify_loop.simps [of buf into json])
next
  case (2 c s)
  have json: "json < length buf" "drop (json + 1) buf = s @ NUL # tail" "c \<noteq> NUL" "NUL \<notin> set s"
    using drop_Cons_bound [of json buf c] get_drop [of json buf c] 2(6,7) by auto
  consider (white) "white c" | (line) s' where "\<not> white c" "c = 47" "s = 47 # s'"
    | (comment) s' where "\<not> white c" "c = 47" "s = 42 # s'" | (string) "\<not> white c" "c = 34"
    | (other) "\<not> white c" "c \<noteq> 34" "c = 47 \<Longrightarrow> take 1 s \<noteq> [47] \<and> take 1 s \<noteq> [42]"
    by (cases s) auto
  then show ?case
  proof cases
    case white
    then show ?thesis
      using 2(1) [OF white json(2,4), of into] minify_white [of json buf c _ into] 2(6,8) by simp
  next
    case line
    have s: "c = 47 \<and> take 1 s = [47]" "drop json buf = 47 # 47 # s' @ NUL # tail" "NUL \<notin> set s'"
      using line 2(6) json(4) by simp_all
    obtain j where j: "json < j" "drop j buf = dropWhile (\<lambda>c. c \<noteq> LF) s @ NUL # tail"
        "minify_loop buf into json = minify_loop buf into j"
      using minify_line [OF s(2,3), of into] line(3) by auto
    have "NUL \<notin> set (dropWhile (\<lambda>c. c \<noteq> LF) s)"
      using json(4) set_dropWhileD by fast
    then show ?thesis
      using 2(2) [OF line(1) s(1) j(2), of into] j(1,3) 2(8) line(1) s(1) by simp
  next
    case comment
    have s: "c = 47 \<and> take 1 s = [42]" "\<not> (c = 47 \<and> take 1 s = [47])"
        "drop json buf = 47 # 42 # s' @ NUL # tail" "NUL \<notin> set s'"
      using comment 2(6) json(4) by simp_all
    obtain j where j: "json \<le> j" "minify_loop buf into json = minify_loop buf into (j + 2)"
        "case comment_rest s of None \<Rightarrow> drop j buf = NUL # tail | Some r \<Rightarrow> drop (j + 2) buf = r @ NUL # tail"
      using minify_comment [OF s(3,4), of into] comment(3) by auto
    show ?thesis
    proof (cases "comment_rest s")
      case None
      have "tail = [] \<Longrightarrow> minify_loop buf into (j + 2) = None"
        by (rule get_past) (use j(3) None drop_last [of j buf NUL] in simp)
      then show ?thesis
        using None comment(1) s(1,2) j(2) by (auto simp: minified.simps(2))
    next
      case (Some r)
      have r: "drop (j + 2) buf = r @ NUL # tail" "NUL \<notin> set r"
        using j(3) Some json(4) comment_rest_subset [OF Some] by auto
      show ?thesis
        using 2(3) [OF comment(1) s(2,1) Some r, of into] j(1,2) 2(8) comment(1) s(1,2) Some by simp
    qed
  next
    case string
    have n: "\<not> (c = 47 \<and> take 1 s = [47])" "\<not> (c = 47 \<and> take 1 s = [42])"
      using string by simp_all
    have s: "drop json buf = 34 # s @ NUL # tail"
      using 2(6) string(2) by simp
    show ?thesis
    proof (cases "literal_end s")
      case None
      then show ?thesis
        using minify_string_open [of json buf s into] s json(4) 2(8) string(1,2) by auto
    next
      case (Some lr)
      obtain l r where lr: "lr = (l, r)"
        by fastforce
      obtain j where j: "into + length l < j" "drop j buf = r @ NUL # tail"
          "minify_loop buf into json = minify_loop (written buf into (34 # l)) (into + Suc (length l)) j"
        using minify_string [OF s json(4) 2(8) Some [unfolded lr]] by blast
      have r: "NUL \<notin> set r"
        using literal_parts [of s l r] Some lr json(4) by auto
      have b: "j + length r < length buf"
        using drop_bound [OF j(2)] .
      have d: "drop j (written buf into (34 # l)) = r @ NUL # tail"
        using drop_written [of into "34 # l" j buf] j(1,2) b by simp
      have len: "length (written buf into (34 # l)) = length buf"
        using written_length [of into "34 # l" buf] j(1) b by simp
      have i: "into + Suc (length l) \<le> j"
        using j(1) by simp
      show ?thesis
        using 2(4) [OF string(1) n string(2) Some [unfolded lr] refl d r i] j(3) len string(1,2) n Some lr
          written_written [of into "34 # l" _ buf]
        by (auto simp: add.assoc)
    qed
  next
    case other
    have n: "\<not> (c = 47 \<and> take 1 s = [47])" "\<not> (c = 47 \<and> take 1 s = [42])"
      using other by blast+
    have d: "drop (json + 1) (written buf into [c]) = s @ NUL # tail"
      using drop_written [of into "[c]" "json + 1" buf] json(1,2) 2(8) by simp
    have len: "length (written buf into [c]) = length buf"
      using written_length [of into "[c]" buf] json(1) 2(8) by simp
    have i: "into + 1 \<le> json + 1"
      using 2(8) by simp
    have "minify_loop buf into json = minify_loop (written buf into [c]) (into + 1) (json + 1)"
      by (rule minify_other [of json buf c s tail]) (use 2(6,8) json other in auto)
    then show ?thesis
      using 2(5) [OF other(1) n other(2) d json(4) i] len other(1,2) n written_written [of into "[c]" _ buf]
      by (auto simp: minified.simps(2))
  qed
qed


section \<open>Printed items\<close>

text \<open>Texts that are kept as they are, wherever they stand.\<close>

definition keeps :: "bytes \<Rightarrow> bytes \<Rightarrow> bool" where
  "keeps t u \<longleftrightarrow> (\<forall>s. minified (t @ s) = map_option ((@) u) (minified s))"

lemma prepend: "(@) [] = (\<lambda>x. x)" "(@) (c # t) = (\<lambda>x. c # t @ x)" "(@) (t @ u) = (\<lambda>x. t @ u @ x)"
  by auto

lemma apfst_prepend: "apfst f (apfst g p) = apfst (f \<circ> g) p"
  by (cases p) simp

lemma keeps_nil [simp]: "keeps [] []"
  by (simp add: keeps_def prepend option.map_ident)

lemma keeps_append: "keeps t u \<Longrightarrow> keeps t' u' \<Longrightarrow> keeps (t @ t') (u @ u')"
  by (simp add: keeps_def prepend option.map_comp comp_def)

lemma keeps_white: "set t \<subseteq> {c. white c} \<Longrightarrow> keeps t []"
  by (induction t) (auto simp: keeps_def prepend option.map_ident)

lemma keeps_plain: "set t \<subseteq> {c. \<not> white c \<and> c \<noteq> 47 \<and> c \<noteq> 34} \<Longrightarrow> keeps t t"
  by (induction t) (auto simp: keeps_def prepend option.map_ident option.map_comp comp_def)

lemma keeps_minified: "keeps t u \<Longrightarrow> minified t = Some u"
  by (auto simp: keeps_def dest!: spec [of _ "[]"])

lemma literal_escape: "literal_end (escape c @ s) = map_option (apfst ((@) (escape c))) (literal_end s)"
proof (cases "31 < c \<and> c \<noteq> 34 \<and> c \<noteq> 92")
  case True
  then show ?thesis
    by (simp add: escape_def prepend)
next
  case False
  show ?thesis
  proof (cases "one_char_escape c")
    case None
    have h: "hex_lower n \<noteq> 34" "hex_lower n \<noteq> 92" if "n < 16" for n
    proof -
      have "hex_lower n \<in> hex_lower ` set [0..<16]"
        using \<open>n < 16\<close> by simp
      moreover have "34 \<notin> hex_lower ` set [0..<16]" "92 \<notin> hex_lower ` set [0..<16]"
        unfolding hex_lower_def by code_simp+
      ultimately show "hex_lower n \<noteq> 34" "hex_lower n \<noteq> 92"
        by fastforce+
    qed
    have "unat c div 16 < 16" "unat c mod 16 < 16"
      using byte_less [of c] by auto
    then show ?thesis
      using False None h by (simp add: escape_def u04x_def prepend option.map_comp comp_def apfst_prepend)
  next
    case (Some e)
    then show ?thesis
      using False by (simp add: escape_def prepend option.map_comp comp_def apfst_prepend)
  qed
qed

lemma literal_string:
  "literal_end (concat (map escape s) @ 34 # r) = Some (concat (map escape s) @ [34], r)"
  by (induction s) (simp_all add: literal_escape)

lemma keeps_string: "keeps (string_text s) (string_text s)"
  by (simp add: keeps_def string_text_def literal_string white_def prepend option.map_comp comp_def)

text \<open>Raw items print what they hold; number texts have nothing that could be taken for the rest.\<close>

fun raw_free :: "'d cJSON \<Rightarrow> bool" where
  "raw_free (Item ty vs vi vd str ch) \<longleftrightarrow> ty AND 0xFF \<noteq> cJSON_Raw \<and> (\<forall>c \<in> set ch. raw_free c)"

definition plain_numbers :: "('d, 'e) libc_double_scheme \<Rightarrow> bool" where
  "plain_numbers dbl \<longleftrightarrow> (\<forall>d. set (number_text dbl d) \<subseteq> {c. \<not> white c \<and> c \<noteq> 47 \<and> c \<noteq> 34})"

lemma keeps_literal: "keeps (s2b ''null'') (s2b ''null'')" "keeps (s2b ''false'') (s2b ''false'')"
    "keeps (s2b ''true'') (s2b ''true'')"
  by (auto intro!: keeps_plain simp: white_def)

lemma keeps_text:
  assumes "plain_numbers dbl"
  shows "json_text dbl fmt depth item = Some t \<Longrightarrow> raw_free item \<Longrightarrow> fmt \<Longrightarrow>
      \<exists>u. (\<forall>n. json_text dbl False n item = Some u) \<and> keeps t u"
    and "elements_text dbl fmt depth ch = Some t \<Longrightarrow> \<forall>c \<in> set ch. raw_free c \<Longrightarrow> fmt \<Longrightarrow>
      \<exists>u. (\<forall>n. elements_text dbl False n ch = Some u) \<and> keeps t u"
    and "members_text dbl fmt depth ch = Some t \<Longrightarrow> \<forall>c \<in> set ch. raw_free c \<Longrightarrow> fmt \<Longrightarrow>
      \<exists>u. (\<forall>n. members_text dbl False n ch = Some u) \<and> keeps t u"
  using assms
proof (induction dbl fmt depth item and dbl fmt depth ch and dbl fmt depth ch arbitrary: t and t and t
    rule: json_text_elements_text_members_text.induct)
  case (1 dbl fmt depth ty vs vi vd str ch)
  note IH = 1(1,2) and now = 1(3-6)
  consider (array) "ty AND 0xFF = cJSON_Array" | (object) "ty AND 0xFF = cJSON_Object"
    | (atom) "ty AND 0xFF \<notin> {cJSON_Array, cJSON_Object}"
    by blast
  then show ?case
  proof cases
    case array
    then obtain e where e: "elements_text dbl fmt (depth + 1) ch = Some e" "t = [91] @ e @ [93]"
      using now(1) by (auto simp: json_text.simps Let_def join_eq_Some cjson_types)
    obtain u where u: "\<And>n. elements_text dbl False n ch = Some u" "keeps e u"
      using IH(1) [OF refl _ _ _ _ _ _ array e(1)] array now(2-4) by (auto simp: cjson_types)
    have "keeps t ([91] @ u @ [93])"
      unfolding e(2) by (intro keeps_append keeps_plain u(2)) (simp_all add: white_def)
    moreover have "\<And>n. json_text dbl False n (Item ty vs vi vd str ch) = Some ([91] @ u @ [93])"
      using array u(1) by (simp add: json_text.simps Let_def cjson_types)
    ultimately show ?thesis
      by blast
  next
    case object
    then obtain e where e: "members_text dbl fmt (depth + 1) ch = Some e"
        "t = ([123] @ [10]) @ e @ replicate depth 9 @ [125]"
      using now(1,3) by (auto simp: json_text.simps Let_def join_eq_Some cjson_types)
    obtain u where u: "\<And>n. members_text dbl False n ch = Some u" "keeps e u"
      using IH(2) [OF refl _ _ _ _ _ _ _ object e(1)] object now(2-4) by (auto simp: cjson_types)
    have "keeps t (([123] @ []) @ u @ [] @ [125])"
      unfolding e(2) by (intro keeps_append keeps_plain keeps_white u(2)) (auto simp: white_def)
    moreover have "\<And>n. json_text dbl False n (Item ty vs vi vd str ch) = Some ([123] @ u @ [125])"
      using object u(1) by (simp add: json_text.simps Let_def cjson_types)
    ultimately show ?thesis
      by (intro exI conjI allI; simp)
  next
    case atom
    have "keeps (number_text dbl vd) (number_text dbl vd)"
      using now(4) by (intro keeps_plain) (simp add: plain_numbers_def)
    then have "keeps t t" "\<And>n. json_text dbl False n (Item ty vs vi vd str ch) = Some t"
      using atom now(1,2) keeps_literal keeps_string [of vs]
      by (auto simp: json_text.simps Let_def split: if_splits)
    then show ?thesis
      by blast
  qed
next
  case (3 dbl fmt depth c cs)
  obtain e es where e: "json_text dbl fmt depth c = Some e" "elements_text dbl fmt depth cs = Some es"
      "t = e @ (if cs = [] then [] else [44, 32]) @ es"
    using 3(3,5) by (auto simp: join_eq_Some)
  obtain u where u: "\<And>n. json_text dbl False n c = Some u" "keeps e u"
    using 3(1) [OF e(1)] 3(4,5,6) by auto
  obtain us where us: "\<And>n. elements_text dbl False n cs = Some us" "keeps es us"
    using 3(2) [OF e(2)] 3(4,5,6) by auto
  have "keeps [44, 32] [44]"
    by (simp add: keeps_def white_def prepend)
  then have "keeps t (u @ (if cs = [] then [] else [44]) @ us)"
    unfolding e(3) by (intro keeps_append u(2) us(2)) auto
  then show ?case
    using u(1) us(1) by (intro exI conjI allI) auto
next
  case (5 dbl fmt depth c cs)
  obtain e es where e: "json_text dbl fmt depth c = Some e" "members_text dbl fmt depth cs = Some es"
      "t = replicate depth 9 @ string_text (i_string c) @ ([58] @ [9]) @ e @ ((if cs \<noteq> [] then [44] else []) @ [10]) @ es"
    using 5(3,5) by (auto simp: join_eq_Some)
  obtain u where u: "\<And>n. json_text dbl False n c = Some u" "keeps e u"
    using 5(1) [OF e(1)] 5(4,5,6) by auto
  obtain us where us: "\<And>n. members_text dbl False n cs = Some us" "keeps es us"
    using 5(2) [OF e(2)] 5(4,5,6) by auto
  have "keeps t ([] @ string_text (i_string c) @ ([58] @ []) @ u @ ((if cs \<noteq> [] then [44] else []) @ []) @ us)"
    unfolding e(3) by (intro keeps_append u(2) us(2) keeps_string)
      (auto intro!: keeps_plain keeps_white simp: white_def)
  then show ?case
    using u(1) us(1) by (intro exI conjI allI) auto
qed auto


section \<open>Properties\<close>

text \<open>
  C31: on every terminated C string \<open>cJSON_Minify\<close> leaves, in the front of the array, the text without the
  white space and the comments that stand outside its strings, and touches nothing else; where the
  text ends inside a block comment or a string it reads and writes past an array that ends with the
  text.
\<close>

theorem minify_exact:
  assumes "NUL \<notin> set s" "buf = s @ NUL # tail"
  shows "case minified s of
     Some t \<Rightarrow> cJSON_Minify (Some buf) = Some (Some (t @ NUL # drop (length t + 1) buf))
   | None \<Rightarrow> tail = [] \<longrightarrow> cJSON_Minify (Some buf) = None"
proof -
  have "(\<forall>t. minified s = Some t \<longrightarrow> minify_loop buf 0 0 = Some (written buf 0 t, length t) \<and> length t < length buf) \<and>
      (minified s = None \<longrightarrow> tail = [] \<longrightarrow> minify_loop buf 0 0 = None)"
    using minify_loop_text [of 0 buf s tail 0] assms by simp
  then show ?thesis
    by (auto simp: cJSON_Minify_def written_def put_byte_def upd_conv_take_nth_drop split: option.splits)
qed

theorem minify_exact_witness:
  "cJSON_Minify (Some [32, 34, 32, 92, 34, 34, 47, 47, 65, 10, 44, 0, 7]) = Some (Some [34, 32, 92, 34, 34, 44, 0, 47, 65, 10, 44, 0, 7])
   \<and> cJSON_Minify (Some [47, 42, 65, 0]) = None"
  using minify_exact [of "[32, 34, 32, 92, 34, 34, 47, 47, 65, 10, 44]" "[32, 34, 32, 92, 34, 34, 47, 47, 65, 10, 44, 0, 7]" "[7]"]
    minify_exact [of "[47, 42, 65]" "[47, 42, 65, 0]" "[]"]
  by (simp add: white_def)

text \<open>
  C30: \<open>cJSON_Minify\<close> turns the text of \<open>cJSON_Print\<close> into the text of \<open>cJSON_PrintUnformatted\<close>, for
  every item without raw members.
\<close>

theorem minify_print:
  assumes "libc_g dbl" "plain_numbers dbl" "hooks_ok hooks" "c_strings item" "raw_free item"
    and "json_text dbl True 0 item \<noteq> None"
    and "cJSON_Print dbl hooks (Some item) = Some (Some b)"
    and "cJSON_PrintUnformatted dbl hooks (Some item) = Some (Some b')"
  shows "\<exists>b1. cJSON_Minify (Some b) = Some (Some b1) \<and>
    (\<exists>t. NUL \<notin> set t \<and> take (length t + 1) b1 = t @ [NUL] \<and> take (length t + 1) b' = t @ [NUL])"
proof -
  obtain t where t: "json_text dbl True 0 item = Some t"
    using assms(6) by blast
  obtain u where u: "json_text dbl False 0 item = Some u" "keeps t u"
    using keeps_text(1) [OF assms(2) t assms(5)] by blast
  have nul: "NUL \<notin> set t" "NUL \<notin> set u"
    using text_nonzero(1) [OF assms(1) _ assms(4)] t u(1) by blast+
  have "take (length t + 1) b = t @ [NUL]"
    using print_spec [OF assms(1,3,4) t] assms(7) by (auto simp: cJSON_Print_def)
  then have "b = t @ NUL # drop (length t + 1) b"
    by (metis append_Cons append_Nil append_assoc append_take_drop_id)
  from minify_exact [OF nul(1) this] keeps_minified [OF u(2)]
  have "cJSON_Minify (Some b) = Some (Some (u @ NUL # drop (length u + 1) b))"
    by simp
  moreover have "take (length u + 1) b' = u @ [NUL]"
    using print_spec [OF assms(1,3,4) u(1)] assms(8) by (auto simp: cJSON_PrintUnformatted_def)
  ultimately show ?thesis
    using nul(2) by (intro exI [of _ "u @ NUL # drop (length u + 1) b"] conjI exI [of _ u]) simp_all
qed


lemma int_plain_numbers: "plain_numbers int_double"
proof -
  have "\<not> white c \<and> c \<noteq> 47 \<and> c \<noteq> 34" if "c \<in> set (dec_int d)" for c d
    using dec_int_chars [OF \<open>c \<in> set (dec_int d)\<close>] by (auto simp: white_def is_digit_def)
  then show ?thesis
    by (auto simp: plain_numbers_def int_number_text white_def)
qed

theorem minify_print_witness:
  "\<exists>b b1. cJSON_Print int_double plenty (Some sample_item) = Some (Some b) \<and> cJSON_Minify (Some b) = Some (Some b1)"
proof -
  have ok: "c_strings sample_item" "raw_free sample_item"
    by (simp_all add: sample_item_def cjson_types)
  obtain t where t: "json_text int_double True 0 sample_item = Some t" "length t + 4 \<le> INT_LIMIT"
    by (simp add: sample_item_def json_text.simps Let_def cjson_types int_number_text dec_int_def
      dec_nat.simps string_text_def escape_def one_char_escape_def INT_LIMIT_def)
  obtain u where u: "json_text int_double False 0 sample_item = Some u" "length u + 4 \<le> INT_LIMIT"
    using sample_text by (auto simp: INT_LIMIT_def)
  obtain b where b: "cJSON_Print int_double plenty (Some sample_item) = Some (Some b)"
    using print_spec [OF int_libc_g plenty_ok(1) ok(1) t(1)] t(2) plenty_ok(2) by (auto simp: cJSON_Print_def)
  obtain b' where b': "cJSON_PrintUnformatted int_double plenty (Some sample_item) = Some (Some b')"
    using print_spec [OF int_libc_g plenty_ok(1) ok(1) u(1)] u(2) plenty_ok(2)
    by (auto simp: cJSON_PrintUnformatted_def)
  have "json_text int_double True 0 sample_item \<noteq> None"
    using t(1) by simp
  from minify_print [OF int_libc_g int_plain_numbers plenty_ok(1) ok this b b'] b show ?thesis
    by blast
qed

end
