(* ===== verification/Cjson_Duplicate.thy ===== *)
theory Cjson_Duplicate
  imports Cjson_Double
begin

text \<open>
  Deletion and duplication of items (\<open>cJSON_Delete\<close> and \<open>cJSON_Duplicate\<close> of
  \<^verbatim>\<open>src/src/cJSON.cc\<close>) with the blocks of memory they return and take, under allocations that
  succeed or fail in any pattern: a duplicate is a whole copy or nothing, and nothing is leaked.
\<close>

section \<open>Memory\<close>

text \<open>
  How many allocations were made, which tells them apart, and how many blocks are in use.
\<close>

record memory =
  m_calls :: nat
  m_live :: int

definition hook_allocate :: "allocs \<Rightarrow> memory \<Rightarrow> bool \<times> memory" where
  "hook_allocate alloc m = (alloc (m_calls m),
     m\<lparr>m_calls := m_calls m + 1, m_live := m_live m + (if alloc (m_calls m) then 1 else 0)\<rparr>)"

definition hook_deallocate :: "memory \<Rightarrow> memory" where
  "hook_deallocate m = m\<lparr>m_live := m_live m - 1\<rparr>"

definition is_reference :: "u32 \<Rightarrow> bool" where
  "is_reference ty \<longleftrightarrow> ty AND cJSON_IsReference \<noteq> 0"

definition has_const_name :: "u32 \<Rightarrow> bool" where
  "has_const_name ty \<longleftrightarrow> ty AND cJSON_StringIsConst \<noteq> 0"

section \<open>Deletion\<close>

text \<open>An item together with those after it in its list.\<close>

fun cJSON_Delete :: "'d cJSON list \<Rightarrow> memory \<Rightarrow> memory" where
  "cJSON_Delete [] m = m"
| "cJSON_Delete (Item ty vs vi vd str ch # next) m =
     (let m = (if \<not> is_reference ty \<and> ch \<noteq> [] then cJSON_Delete ch m else m);
          m = (if \<not> is_reference ty \<and> vs \<noteq> None then hook_deallocate m else m);
          m = (if \<not> has_const_name ty \<and> str \<noteq> None then hook_deallocate m else m);
          m = hook_deallocate m
      in cJSON_Delete next m)"

section \<open>Duplication\<close>

text \<open>A copy of a string member: whether that succeeded, and the pointer.\<close>

definition copy_string :: "allocs \<Rightarrow> bytes option \<Rightarrow> memory \<Rightarrow> bool \<times> bytes option \<times> memory" where
  "copy_string alloc s m = (if s = None then (True, None, m)
     else let (ok, m) = hook_allocate alloc m in (ok, cJSON_strdup ok s, m))"

definition copy_name :: "allocs \<Rightarrow> u32 \<Rightarrow> bytes option \<Rightarrow> memory \<Rightarrow> bool \<times> bytes option \<times> memory" where
  "copy_name alloc ty str m = (if str \<noteq> None \<and> has_const_name ty then (True, str, m) else copy_string alloc str m)"

text \<open>The loop over the children gives those that were copied, and whether these are all.\<close>

fun cJSON_Duplicate ::
  "('d, 'e) libc_double_scheme \<Rightarrow> allocs \<Rightarrow> 'd cJSON \<Rightarrow> bool \<Rightarrow> memory \<Rightarrow> 'd cJSON option \<times> memory"
  and copy_children ::
  "('d, 'e) libc_double_scheme \<Rightarrow> allocs \<Rightarrow> 'd cJSON list \<Rightarrow> memory \<Rightarrow> bool \<times> 'd cJSON list \<times> memory"
where
  "cJSON_Duplicate dbl alloc (Item ty vs vi vd str ch) recurse m =
     (let (ok, m) = hook_allocate alloc m in
      case cJSON_New_Item dbl ok of
        None \<Rightarrow> (None, m)
      | Some _ \<Rightarrow>
          let ty' = ty AND NOT cJSON_IsReference;
              (ok, vs', m) = copy_string alloc vs m in
          if \<not> ok then (None, cJSON_Delete [Item ty' None vi vd None []] m)
          else let (ok, str', m) = copy_name alloc ty str m in
            if \<not> ok then (None, cJSON_Delete [Item ty' vs' vi vd None []] m)
            else if \<not> recurse then (Some (Item ty' vs' vi vd str' []), m)
            else let (ok, ch', m) = copy_children dbl alloc ch m in
              if \<not> ok then (None, cJSON_Delete [Item ty' vs' vi vd str' ch'] m)
              else (Some (Item ty' vs' vi vd str' ch'), m))"
| "copy_children dbl alloc [] m = (True, [], m)"
| "copy_children dbl alloc (child # next) m =
     (let (newchild, m) = cJSON_Duplicate dbl alloc child True m in
      case newchild of
        None \<Rightarrow> (False, [], m)
      | Some c \<Rightarrow> let (ok, cs, m) = copy_children dbl alloc next m in (ok, c # cs, m))"

text \<open>The whole function takes the null pointer as well.\<close>

definition duplicate ::
  "('d, 'e) libc_double_scheme \<Rightarrow> allocs \<Rightarrow> 'd cJSON option \<Rightarrow> bool \<Rightarrow> memory \<Rightarrow> 'd cJSON option \<times> memory" where
  "duplicate dbl alloc item recurse m = (case item of
     None \<Rightarrow> (None, m)
   | Some it \<Rightarrow> cJSON_Duplicate dbl alloc it recurse m)"

section \<open>What a duplicate is\<close>

fun copied :: "bool \<Rightarrow> 'd cJSON \<Rightarrow> 'd cJSON" where
  "copied recurse (Item ty vs vi vd str ch) =
     Item (ty AND NOT cJSON_IsReference) vs vi vd str (if recurse then map (copied True) ch else [])"

text \<open>The blocks an item owns, its children's among them.\<close>

fun owned :: "'d cJSON \<Rightarrow> int" where
  "owned (Item ty vs vi vd str ch) =
     1 + (if \<not> is_reference ty \<and> vs \<noteq> None then 1 else 0) + (if \<not> has_const_name ty \<and> str \<noteq> None then 1 else 0)
       + (if is_reference ty then 0 else sum_list (map owned ch))"

lemma hook_simps [simp]:
  "m_live (hook_deallocate m) = m_live m - 1" "m_calls (hook_deallocate m) = m_calls m"
  by (simp_all add: hook_deallocate_def)

lemma delete_live: "m_live (cJSON_Delete items m) = m_live m - sum_list (map owned items)"
  by (induction items m rule: cJSON_Delete.induct) (auto simp: Let_def)

lemma delete_calls [simp]: "m_calls (cJSON_Delete items m) = m_calls m"
  by (induction items m rule: cJSON_Delete.induct) (auto simp: Let_def)

lemma no_reference [simp]: "\<not> is_reference (ty AND NOT cJSON_IsReference)"
  by (simp add: is_reference_def and.assoc)

lemma same_const_name [simp]: "has_const_name (ty AND NOT cJSON_IsReference) = has_const_name ty"
  by (simp add: has_const_name_def and.assoc cjson_types)

lemma copy_string_live:
  "copy_string alloc s m = (ok, s', m') \<Longrightarrow>
     m_live m' = m_live m + (if ok \<and> s \<noteq> None then 1 else 0) \<and> s' = (if ok then s else None) \<and>
     ((\<forall>k. alloc k) \<longrightarrow> ok)"
  by (auto simp: copy_string_def hook_allocate_def cJSON_strdup_def Let_def split: if_splits)

lemma copy_name_live:
  "copy_name alloc ty str m = (ok, s', m') \<Longrightarrow>
     m_live m' = m_live m + (if ok \<and> \<not> has_const_name ty \<and> str \<noteq> None then 1 else 0) \<and>
     s' = (if ok then str else None) \<and> ((\<forall>k. alloc k) \<longrightarrow> ok)"
  using copy_string_live [of alloc str m ok s' m'] by (auto simp: copy_name_def copy_string_def split: if_splits)

lemma duplicate_copies:
  "cJSON_Duplicate dbl alloc item recurse m = (r, m') \<Longrightarrow>
     (case r of None \<Rightarrow> m_live m' = m_live m \<and> \<not> (\<forall>k. alloc k)
      | Some it \<Rightarrow> it = copied recurse item \<and> m_live m' = m_live m + owned it)"
  "copy_children dbl alloc ch m = (ok, ch', m') \<Longrightarrow>
     m_live m' = m_live m + sum_list (map owned ch') \<and> (ok \<longrightarrow> ch' = map (copied True) ch) \<and>
     ((\<forall>k. alloc k) \<longrightarrow> ok)"
proof (induction dbl alloc item recurse m and dbl alloc ch m arbitrary: r m' and ok ch' m'
    rule: cJSON_Duplicate_copy_children.induct)
  case (1 dbl alloc ty vs vi vd str ch recurse m)
  let ?ty = "ty AND NOT cJSON_IsReference"
  obtain m0 where h: "hook_allocate alloc m = (alloc (m_calls m), m0)"
    "m_live m0 = m_live m + (if alloc (m_calls m) then 1 else 0)"
    by (simp add: hook_allocate_def)
  obtain ok1 vs1 m1 where c1: "copy_string alloc vs m0 = (ok1, vs1, m1)"
    by (metis prod_cases3)
  obtain ok2 str2 m2 where c2: "copy_name alloc ty str m1 = (ok2, str2, m2)"
    by (metis prod_cases3)
  obtain ok3 ch3 m3 where c3: "copy_children dbl alloc ch m2 = (ok3, ch3, m3)"
    by (metis prod_cases3)
  show ?case
  proof (cases "alloc (m_calls m)")
    case False
    then show ?thesis
      using 1(2) h by (auto simp: cJSON_New_Item_def)
  next
    case True
    then have new: "cJSON_New_Item dbl True = Some (Item 0 None 0 (d_zero dbl) None [])" "hook_allocate alloc m = (True, m0)"
      using h(1) by (simp_all add: cJSON_New_Item_def)
    note s1 = copy_string_live [OF c1] and s2 = copy_name_live [OF c2]
    have r: "(r, m') =
        (if \<not> ok1 then (None, cJSON_Delete [Item ?ty None vi vd None []] m1)
         else if \<not> ok2 then (None, cJSON_Delete [Item ?ty vs1 vi vd None []] m2)
         else if \<not> recurse then (Some (Item ?ty vs1 vi vd str2 []), m2)
         else if \<not> ok3 then (None, cJSON_Delete [Item ?ty vs1 vi vd str2 ch3] m3)
         else (Some (Item ?ty vs1 vi vd str2 ch3), m3))"
      using 1(2) [symmetric] by (simp only: cJSON_Duplicate.simps Let_def new c1 c2 c3 prod.case option.case)
    have s3: "ok1 \<and> ok2 \<and> recurse \<Longrightarrow> m_live m3 = m_live m2 + sum_list (map owned ch3) \<and>
        (ok3 \<longrightarrow> ch3 = map (copied True) ch) \<and> ((\<forall>k. alloc k) \<longrightarrow> ok3)"
      using 1(1) new c1 c2 c3 by simp blast
    show ?thesis
      using r s1 s2 s3 h(2) True by (auto simp: delete_live split: if_splits)
  qed
next
  case (3 dbl alloc child "next" m)
  obtain c1 m1 where c1: "cJSON_Duplicate dbl alloc child True m = (c1, m1)"
    by fastforce
  obtain ok2 cs m2 where c2: "copy_children dbl alloc next m1 = (ok2, cs, m2)"
    by (metis prod_cases3)
  show ?case
    using 3(1) [OF c1] 3(2) [OF c1 [symmetric] refl] 3(3) c1 c2 by (auto split: option.splits)
qed auto


lemma kind_copied [simp]: "(ty AND NOT cJSON_IsReference) AND 0xFF = ty AND 0xFF"
  by (simp add: and.assoc cjson_types)

lemma copied_name [simp]: "i_string (copied recurse item) = i_string item"
  by (cases item) simp

lemma texts_cong:
  assumes "\<And>c d. c \<in> set ch \<Longrightarrow> json_text dbl fmt d (f c) = json_text dbl fmt d c"
    "\<And>c. i_string (f c) = i_string c"
  shows "elements_text dbl fmt depth (map f ch) = elements_text dbl fmt depth ch"
    "members_text dbl fmt depth (map f ch) = members_text dbl fmt depth ch"
  using assms by (induction ch) simp_all

lemma copied_text: "json_text dbl fmt depth (copied True item) = json_text dbl fmt depth item"
proof (induction item arbitrary: depth)
  case (Item ty vs vi vd str ch)
  then show ?case
    using texts_cong [of ch dbl fmt "copied True"] by (simp add: json_text.simps Let_def)
qed

section \<open>Properties\<close>

text \<open>
  C28: whatever allocations fail, \<open>cJSON_Duplicate\<close> leaks nothing: it either returns nothing and has
  given back every block it took, or it returns the whole copy, deleting which gives them back; it
  fails only when an allocation fails.  A copy with its children prints as the original does.
\<close>

theorem duplicate_all_or_nothing:
  "case duplicate dbl alloc (Some item) recurse m of
     (None, m') \<Rightarrow> m_live m' = m_live m \<and> \<not> (\<forall>k. alloc k)
   | (Some it, m') \<Rightarrow> it = copied recurse item \<and> m_live (cJSON_Delete [it] m') = m_live m \<and>
       json_text dbl fmt depth it = (if recurse then json_text dbl fmt depth item else json_text dbl fmt depth it)"
  using duplicate_copies(1) [of dbl alloc item recurse m]
  by (cases "cJSON_Duplicate dbl alloc item recurse m")
    (auto simp: duplicate_def delete_live copied_text split: option.splits)

end
