(* ===== verification/Cjson_Compare.thy ===== *)
theory Cjson_Compare
  imports Cjson_Duplicate
begin

text \<open>
  Comparison of items (\<open>cJSON_Compare\<close> of \<^verbatim>\<open>src/src/cJSON.cc\<close>): it decides whether two items
  mean the same JSON value, arrays as sequences and objects as maps from names to values, whatever
  the order of their members.
\<close>

section \<open>The code\<close>

definition comparable_kinds :: "u32 set" where
  "comparable_kinds = {cJSON_False, cJSON_True, cJSON_NULL, cJSON_Number, cJSON_String, cJSON_Raw, cJSON_Array, cJSON_Object}"

lemma size_child: "c \<in> set (i_child a) \<Longrightarrow> size c < size a"
  by (cases a) (auto simp: less_Suc_eq_le intro: size_list_estimation')

lemma size_children: "size_list size (i_child a) < size a"
  by (cases a) simp

lemma find_item_in: "find_item name cs ch = Some (Some c) \<Longrightarrow> c \<in> set ch"
  by (induction name cs ch rule: find_item.induct) (auto split: if_splits option.splits)

lemma get_object_item_in: "get_object_item (Some ob) name cs = Some (Some c) \<Longrightarrow> c \<in> set (i_child ob)"
  by (auto simp: get_object_item_def find_item_in split: option.splits)

text \<open>
  Two items at different addresses.  The loops over the children of one object look each up in the
  other; \<open>strcmp\<close> on a member without a name is the outer \<open>None\<close>.
\<close>

function compare_items :: "('d, 'e) libc_double_scheme \<Rightarrow> bool \<Rightarrow> 'd cJSON \<Rightarrow> 'd cJSON \<Rightarrow> bool option"
  and compare_elements :: "('d, 'e) libc_double_scheme \<Rightarrow> bool \<Rightarrow> 'd cJSON list \<Rightarrow> 'd cJSON list \<Rightarrow> bool option"
  and compare_members :: "('d, 'e) libc_double_scheme \<Rightarrow> bool \<Rightarrow> 'd cJSON list \<Rightarrow> 'd cJSON \<Rightarrow> bool option"
where
  "compare_items dbl case_sensitive a b =
     (if kind a \<noteq> kind b \<or> cJSON_IsInvalid (Some a) then Some False
      else if kind a \<notin> comparable_kinds then Some False
      else if kind a \<in> {cJSON_False, cJSON_True, cJSON_NULL} then Some True
      else if kind a = cJSON_Number then Some (d_eq dbl (i_valuedouble a) (i_valuedouble b))
      else if kind a \<in> {cJSON_String, cJSON_Raw} then
        Some (case (i_valuestring a, i_valuestring b) of (Some s, Some t) \<Rightarrow> s = t | _ \<Rightarrow> False)
      else if kind a = cJSON_Array then compare_elements dbl case_sensitive (i_child a) (i_child b)
      else do {
        same \<leftarrow> compare_members dbl case_sensitive (i_child a) b;
        if \<not> same then Some False else compare_members dbl case_sensitive (i_child b) a })"
| "compare_elements dbl case_sensitive [] bs = Some (bs = [])"
| "compare_elements dbl case_sensitive (a # as) [] = Some False"
| "compare_elements dbl case_sensitive (a # as) (b # bs) = do {
     same \<leftarrow> compare_items dbl case_sensitive a b;
     if \<not> same then Some False else compare_elements dbl case_sensitive as bs }"
| "compare_members dbl case_sensitive [] b = Some True"
| "compare_members dbl case_sensitive (x # xs) b =
     (case get_object_item (Some b) (i_string x) case_sensitive of
        None \<Rightarrow> None
      | Some None \<Rightarrow> Some False
      | Some (Some y) \<Rightarrow> do {
          same \<leftarrow> compare_items dbl case_sensitive x y;
          if \<not> same then Some False else compare_members dbl case_sensitive xs b })"
  by pat_completeness auto
termination
  by (relation "measure (\<lambda>p. case p of
      Inl (_, _, a, b) \<Rightarrow> size a + size b
    | Inr (Inl (_, _, as, bs)) \<Rightarrow> size_list size as + size_list size bs
    | Inr (Inr (_, _, xs, b)) \<Rightarrow> size_list size xs + size b)")
    (auto dest!: get_object_item_in size_child simp: size_children add_less_mono intro: add_less_mono)


declare compare_items.simps [simp del]

text \<open>\<open>same\<close> says whether the two pointers are one.\<close>

definition cJSON_Compare ::
  "('d, 'e) libc_double_scheme \<Rightarrow> bool \<Rightarrow> 'd cJSON option \<Rightarrow> 'd cJSON option \<Rightarrow> bool \<Rightarrow> bool option" where
  "cJSON_Compare dbl same a b case_sensitive = (case (a, b) of
     (Some x, Some y) \<Rightarrow>
       if kind x \<noteq> kind y \<or> cJSON_IsInvalid a then Some False
       else if kind x \<notin> comparable_kinds then Some False
       else if same then Some True
       else compare_items dbl case_sensitive x y
   | _ \<Rightarrow> Some False)"

section \<open>Values\<close>

text \<open>
  What an item means.  \<open>key\<close> is the name under which a member is found, \<open>num\<close> tells numbers apart.
\<close>

datatype 'n jvalue = JNull | JBool bool | JNumber 'n | JString "bytes option" | JRaw "bytes option"
  | JArray "'n jvalue list" | JObject "bytes \<Rightarrow> 'n jvalue option"

definition key :: "bool \<Rightarrow> 'd cJSON \<Rightarrow> bytes" where
  "key case_sensitive c = (let s = the (i_string c) in if case_sensitive then s else map lower s)"

fun meaning :: "bool \<Rightarrow> ('d \<Rightarrow> 'n) \<Rightarrow> 'd cJSON \<Rightarrow> 'n jvalue" where
  "meaning cs num (Item ty vs vi vd str ch) =
     (let k = ty AND 0xFF in
      if k = cJSON_NULL then JNull
      else if k = cJSON_False then JBool False
      else if k = cJSON_True then JBool True
      else if k = cJSON_Number then JNumber (num vd)
      else if k = cJSON_String then JString vs
      else if k = cJSON_Raw then JRaw vs
      else if k = cJSON_Array then JArray (map (meaning cs num) ch)
      else JObject (map_of (map (\<lambda>c. (key cs c, meaning cs num c)) ch)))"

declare meaning.simps [simp del]

text \<open>
  The items that have a value of their own: of a known kind, numbers equal to themselves, strings
  present, and members with names by which they can be told apart.
\<close>

definition named :: "'d cJSON \<Rightarrow> bool" where
  "named c \<longleftrightarrow> (case i_string c of None \<Rightarrow> False | Some s \<Rightarrow> NUL \<notin> set s)"

fun valued :: "('d, 'e) libc_double_scheme \<Rightarrow> bool \<Rightarrow> 'd cJSON \<Rightarrow> bool" where
  "valued dbl cs (Item ty vs vi vd str ch) \<longleftrightarrow>
     (let k = ty AND 0xFF in
      k \<in> comparable_kinds \<and>
      (k = cJSON_Number \<longrightarrow> d_eq dbl vd vd) \<and>
      (k = cJSON_String \<or> k = cJSON_Raw \<longrightarrow> vs \<noteq> None) \<and>
      (k = cJSON_Object \<longrightarrow> (\<forall>c \<in> set ch. named c) \<and> distinct (map (key cs) ch)) \<and>
      (k = cJSON_Array \<or> k = cJSON_Object \<longrightarrow> (\<forall>c \<in> set ch. valued dbl cs c)))"

declare valued.simps [simp del]

text \<open>Equality of the numbers that are equal to themselves is an equivalence.\<close>

definition tells_apart :: "('d, 'e) libc_double_scheme \<Rightarrow> ('d \<Rightarrow> 'n) \<Rightarrow> bool" where
  "tells_apart dbl num \<longleftrightarrow> (\<forall>x y. d_eq dbl x x \<longrightarrow> d_eq dbl y y \<longrightarrow> (d_eq dbl x y \<longleftrightarrow> num x = num y))"

lemma lower_nonzero: "c \<noteq> NUL \<Longrightarrow> lower c \<noteq> 0"
  by (auto simp: lower_def word_le_nat_alt unat_word_ariths dest!: arg_cong [of _ _ unat])

lemma insensitive_cmp_zero:
  "NUL \<notin> set s \<Longrightarrow> NUL \<notin> set t \<Longrightarrow> insensitive_cmp s t = 0 \<longleftrightarrow> map lower s = map lower t"
  by (induction s t rule: insensitive_cmp.induct) (auto simp: lower_nonzero uint_0_iff word_uint_eq_iff [symmetric])

lemma find_item_key:
  "(\<forall>c \<in> set ch. named c) \<Longrightarrow> named x \<Longrightarrow>
     find_item (the (i_string x)) cs ch = Some (find (\<lambda>c. key cs c = key cs x) ch)"
  by (induction ch) (auto simp: named_def key_def case_insensitive_strcmp_def insensitive_cmp_zero split: option.splits)

lemma map_of_find: "map_of (map (\<lambda>c. (f c, g c)) ch) k = map_option g (find (\<lambda>c. f c = k) ch)"
  by (induction ch) auto

lemma map_of_key:
  "distinct (map f ch) \<Longrightarrow> x \<in> set ch \<Longrightarrow> map_of (map (\<lambda>c. (f c, g c)) ch) (f x) = Some (g x)"
  by (auto simp: map_of_eq_Some_iff comp_def)

lemma map_of_le:
  "distinct (map f ch) \<Longrightarrow>
     (\<forall>x \<in> set ch. m (f x) = Some (g x)) \<longleftrightarrow> map_of (map (\<lambda>c. (f c, g c)) ch) \<subseteq>\<^sub>m m"
  by (auto simp: map_le_def dom_map_of_conv_image_fst map_of_key)

section \<open>Comparison decides equality of values\<close>

lemma kind_Item [simp]: "kind (Item ty vs vi vd str ch) = ty AND 0xFF"
  by (simp add: kind_def)

lemma compare_members_spec:
  assumes "\<forall>c \<in> set (i_child b). named c"
    and "\<And>x y. x \<in> set xs \<Longrightarrow> y \<in> set (i_child b) \<Longrightarrow> compare_items dbl cs x y = Some (m x = m y)"
    and "\<forall>x \<in> set xs. named x"
  shows "compare_members dbl cs xs b =
    Some (\<forall>x \<in> set xs. map_of (map (\<lambda>c. (key cs c, m c)) (i_child b)) (key cs x) = Some (m x))"
  using assms(2,3)
proof (induction xs)
  case (Cons x xs)
  obtain s where s: "i_string x = Some s"
    using Cons.prems(2) by (auto simp: named_def split: option.splits)
  have f: "get_object_item (Some b) (i_string x) cs = Some (find (\<lambda>c. key cs c = key cs x) (i_child b))"
    using find_item_key [OF assms(1), of x cs] Cons.prems(2) s by (simp add: get_object_item_def)
  show ?case
  proof (cases "find (\<lambda>c. key cs c = key cs x) (i_child b)")
    case None
    then show ?thesis
      using f by (simp add: map_of_find)
  next
    case (Some y)
    then have "y \<in> set (i_child b)"
      by (auto simp: find_Some_iff)
    then show ?thesis
      using f Some Cons.prems Cons.IH by (auto simp: map_of_find)
  qed
qed simp

lemma compare_elements_spec:
  "(\<And>x y. x \<in> set xs \<Longrightarrow> y \<in> set ys \<Longrightarrow> compare_items dbl cs x y = Some (m x = m y)) \<Longrightarrow>
     compare_elements dbl cs xs ys = Some (map m xs = map m ys)"
proof (induction xs arbitrary: ys)
  case (Cons x xs)
  then show ?case
    by (cases ys) auto
qed auto

lemma meaning_kind:
  "kind a \<in> comparable_kinds \<Longrightarrow> kind b \<in> comparable_kinds \<Longrightarrow> kind a \<noteq> kind b \<Longrightarrow>
     meaning cs num a \<noteq> meaning cs num b"
  by (cases a; cases b) (auto simp: meaning.simps Let_def comparable_kinds_def cjson_types)

lemma valued_kind: "valued dbl cs a \<Longrightarrow> kind a \<in> comparable_kinds \<and> kind a \<noteq> cJSON_Invalid"
  by (cases a) (auto simp: valued.simps Let_def comparable_kinds_def cjson_types)

lemma compare_array:
  assumes "kind a = cJSON_Array" "kind b = cJSON_Array"
    and "\<And>x y. x \<in> set (i_child a) \<Longrightarrow> y \<in> set (i_child b) \<Longrightarrow>
      compare_items dbl cs x y = Some (meaning cs num x = meaning cs num y)"
  shows "compare_items dbl cs a b = Some (meaning cs num a = meaning cs num b)"
  using assms compare_elements_spec [of "i_child a" "i_child b" dbl cs "meaning cs num"]
  by (cases a; cases b)
    (simp add: compare_items.simps cJSON_IsInvalid_def has_kind_def comparable_kinds_def meaning.simps cjson_types)

lemma compare_object:
  assumes "kind a = cJSON_Object" "kind b = cJSON_Object" "valued dbl cs a" "valued dbl cs b"
    and "\<And>x y. x \<in> set (i_child a) \<Longrightarrow> y \<in> set (i_child b) \<Longrightarrow>
      compare_items dbl cs x y = Some (meaning cs num x = meaning cs num y) \<and>
      compare_items dbl cs y x = Some (meaning cs num y = meaning cs num x)"
  shows "compare_items dbl cs a b = Some (meaning cs num a = meaning cs num b)"
proof -
  let ?m = "\<lambda>c. map_of (map (\<lambda>c. (key cs c, meaning cs num c)) (i_child c))"
  have n: "\<forall>c \<in> set (i_child a). named c" "\<forall>c \<in> set (i_child b). named c"
    "distinct (map (key cs) (i_child a))" "distinct (map (key cs) (i_child b))"
    using assms(1-4) by (cases a; cases b; simp add: valued.simps Let_def cjson_types)+
  have ab: "compare_members dbl cs (i_child a) b = Some (?m a \<subseteq>\<^sub>m ?m b)"
    using compare_members_spec [of b "i_child a" dbl cs "meaning cs num"] n assms(5)
      map_of_le [of "key cs" "i_child a" "?m b" "meaning cs num"] by simp
  have ba: "compare_members dbl cs (i_child b) a = Some (?m b \<subseteq>\<^sub>m ?m a)"
    using compare_members_spec [of a "i_child b" dbl cs "meaning cs num"] n assms(5)
      map_of_le [of "key cs" "i_child b" "?m a" "meaning cs num"] by simp
  have m: "meaning cs num a = JObject (?m a)" "meaning cs num b = JObject (?m b)"
    using assms(1,2) by (cases a; cases b; simp add: meaning.simps cjson_types)+
  have "compare_items dbl cs a b = Some (?m a \<subseteq>\<^sub>m ?m b \<and> ?m b \<subseteq>\<^sub>m ?m a)"
    using ab ba assms(1,2)
    by (simp add: compare_items.simps cJSON_IsInvalid_def has_kind_def comparable_kinds_def cjson_types)
  then show ?thesis
    unfolding m using map_le_antisym by auto
qed

lemma compare_atom:
  assumes "tells_apart dbl num" "valued dbl cs a" "valued dbl cs b"
    and "kind a \<noteq> cJSON_Array" "kind a \<noteq> cJSON_Object"
  shows "compare_items dbl cs a b = Some (meaning cs num a = meaning cs num b)"
proof (cases "kind a = kind b")
  case True
  obtain ty vs vi vd str ch where a: "a = Item ty vs vi vd str ch"
    by (cases a)
  obtain ty' vs' vi' vd' str' ch' where b: "b = Item ty' vs' vi' vd' str' ch'"
    by (cases b)
  have k: "ty' AND 0xFF = ty AND 0xFF"
    using True a b by simp
  consider "ty AND 0xFF = cJSON_NULL" | "ty AND 0xFF = cJSON_False" | "ty AND 0xFF = cJSON_True"
    | (number) "ty AND 0xFF = cJSON_Number" | (string) "ty AND 0xFF = cJSON_String" | (raw) "ty AND 0xFF = cJSON_Raw"
    using valued_kind [OF assms(2)] assms(4,5) a by (auto simp: comparable_kinds_def)
  then show ?thesis
  proof cases
    case number
    then show ?thesis
      using assms(1-3) unfolding a b
      by (simp add: k compare_items.simps cJSON_IsInvalid_def has_kind_def comparable_kinds_def meaning.simps
          valued.simps tells_apart_def cjson_types)
  next
    case string
    then show ?thesis
      using assms(2,3) unfolding a b
      by (auto simp: k compare_items.simps cJSON_IsInvalid_def has_kind_def comparable_kinds_def meaning.simps
          valued.simps cjson_types)
  next
    case raw
    then show ?thesis
      using assms(2,3) unfolding a b
      by (auto simp: k compare_items.simps cJSON_IsInvalid_def has_kind_def comparable_kinds_def meaning.simps
          valued.simps cjson_types)
  qed (simp_all add: a b k compare_items.simps cJSON_IsInvalid_def has_kind_def comparable_kinds_def
      meaning.simps cjson_types)
next
  case False
  then show ?thesis
    using meaning_kind [of a b] valued_kind [OF assms(2)] valued_kind [OF assms(3)]
    by (simp add: compare_items.simps)
qed

lemma valued_child:
  "valued dbl cs a \<Longrightarrow> kind a = cJSON_Array \<or> kind a = cJSON_Object \<Longrightarrow> c \<in> set (i_child a) \<Longrightarrow> valued dbl cs c"
  by (cases a) (auto simp: valued.simps Let_def)

lemma compare_spec:
  assumes "tells_apart dbl num"
  shows "valued dbl cs a \<Longrightarrow> valued dbl cs b \<Longrightarrow>
    compare_items dbl cs a b = Some (meaning cs num a = meaning cs num b) \<and>
    compare_items dbl cs b a = Some (meaning cs num b = meaning cs num a)"
proof (induction a arbitrary: b)
  case (Item ty vs vi vd str ch)
  let ?a = "Item ty vs vi vd str ch"
  have IH: "compare_items dbl cs x y = Some (meaning cs num x = meaning cs num y) \<and>
      compare_items dbl cs y x = Some (meaning cs num y = meaning cs num x)"
    if "kind ?a = cJSON_Array \<or> kind ?a = cJSON_Object" "kind b = kind ?a" "x \<in> set (i_child ?a)" "y \<in> set (i_child b)" for x y
    using Item.IH [of x y] valued_child [OF Item.prems(1), of x] valued_child [OF Item.prems(2), of y] that
    by (simp add: kind_def)
  consider (differ) "kind ?a \<noteq> kind b" | (array) "kind ?a = cJSON_Array" "kind b = cJSON_Array"
    | (object) "kind ?a = cJSON_Object" "kind b = cJSON_Object"
    | (atom) "kind ?a \<notin> {cJSON_Array, cJSON_Object}" "kind b \<notin> {cJSON_Array, cJSON_Object}"
    by fastforce
  then show ?case
  proof cases
    case differ
    then show ?thesis
      using meaning_kind [of ?a b cs num] meaning_kind [of b ?a cs num]
        valued_kind [OF Item.prems(1)] valued_kind [OF Item.prems(2)]
      by (auto simp: compare_items.simps simp del: kind_Item)
  next
    case array
    note i = IH [OF disjI1 [OF array(1)] trans [OF array(2) array(1) [symmetric]]]
    have "compare_items dbl cs ?a b = Some (meaning cs num ?a = meaning cs num b)"
      by (rule compare_array [OF array]) (rule conjunct1 [OF i])
    moreover have "compare_items dbl cs b ?a = Some (meaning cs num b = meaning cs num ?a)"
      by (rule compare_array [OF array(2,1)]) (rule conjunct2 [OF i])
    ultimately show ?thesis
      by (rule conjI)
  next
    case object
    note i = IH [OF disjI2 [OF object(1)] trans [OF object(2) object(1) [symmetric]]]
    have "compare_items dbl cs ?a b = Some (meaning cs num ?a = meaning cs num b)"
      by (rule compare_object [OF object Item.prems]) (rule i)
    moreover have "compare_items dbl cs b ?a = Some (meaning cs num b = meaning cs num ?a)"
      by (rule compare_object [OF object(2,1) Item.prems(2,1)]) (rule conj_commute [THEN iffD1, OF i])
    ultimately show ?thesis
      by (rule conjI)
  next
    case atom
    then show ?thesis
      using compare_atom [OF assms] Item.prems by blast
  qed
qed

section \<open>Properties\<close>

text \<open>
  C27: on items that have a value of their own (known kinds, numbers equal to themselves, strings
  present, members with different names) \<open>cJSON_Compare\<close> returns without a read through a null
  pointer and tells exactly whether the two mean the same JSON value: arrays as sequences, objects as
  maps from names to values, whatever the order of the members, under either treatment of letter case.
\<close>

theorem compare_decides:
  assumes "tells_apart dbl num" "valued dbl cs a" "valued dbl cs b" "same \<Longrightarrow> a = b"
  shows "cJSON_Compare dbl same (Some a) (Some b) cs = Some (meaning cs num a = meaning cs num b)"
  using compare_spec [OF assms(1-3)] valued_kind [OF assms(2)] valued_kind [OF assms(3)] assms(4)
    meaning_kind [of a b]
  by (auto simp: cJSON_Compare_def cJSON_IsInvalid_def has_kind_def)

theorem compare_decides_witness:
  "cJSON_Compare int_double False
     (Some (Item 64 None 0 0 None [Item 8 None 1 1 (Some [97]) [], Item 2 None 1 0 (Some [98]) []]))
     (Some (Item 64 None 0 0 None [Item 2 None 1 0 (Some [66]) [], Item 8 None 1 1 (Some [65]) []])) False = Some True"
proof -
  have t: "tells_apart int_double (\<lambda>n. n)"
    by (simp add: tells_apart_def int_double_def)
  show ?thesis
    by (subst compare_decides [OF t])
      (auto simp: valued.simps meaning.simps comparable_kinds_def cjson_types named_def key_def lower_def
        int_double_def)
qed

end
