(* ===== verification/Cjson_Arrays.thy ===== *)
theory Cjson_Arrays
  imports Cjson_Duplicate
begin

text \<open>
  The constructors of whole arrays (\<open>cJSON_CreateIntArray\<close> and its three siblings in
  \<^verbatim>\<open>src/src/cJSON.cc\<close>): one loop over what makes an element, and the contract of such a maker,
  under which the loop leaks nothing.
\<close>

section \<open>Elements\<close>

definition make_number ::
  "('d, 'e) libc_double_scheme \<Rightarrow> allocs \<Rightarrow> 'd \<Rightarrow> memory \<Rightarrow> 'd cJSON option \<times> memory" where
  "make_number dbl alloc num m = (let (ok, m) = hook_allocate alloc m in (cJSON_CreateNumber dbl (\<lambda>_. ok) num, m))"

definition make_string ::
  "('d, 'e) libc_double_scheme \<Rightarrow> allocs \<Rightarrow> bytes option \<Rightarrow> memory \<Rightarrow> 'd cJSON option \<times> memory" where
  "make_string dbl alloc string m =
     (let (ok, m) = hook_allocate alloc m in
      case cJSON_New_Item dbl ok of
        None \<Rightarrow> (None, m)
      | Some item \<Rightarrow>
          let item = set_type cJSON_String item;
              (_, s, m) = copy_string alloc string m in
          if s = None then (None, cJSON_Delete [item] m)
          else (cJSON_CreateString dbl (\<lambda>_. True) s, m))"

section \<open>The loop\<close>

text \<open>\<open>None\<close> is a read behind the array of the caller.\<close>

fun create_loop ::
  "('a \<Rightarrow> memory \<Rightarrow> 'd cJSON option \<times> memory) \<Rightarrow> 'd cJSON \<Rightarrow> 'a list \<Rightarrow> nat \<Rightarrow> memory \<Rightarrow>
   ('d cJSON option \<times> memory) option" where
  "create_loop mk a xs 0 m = Some (Some a, m)"
| "create_loop mk a [] (Suc n) m = None"
| "create_loop mk a (x # xs) (Suc n) m = (case mk x m of
     (None, m) \<Rightarrow> Some (None, cJSON_Delete [a] m)
   | (item, m) \<Rightarrow> create_loop mk (cJSON_AddItemToArray a item) xs n m)"

definition create_array ::
  "('d, 'e) libc_double_scheme \<Rightarrow> allocs \<Rightarrow> ('a \<Rightarrow> memory \<Rightarrow> 'd cJSON option \<times> memory) \<Rightarrow>
   'a list option \<Rightarrow> int \<Rightarrow> memory \<Rightarrow> ('d cJSON option \<times> memory) option" where
  "create_array dbl alloc mk numbers count m =
     (if count < 0 then Some (None, m)
      else case numbers of
        None \<Rightarrow> Some (None, m)
      | Some xs \<Rightarrow>
          let (ok, m) = hook_allocate alloc m in
          case cJSON_CreateArray dbl (\<lambda>_. ok) of
            None \<Rightarrow> Some (None, m)
          | Some a \<Rightarrow> create_loop mk a xs (nat count) m)"

definition cJSON_CreateIntArray ::
  "('d, 'e) libc_double_scheme \<Rightarrow> allocs \<Rightarrow> int list option \<Rightarrow> int \<Rightarrow> memory \<Rightarrow> ('d cJSON option \<times> memory) option" where
  "cJSON_CreateIntArray dbl alloc = create_array dbl alloc (\<lambda>i. make_number dbl alloc (d_of_int dbl i))"

text \<open>\<open>widen\<close> is the conversion from \<open>float\<close> to \<open>double\<close>.\<close>

definition cJSON_CreateFloatArray ::
  "('d, 'e) libc_double_scheme \<Rightarrow> ('f \<Rightarrow> 'd) \<Rightarrow> allocs \<Rightarrow> 'f list option \<Rightarrow> int \<Rightarrow> memory \<Rightarrow>
   ('d cJSON option \<times> memory) option" where
  "cJSON_CreateFloatArray dbl widen alloc = create_array dbl alloc (\<lambda>f. make_number dbl alloc (widen f))"

definition cJSON_CreateDoubleArray ::
  "('d, 'e) libc_double_scheme \<Rightarrow> allocs \<Rightarrow> 'd list option \<Rightarrow> int \<Rightarrow> memory \<Rightarrow> ('d cJSON option \<times> memory) option" where
  "cJSON_CreateDoubleArray dbl alloc = create_array dbl alloc (make_number dbl alloc)"

definition cJSON_CreateStringArray ::
  "('d, 'e) libc_double_scheme \<Rightarrow> allocs \<Rightarrow> bytes option list option \<Rightarrow> int \<Rightarrow> memory \<Rightarrow>
   ('d cJSON option \<times> memory) option" where
  "cJSON_CreateStringArray dbl alloc = create_array dbl alloc (make_string dbl alloc)"

section \<open>The contract of a maker\<close>

text \<open>Nothing and no block, or an item and the blocks it owns.\<close>

locale item_maker =
  fixes mk :: "'a \<Rightarrow> memory \<Rightarrow> 'd cJSON option \<times> memory"
    and made :: "'a \<Rightarrow> 'd cJSON"
  assumes made_nothing: "mk x m = (None, m') \<Longrightarrow> m_live m' = m_live m"
    and made_item: "mk x m = (Some it, m') \<Longrightarrow> it = made x \<and> m_live m' = m_live m + owned it"
begin

lemma create_loop_live:
  "n \<le> length xs \<Longrightarrow> \<not> is_reference ty \<Longrightarrow>
     \<exists>r m'. create_loop mk (Item ty None vi vd None ch) xs n m = Some (r, m') \<and>
       (case r of None \<Rightarrow> m_live m' = m_live m - owned (Item ty None vi vd None ch)
        | Some a \<Rightarrow> a = Item ty None vi vd None (ch @ map made (take n xs)) \<and>
            m_live m' = m_live m + owned a - owned (Item ty None vi vd None ch))"
proof (induction n arbitrary: xs ch m)
  case (Suc n)
  then obtain x ys where xs: "xs = x # ys" "n \<le> length ys"
    by (cases xs) auto
  obtain r m1 where r: "mk x m = (r, m1)"
    by fastforce
  show ?case
  proof (cases r)
    case None
    then show ?thesis
      using r xs made_nothing [of x m m1] by (simp add: delete_live)
  next
    case (Some it)
    note it = made_item [OF r [unfolded Some]]
    obtain r' m2 where m2: "create_loop mk (Item ty None vi vd None (ch @ [it])) ys n m1 = Some (r', m2)"
        "case r' of None \<Rightarrow> m_live m2 = m_live m1 - owned (Item ty None vi vd None (ch @ [it]))
         | Some a \<Rightarrow> a = Item ty None vi vd None ((ch @ [it]) @ map made (take n ys)) \<and>
             m_live m2 = m_live m1 + owned a - owned (Item ty None vi vd None (ch @ [it]))"
      using Suc.IH [OF xs(2) Suc.prems(2), of "ch @ [it]" m1] by blast
    show ?thesis
      using r Some xs m2 it Suc.prems(2) by (auto simp: cJSON_AddItemToArray_def split: option.splits)
  qed
qed (simp add: exI)

theorem create_array_live:
  assumes "nat count \<le> length xs"
  shows "\<exists>r m'. create_array dbl alloc mk (Some xs) count m = Some (r, m') \<and>
    (case r of None \<Rightarrow> m_live m' = m_live m
     | Some a \<Rightarrow> a = Item cJSON_Array None 0 (d_zero dbl) None (map made (take (nat count) xs)) \<and>
         m_live (cJSON_Delete [a] m') = m_live m)"
proof -
  obtain m0 where h: "hook_allocate alloc m = (alloc (m_calls m), m0)"
    "m_live m0 = m_live m + (if alloc (m_calls m) then 1 else 0)"
    by (simp add: hook_allocate_def)
  have n: "\<not> is_reference cJSON_Array"
    by (simp add: is_reference_def cjson_types)
  show ?thesis
  proof (cases "count < 0 \<or> \<not> alloc (m_calls m)")
    case True
    then show ?thesis
      using h by (auto simp: create_array_def cJSON_CreateArray_def cJSON_New_Item_def)
  next
    case False
    then have "create_array dbl alloc mk (Some xs) count m
        = create_loop mk (Item cJSON_Array None 0 (d_zero dbl) None []) xs (nat count) m0"
      using h(1) by (simp add: create_array_def cJSON_CreateArray_def cJSON_New_Item_def set_type_def)
    moreover obtain r m' where r:
      "create_loop mk (Item cJSON_Array None 0 (d_zero dbl) None []) xs (nat count) m0 = Some (r, m')"
      "case r of None \<Rightarrow> m_live m' = m_live m0 - owned (Item cJSON_Array None 0 (d_zero dbl) None [])
       | Some a \<Rightarrow> a = Item cJSON_Array None 0 (d_zero dbl) None ([] @ map made (take (nat count) xs)) \<and>
           m_live m' = m_live m0 + owned a - owned (Item cJSON_Array None 0 (d_zero dbl) None [])"
      using create_loop_live [OF assms n] by blast
    moreover have "owned (Item cJSON_Array None 0 (d_zero dbl) None []) = 1" "m_live m0 = m_live m + 1"
      using n h(2) False by simp_all
    ultimately show ?thesis
      by (intro exI [of _ r] exI [of _ m']) (cases r; simp add: delete_live)
  qed
qed

end

interpretation numbers: item_maker "make_number dbl alloc"
  "\<lambda>d. Item cJSON_Number None (saturate dbl d) d None []"
  by unfold_locales
    (auto simp: make_number_def hook_allocate_def cJSON_CreateNumber_def cJSON_New_Item_def set_type_def
      cJSON_SetNumberHelper_def split: if_splits)

interpretation strings: item_maker "make_string dbl alloc"
  "\<lambda>s. Item cJSON_String s 0 (d_zero dbl) None []"
  by unfold_locales
    (auto simp: make_string_def hook_allocate_def copy_string_def cJSON_CreateString_def create_text_def
      cJSON_New_Item_def cJSON_strdup_def set_type_def delete_live Let_def is_reference_def has_const_name_def cjson_types
      split: if_splits option.splits)

interpretation duplicates: item_maker "\<lambda>item. cJSON_Duplicate dbl alloc item True" "copied True"
  using duplicate_copies(1) [of dbl alloc _ True] by unfold_locales (fastforce split: option.splits)+

end
