(* ===== verification/Cjson_Links.thy ===== *)
theory Cjson_Links
  imports Cjson_Duplicate
begin

text \<open>
  The lists of items as \<^verbatim>\<open>src/src/cJSON.cc\<close> keeps them, linked in both directions through nodes
  of a heap, and the operations that change them: append, insert, detach, replace and delete, by
  pointer, by index and by name.
\<close>

section \<open>The heap\<close>

text \<open>
  A pointer is an address or \<open>None\<close> for \<open>NULL\<close>; a heap has nothing at the addresses that were
  never allocated or are freed, and following a pointer there is the result \<open>None\<close> of an operation.
\<close>

type_synonym ptr = "nat option"

record 'd node =
  n_next :: ptr
  n_prev :: ptr
  n_child :: ptr
  n_type :: u32
  n_valuestring :: "bytes option"
  n_valueint :: int
  n_valuedouble :: 'd
  n_string :: "bytes option"

type_synonym 'd heap = "nat \<Rightarrow> 'd node option"

definition load :: "'d heap \<Rightarrow> ptr \<Rightarrow> 'd node option" where
  "load h p = Option.bind p h"

definition store :: "ptr \<Rightarrow> ('d node \<Rightarrow> 'd node) \<Rightarrow> 'd heap \<Rightarrow> 'd heap option" where
  "store p f h = do { a \<leftarrow> p; n \<leftarrow> h a; Some (h(a \<mapsto> f n)) }"

abbreviation set_next :: "ptr \<Rightarrow> ptr \<Rightarrow> 'd heap \<Rightarrow> 'd heap option" where
  "set_next p q \<equiv> store p (n_next_update (\<lambda>_. q))"

abbreviation set_prev :: "ptr \<Rightarrow> ptr \<Rightarrow> 'd heap \<Rightarrow> 'd heap option" where
  "set_prev p q \<equiv> store p (n_prev_update (\<lambda>_. q))"

abbreviation set_child :: "ptr \<Rightarrow> ptr \<Rightarrow> 'd heap \<Rightarrow> 'd heap option" where
  "set_child p q \<equiv> store p (n_child_update (\<lambda>_. q))"

section \<open>Appending\<close>

definition suffix_object :: "ptr \<Rightarrow> ptr \<Rightarrow> 'd heap \<Rightarrow> 'd heap option" where
  "suffix_object prev item h = do { h \<leftarrow> set_next prev item h; set_prev item prev h }"

text \<open>\<open>new\<close> is what the allocation of the node returns.\<close>

definition create_reference :: "ptr \<Rightarrow> ptr \<Rightarrow> 'd heap \<Rightarrow> ('d heap \<times> ptr) option" where
  "create_reference new item h = (case item of
     None \<Rightarrow> Some (h, None)
   | Some a \<Rightarrow> (case new of
       None \<Rightarrow> Some (h, None)
     | Some r \<Rightarrow> do {
         n \<leftarrow> h a;
         Some (h(r \<mapsto> n\<lparr>n_string := None, n_type := n_type n OR cJSON_IsReference, n_next := None, n_prev := None\<rparr>),
               Some r) }))"

partial_function (option) last_item :: "'d heap \<Rightarrow> nat \<Rightarrow> nat option" where
  "last_item h child = do {
     n \<leftarrow> h child;
     case n_next n of None \<Rightarrow> Some child | Some next \<Rightarrow> last_item h next }"

definition AddItemToArray :: "ptr \<Rightarrow> ptr \<Rightarrow> 'd heap \<Rightarrow> 'd heap option" where
  "AddItemToArray array item h =
     (if item = None \<or> array = None then Some h
      else do {
        a \<leftarrow> load h array;
        case n_child a of
          None \<Rightarrow> set_child array item h
        | Some child \<Rightarrow> do {
            child \<leftarrow> last_item h child;
            suffix_object (Some child) item h } })"

definition AddItemToObjectCS :: "ptr \<Rightarrow> bytes option \<Rightarrow> ptr \<Rightarrow> 'd heap \<Rightarrow> 'd heap option" where
  "AddItemToObjectCS object string item h =
     (if item = None \<or> string = None then Some h
      else do {
        h \<leftarrow> store item (\<lambda>n. n\<lparr>n_string := string, n_type := n_type n OR cJSON_StringIsConst\<rparr>) h;
        AddItemToArray object item h })"

text \<open>
  \<open>ok\<close> says whether the copy of the name could be allocated.  A name is a value of its node here: that the
  code frees the item's old name is not part of this heap.
\<close>

definition AddItemToObject :: "bool \<Rightarrow> ptr \<Rightarrow> bytes option \<Rightarrow> ptr \<Rightarrow> 'd heap \<Rightarrow> 'd heap option" where
  "AddItemToObject ok object string item h =
     (if item = None then Some h
      else do {
        h \<leftarrow> AddItemToObjectCS object (cJSON_strdup ok string) item h;
        store item (\<lambda>n. n\<lparr>n_type := n_type n AND NOT cJSON_StringIsConst\<rparr>) h })"

definition AddItemReferenceToArray :: "ptr \<Rightarrow> ptr \<Rightarrow> ptr \<Rightarrow> 'd heap \<Rightarrow> 'd heap option" where
  "AddItemReferenceToArray new array item h =
     (if array = None then Some h
      else do { (h, reference) \<leftarrow> create_reference new item h; AddItemToArray array reference h })"

definition AddItemReferenceToObject ::
  "ptr \<Rightarrow> bool \<Rightarrow> ptr \<Rightarrow> bytes option \<Rightarrow> ptr \<Rightarrow> 'd heap \<Rightarrow> 'd heap option" where
  "AddItemReferenceToObject new ok object string item h =
     (if object = None \<or> string = None then Some h
      else do { (h, reference) \<leftarrow> create_reference new item h; AddItemToObject ok object string reference h })"

section \<open>Finding\<close>

fun walk_nodes :: "nat \<Rightarrow> ptr \<Rightarrow> 'd heap \<Rightarrow> ptr option" where
  "walk_nodes index None h = Some None"
| "walk_nodes 0 (Some c) h = Some (Some c)"
| "walk_nodes (Suc index) (Some c) h = do { n \<leftarrow> h c; walk_nodes index (n_next n) h }"

definition node_at :: "ptr \<Rightarrow> nat \<Rightarrow> 'd heap \<Rightarrow> ptr option" where
  "node_at array index h = (if array = None then Some None
     else do { a \<leftarrow> load h array; walk_nodes index (n_child a) h })"

partial_function (option) find_node :: "bytes \<Rightarrow> bool \<Rightarrow> ptr \<Rightarrow> 'd heap \<Rightarrow> ptr option" where
  "find_node name case_sensitive p h = (case p of
     None \<Rightarrow> Some None
   | Some c \<Rightarrow> do {
       n \<leftarrow> h c;
       found \<leftarrow> (if case_sensitive then map_option (\<lambda>s. name = s) (n_string n)
                 else Some (case_insensitive_strcmp (Some name) (n_string n) = 0));
       if found then Some (Some c) else find_node name case_sensitive (n_next n) h })"

definition node_named :: "ptr \<Rightarrow> bytes option \<Rightarrow> bool \<Rightarrow> 'd heap \<Rightarrow> ptr option" where
  "node_named object name case_sensitive h = (case (object, name) of
     (Some ob, Some s) \<Rightarrow> do { a \<leftarrow> h ob; find_node s case_sensitive (n_child a) h }
   | _ \<Rightarrow> Some None)"

section \<open>Deleting\<close>

partial_function (option) delete_nodes :: "ptr \<Rightarrow> 'd heap \<Rightarrow> 'd heap option" where
  "delete_nodes item h = (case item of
     None \<Rightarrow> Some h
   | Some a \<Rightarrow> do {
       n \<leftarrow> h a;
       h \<leftarrow> (if \<not> is_reference (n_type n) \<and> n_child n \<noteq> None then delete_nodes (n_child n) h else Some h);
       _ \<leftarrow> h a;
       delete_nodes (n_next n) (h(a := None)) })"

section \<open>Detaching\<close>

definition DetachItemViaPointer :: "ptr \<Rightarrow> ptr \<Rightarrow> 'd heap \<Rightarrow> ('d heap \<times> ptr) option" where
  "DetachItemViaPointer parent item h =
     (if parent = None \<or> item = None then Some (h, None)
      else do {
        n \<leftarrow> load h item;
        h \<leftarrow> (if n_prev n \<noteq> None then set_next (n_prev n) (n_next n) h else Some h);
        n \<leftarrow> load h item;
        h \<leftarrow> (if n_next n \<noteq> None then set_prev (n_next n) (n_prev n) h else Some h);
        n \<leftarrow> load h item;
        p \<leftarrow> load h parent;
        h \<leftarrow> (if item = n_child p then set_child parent (n_next n) h else Some h);
        h \<leftarrow> set_prev item None h;
        h \<leftarrow> set_next item None h;
        Some (h, item) })"

definition DetachItemFromArray :: "ptr \<Rightarrow> int \<Rightarrow> 'd heap \<Rightarrow> ('d heap \<times> ptr) option" where
  "DetachItemFromArray array which h =
     (if which < 0 then Some (h, None)
      else do { item \<leftarrow> node_at array (nat which) h; DetachItemViaPointer array item h })"

definition DeleteItemFromArray :: "ptr \<Rightarrow> int \<Rightarrow> 'd heap \<Rightarrow> 'd heap option" where
  "DeleteItemFromArray array which h = do { (h, item) \<leftarrow> DetachItemFromArray array which h; delete_nodes item h }"

text \<open>By name, with or without regard to the case of letters.\<close>

definition DetachItemFromObject :: "bool \<Rightarrow> ptr \<Rightarrow> bytes option \<Rightarrow> 'd heap \<Rightarrow> ('d heap \<times> ptr) option" where
  "DetachItemFromObject case_sensitive object string h = do {
     to_detach \<leftarrow> node_named object string case_sensitive h;
     DetachItemViaPointer object to_detach h }"

definition DeleteItemFromObject :: "bool \<Rightarrow> ptr \<Rightarrow> bytes option \<Rightarrow> 'd heap \<Rightarrow> 'd heap option" where
  "DeleteItemFromObject case_sensitive object string h = do {
     (h, item) \<leftarrow> DetachItemFromObject case_sensitive object string h;
     delete_nodes item h }"

section \<open>Inserting and replacing\<close>

definition InsertItemInArray :: "ptr \<Rightarrow> int \<Rightarrow> ptr \<Rightarrow> 'd heap \<Rightarrow> 'd heap option" where
  "InsertItemInArray array which newitem h =
     (if which < 0 then Some h
      else do {
        after_inserted \<leftarrow> node_at array (nat which) h;
        if after_inserted = None then AddItemToArray array newitem h
        else do {
          h \<leftarrow> set_next newitem after_inserted h;
          n \<leftarrow> load h after_inserted;
          h \<leftarrow> set_prev newitem (n_prev n) h;
          h \<leftarrow> set_prev after_inserted newitem h;
          a \<leftarrow> load h array;
          if after_inserted = n_child a then set_child array newitem h
          else do { n \<leftarrow> load h newitem; set_next (n_prev n) newitem h } } })"

definition ReplaceItemViaPointer :: "ptr \<Rightarrow> ptr \<Rightarrow> ptr \<Rightarrow> 'd heap \<Rightarrow> (bool \<times> 'd heap) option" where
  "ReplaceItemViaPointer parent item replacement h =
     (if parent = None \<or> replacement = None \<or> item = None then Some (False, h)
      else if replacement = item then Some (True, h)
      else do {
        n \<leftarrow> load h item;
        h \<leftarrow> set_next replacement (n_next n) h;
        n \<leftarrow> load h item;
        h \<leftarrow> set_prev replacement (n_prev n) h;
        r \<leftarrow> load h replacement;
        h \<leftarrow> (if n_next r \<noteq> None then set_prev (n_next r) replacement h else Some h);
        r \<leftarrow> load h replacement;
        h \<leftarrow> (if n_prev r \<noteq> None then set_next (n_prev r) replacement h else Some h);
        p \<leftarrow> load h parent;
        h \<leftarrow> (if n_child p = item then set_child parent replacement h else Some h);
        h \<leftarrow> set_next item None h;
        h \<leftarrow> set_prev item None h;
        h \<leftarrow> delete_nodes item h;
        Some (True, h) })"

definition ReplaceItemInArray :: "ptr \<Rightarrow> int \<Rightarrow> ptr \<Rightarrow> 'd heap \<Rightarrow> 'd heap option" where
  "ReplaceItemInArray array which newitem h =
     (if which < 0 then Some h
      else do {
        item \<leftarrow> node_at array (nat which) h;
        map_option snd (ReplaceItemViaPointer array item newitem h) })"

definition replace_item_in_object ::
  "bool \<Rightarrow> ptr \<Rightarrow> bytes option \<Rightarrow> ptr \<Rightarrow> bool \<Rightarrow> 'd heap \<Rightarrow> (bool \<times> 'd heap) option" where
  "replace_item_in_object ok object string replacement case_sensitive h =
     (if replacement = None \<or> string = None then Some (False, h)
      else do {
        h \<leftarrow> store replacement (\<lambda>n. n\<lparr>n_string := cJSON_strdup ok string,
               n_type := n_type n AND NOT cJSON_StringIsConst\<rparr>) h;
        item \<leftarrow> node_named object string case_sensitive h;
        map_option (\<lambda>(_, h). (True, h)) (ReplaceItemViaPointer object item replacement h) })"

definition ReplaceItemInObject :: "bool \<Rightarrow> bool \<Rightarrow> ptr \<Rightarrow> bytes option \<Rightarrow> ptr \<Rightarrow> 'd heap \<Rightarrow> 'd heap option" where
  "ReplaceItemInObject case_sensitive ok object string newitem h =
     map_option snd (replace_item_in_object ok object string newitem case_sensitive h)"

end
