(* ===== verification/Cjson_Edit.thy ===== *)
theory Cjson_Edit
  imports Cjson_Links
begin

text \<open>
  What the operations of theory \<open>Cjson_Links\<close> do to well-formed lists: they keep the links of both
  directions, change the list as the list operation they are named after does, change no value, and
  leave every other node alone.
\<close>

section \<open>Well-formed lists\<close>

text \<open>The addresses of an item and, below it, of its children.\<close>

datatype shape = Node (addr: nat) (kids: "shape list")

fun addrs :: "shape \<Rightarrow> nat list" where
  "addrs (Node a ss) = a # concat (map addrs ss)"

definition foot :: "shape list \<Rightarrow> nat list" where
  "foot ss = concat (map addrs ss)"

lemma foot_simps [simp]: "foot [] = []" "foot (s # ss) = addrs s @ foot ss" "foot (xs @ ys) = foot xs @ foot ys"
  by (simp_all add: foot_def)

lemma addrs_Node: "addrs s = addr s # foot (kids s)"
  by (cases s) (simp add: foot_def)

declare addrs.simps [simp del]

definition first_of :: "ptr \<Rightarrow> shape list \<Rightarrow> ptr" where
  "first_of nx ss = (case ss of [] \<Rightarrow> nx | s # _ \<Rightarrow> Some (addr s))"

definition last_of :: "ptr \<Rightarrow> shape list \<Rightarrow> ptr" where
  "last_of pv ss = (if ss = [] then pv else Some (addr (last ss)))"

lemma first_of_simps [simp]: "first_of nx [] = nx" "first_of nx (s # ss) = Some (addr s)"
    "first_of nx (xs @ ys) = first_of (first_of nx ys) xs"
  by (simp_all add: first_of_def split: list.split)

lemma last_of_simps [simp]: "last_of pv [] = pv" "last_of pv (s # ss) = last_of (Some (addr s)) ss"
    "last_of pv (xs @ ys) = last_of (last_of pv xs) ys"
  by (auto simp: last_of_def)

text \<open>
  The nodes of a list of items that follows \<open>pv\<close> and precedes \<open>nx\<close>, with the lists of their children.
\<close>

fun linked :: "'d heap \<Rightarrow> ptr \<Rightarrow> shape list \<Rightarrow> ptr \<Rightarrow> bool" where
  "linked h pv [] nx \<longleftrightarrow> True"
| "linked h pv (Node a cs # ss) nx \<longleftrightarrow>
     (\<exists>n. h a = Some n \<and> n_prev n = pv \<and> n_next n = first_of nx ss \<and> n_child n = first_of None cs \<and>
        \<not> is_reference (n_type n)) \<and>
     linked h None cs None \<and> linked h (Some a) ss nx"

lemma linked_append [simp]:
  "linked h pv (xs @ ys) nx \<longleftrightarrow> linked h pv xs (first_of nx ys) \<and> linked h (last_of pv xs) ys nx"
proof (induction xs arbitrary: pv)
  case (Cons s xs)
  then show ?case
    by (cases s) auto
qed simp

lemma linked_cong: "(\<And>a. a \<in> set (foot ss) \<Longrightarrow> h' a = h a) \<Longrightarrow> linked h' pv ss nx = linked h pv ss nx"
proof (induction h pv ss nx rule: linked.induct)
  case (2 h pv a cs ss nx)
  then show ?case
    by (simp add: addrs_Node)
qed simp

text \<open>An item that holds a list, and an item that is in none.\<close>

definition holds_list :: "'d heap \<Rightarrow> nat \<Rightarrow> shape list \<Rightarrow> bool" where
  "holds_list h arr cs \<longleftrightarrow> (\<exists>n. h arr = Some n \<and> n_child n = first_of None cs) \<and>
     linked h None cs None \<and> distinct (arr # foot cs)"

definition alone :: "'d heap \<Rightarrow> shape \<Rightarrow> bool" where
  "alone h s \<longleftrightarrow> linked h None [s] None \<and> distinct (addrs s)"

text \<open>The value of an item does not depend on its links.\<close>

fun tree :: "'d heap \<Rightarrow> shape \<Rightarrow> 'd cJSON option" where
  "tree h (Node a cs) = do {
     n \<leftarrow> h a;
     ch \<leftarrow> those (map (tree h) cs);
     Some (Item (n_type n) (n_valuestring n) (n_valueint n) (n_valuedouble n) (n_string n) ch) }"

section \<open>Updates of links\<close>

definition upd :: "ptr \<Rightarrow> ('d node \<Rightarrow> 'd node) \<Rightarrow> 'd heap \<Rightarrow> 'd heap" where
  "upd p f h = (case p of None \<Rightarrow> h | Some a \<Rightarrow> h(a := map_option f (h a)))"

lemma upd_None [simp]: "upd None f h = h"
  by (simp add: upd_def)

lemma upd_apply: "upd p f h a = (if p = Some a then map_option f (h a) else h a)"
  by (cases p) (auto simp: upd_def)

lemma upd_same: "h a = Some n \<Longrightarrow> upd (Some a) f h a = Some (f n)"
  by (simp add: upd_def)

lemma upd_other: "p \<noteq> Some a \<Longrightarrow> upd p f h a = h a"
  by (cases p) (simp_all add: upd_def)

lemma store_upd: "h a \<noteq> None \<Longrightarrow> store (Some a) f h = Some (upd (Some a) f h)"
  by (auto simp: store_def upd_def)

definition links_only :: "('d node \<Rightarrow> 'd node) \<Rightarrow> bool" where
  "links_only f \<longleftrightarrow> (\<forall>n. n_type (f n) = n_type n \<and> n_valuestring (f n) = n_valuestring n \<and>
     n_valueint (f n) = n_valueint n \<and> n_valuedouble (f n) = n_valuedouble n \<and> n_string (f n) = n_string n)"

lemma links_only [simp]: "links_only (n_next_update g)" "links_only (n_prev_update g)" "links_only (n_child_update g)"
  by (simp_all add: links_only_def)

lemma tree_upd: "links_only f \<Longrightarrow> tree (upd p f h) s = tree h s"
proof (induction s)
  case (Node a cs)
  then have "map (tree (upd p f h)) cs = map (tree h) cs"
    by simp
  moreover have "upd p f h a = (if p = Some a then map_option f (h a) else h a)"
    by (rule upd_apply)
  ultimately show ?case
    using Node.prems by (cases "h a"; cases "p = Some a") (simp_all add: links_only_def cong: map_cong)
qed

lemma linked_upd: "(\<And>a. p = Some a \<Longrightarrow> a \<notin> set (foot ss)) \<Longrightarrow> linked (upd p f h) pv ss nx = linked h pv ss nx"
  by (rule linked_cong) (auto intro: upd_other)

lemma last_of_foot: "last_of None ss = Some a \<Longrightarrow> a \<in> set (foot ss)"
  by (cases ss rule: rev_cases) (auto simp: addrs_Node)

lemma first_of_foot: "first_of None ss = Some a \<Longrightarrow> a \<in> set (foot ss)"
  by (cases ss) (auto simp: addrs_Node)

lemma linked_next:
  assumes "linked h pv ss nx" "distinct (foot ss)"
  shows "linked (upd (last_of None ss) (n_next_update (\<lambda>_. q)) h) pv ss q"
proof (cases ss rule: rev_cases)
  case (snoc xs s)
  obtain a cs where s: "s = Node a cs"
    by (cases s)
  have "linked (upd (Some a) (n_next_update (\<lambda>_. q)) h) pv xs (Some a)"
    "linked (upd (Some a) (n_next_update (\<lambda>_. q)) h) None cs None"
    using assms snoc s by (subst linked_upd; auto simp: addrs_Node)+
  then show ?thesis
    using assms snoc s by (auto simp: upd_apply)
qed simp

lemma linked_prev:
  assumes "linked h pv ss nx" "distinct (foot ss)"
  shows "linked (upd (first_of None ss) (n_prev_update (\<lambda>_. q)) h) q ss nx"
proof (cases ss)
  case (Cons s xs)
  obtain a cs where s: "s = Node a cs"
    by (cases s)
  have "linked (upd (Some a) (n_prev_update (\<lambda>_. q)) h) (Some a) xs nx"
    "linked (upd (Some a) (n_prev_update (\<lambda>_. q)) h) None cs None"
    using assms Cons s by (subst linked_upd; auto simp: addrs_Node)+
  then show ?thesis
    using assms Cons s by (auto simp: upd_apply)
qed simp


lemma upd_defined [simp]: "upd p f h a = None \<longleftrightarrow> h a = None"
  by (cases p) (auto simp: upd_def)

lemma store_opt:
  "(\<And>a. p = Some a \<Longrightarrow> h a \<noteq> None) \<Longrightarrow> (if p \<noteq> None then store p f h else Some h) = Some (upd p f h)"
  by (cases p) (auto simp: store_upd)

lemma linked_defined: "linked h pv ss nx \<Longrightarrow> a \<in> set (foot ss) \<Longrightarrow> h a \<noteq> None"
proof (induction h pv ss nx rule: linked.induct)
  case (2 h pv a' cs ss nx)
  then show ?case
    by (auto simp: addrs_Node)
qed simp

lemma linked_node:
  "linked h pv (Node a cs # ss) nx \<Longrightarrow> \<exists>n. h a = Some n \<and> n_prev n = pv \<and> n_next n = first_of nx ss"
  by auto

text \<open>What an operation may change: the links of the nodes in a set, and no value.\<close>

definition relinks :: "nat set \<Rightarrow> 'd heap \<Rightarrow> 'd heap \<Rightarrow> bool" where
  "relinks A h h' \<longleftrightarrow> (\<forall>s. tree h' s = tree h s) \<and> (\<forall>a. a \<notin> A \<longrightarrow> h' a = h a)"

lemma relinks_refl [simp]: "relinks A h h"
  by (simp add: relinks_def)

lemma relinks_upd:
  "relinks A h h' \<Longrightarrow> links_only f \<Longrightarrow> (\<And>a. p = Some a \<Longrightarrow> a \<in> A) \<Longrightarrow> relinks A h (upd p f h')"
  unfolding relinks_def by (metis tree_upd upd_other)

section \<open>Finding\<close>

lemma walk_nodes_list: "linked h pv ss None \<Longrightarrow> walk_nodes i (first_of None ss) h = Some (first_of None (drop i ss))"
proof (induction i arbitrary: pv ss)
  case 0
  then show ?case
    by (cases ss) simp_all
next
  case (Suc i)
  then show ?case
  proof (cases ss)
    case (Cons s xs)
    then show ?thesis
      using Suc by (cases s) auto
  qed simp
qed

lemma node_at_list: "holds_list h arr cs \<Longrightarrow> node_at (Some arr) i h = Some (first_of None (drop i cs))"
  using walk_nodes_list [of h None cs i] by (auto simp: holds_list_def node_at_def load_def)

lemma last_item_list: "linked h pv (s # ss) None \<Longrightarrow> last_item h (addr s) = last_of None (s # ss)"
proof (induction ss arbitrary: pv s)
  case Nil
  then show ?case
    by (cases s) (auto simp: last_item.simps)
next
  case (Cons t ss)
  obtain a cs where s: "s = Node a cs"
    by (cases s)
  then obtain n where n: "h a = Some n" "n_next n = Some (addr t)" "linked h (Some a) (t # ss) None"
    using Cons.prems by auto
  then have "last_item h a = last_item h (addr t)"
    by (subst last_item.simps) simp
  then show ?case
    using Cons.IH [OF n(3)] s by (simp add: last_of_def)
qed

section \<open>Appending\<close>

lemma append_list:
  assumes "holds_list h arr cs" "alone h s" "distinct (arr # foot cs @ addrs s)"
  shows "\<exists>h'. AddItemToArray (Some arr) (Some (addr s)) h = Some h' \<and> holds_list h' arr (cs @ [s]) \<and>
    relinks (set (arr # foot cs @ addrs s)) h h'"
proof -
  obtain a ks where s: "s = Node a ks"
    by (cases s)
  obtain n where n: "h arr = Some n" "n_child n = first_of None cs" "linked h None cs None" "distinct (arr # foot cs)"
    using assms(1) by (auto simp: holds_list_def)
  have a: "linked h None [s] None"
    using assms(2) by (simp add: alone_def)
  show ?thesis
  proof (cases cs)
    case Nil
    let ?h = "upd (Some arr) (n_child_update (\<lambda>_. Some a)) h"
    have "linked ?h None [s] None"
      using a assms(3) by (subst linked_upd) (auto simp: s)
    then have "holds_list ?h arr (cs @ [s])"
      using n Nil assms(3) by (simp add: holds_list_def upd_same s)
    moreover have "AddItemToArray (Some arr) (Some (addr s)) h = Some ?h"
      using n Nil by (simp add: AddItemToArray_def load_def s store_upd)
    moreover have "relinks (set (arr # foot cs @ addrs s)) h ?h"
      by (rule relinks_upd) simp_all
    ultimately show ?thesis
      by blast
  next
    case (Cons c cs')
    obtain l where l: "last_of None cs = Some l" "l \<in> set (foot cs)"
      using last_of_foot [of cs] Cons by (auto simp: last_of_def)
    let ?g = "upd (Some l) (n_next_update (\<lambda>_. Some a)) h"
    let ?h = "upd (Some a) (n_prev_update (\<lambda>_. Some l)) ?g"
    have "linked ?g None cs (Some a)"
      using linked_next [OF n(3), of "Some a"] n(4) l(1) by simp
    then have 1: "linked ?h None cs (Some a)"
      using assms(3) by (subst linked_upd) (auto simp: s addrs_Node)
    have "linked ?g None [s] None"
      using a l(2) assms(3) by (subst linked_upd) auto
    then have 2: "linked ?h (Some l) [s] None"
      using linked_prev [of ?g None "[s]" None "Some l"] assms(3) by (simp add: s)
    have "?h arr = Some n"
      using n(1) assms(3) l(2) by (subst upd_other, simp add: s addrs_Node, subst upd_other) auto
    moreover have "linked ?h None (cs @ [s]) None"
      using 1 2 by (subst linked_append) (simp add: l(1) s)
    ultimately have "holds_list ?h arr (cs @ [s])"
      using n(2) Cons assms(3) by (auto simp: holds_list_def)
    moreover have "AddItemToArray (Some arr) (Some (addr s)) h = Some ?h"
    proof -
      have "last_item h (addr c) = Some l"
        using last_item_list [of h None c cs'] n(3) l(1) Cons by simp
      moreover have "h l \<noteq> None" "h a \<noteq> None"
        using linked_defined [OF n(3) l(2)] a by (auto simp: s)
      ultimately show ?thesis
        using n(1,2) Cons by (simp add: AddItemToArray_def load_def s suffix_object_def store_upd)
    qed
    moreover have "relinks (set (arr # foot cs @ addrs s)) h ?h"
      using l(2) by (intro relinks_upd) (auto simp: s addrs_Node)
    ultimately show ?thesis
      by blast
  qed
qed


section \<open>Detaching\<close>

lemma linked_upds:
  "p \<notin> Some ` set (foot ss) \<Longrightarrow> linked (upd p f h) pv ss nx = linked h pv ss nx"
  by (rule linked_upd) auto

lemma detach_list:
  assumes "holds_list h arr (xs @ x # ys)"
  shows "\<exists>h'. DetachItemViaPointer (Some arr) (Some (addr x)) h = Some (h', Some (addr x)) \<and>
    holds_list h' arr (xs @ ys) \<and> alone h' x \<and> relinks (set (arr # foot (xs @ x # ys))) h h'"
proof -
  obtain a ks where x: "x = Node a ks"
    by (cases x)
  obtain m where m: "h arr = Some m" "n_child m = first_of (Some a) xs"
    using assms by (auto simp: holds_list_def x)
  have D: "distinct (arr # foot xs @ a # foot ks @ foot ys)"
    using assms by (auto simp: holds_list_def x addrs_Node)
  have L: "linked h None xs (Some a)" "linked h (last_of None xs) (Node a ks # ys) None"
    using assms by (auto simp: holds_list_def x)
  obtain n where n: "h a = Some n" "n_prev n = last_of None xs" "n_next n = first_of None ys"
      "n_child n = first_of None ks" "\<not> is_reference (n_type n)" "linked h None ks None" "linked h (Some a) ys None"
    using L(2) by auto
  define P Q where "P = last_of None xs" and "Q = first_of None ys"
  have P: "P = None \<longleftrightarrow> xs = []" "\<And>b. P = Some b \<Longrightarrow> b \<in> set (foot xs)"
    using last_of_foot [of xs] by (auto simp: P_def last_of_def)
  have Q: "\<And>b. Q = Some b \<Longrightarrow> b \<in> set (foot ys)"
    using first_of_foot [of ys] by (auto simp: Q_def)
  define h1 where "h1 = upd P (n_next_update (\<lambda>_. Q)) h"
  define h2 where "h2 = upd Q (n_prev_update (\<lambda>_. P)) h1"
  define h3 where "h3 = (if xs = [] then upd (Some arr) (n_child_update (\<lambda>_. Q)) h2 else h2)"
  define h4 where "h4 = upd (Some a) (n_prev_update (\<lambda>_. None)) h3"
  define h5 where "h5 = upd (Some a) (n_next_update (\<lambda>_. None)) h4"
  have ne: "P \<noteq> Some a" "Q \<noteq> Some a" "P \<noteq> Some arr" "Q \<noteq> Some arr" "arr \<noteq> a"
      "P \<notin> Some ` set (foot ks)" "Q \<notin> Some ` set (foot ks)" "P \<notin> Some ` set (foot ys)" "Q \<notin> Some ` set (foot xs)"
      "Some a \<notin> Some ` set (foot xs)" "Some a \<notin> Some ` set (foot ys)" "Some a \<notin> Some ` set (foot ks)"
      "Some arr \<notin> Some ` set (foot xs)" "Some arr \<notin> Some ` set (foot ys)" "Some arr \<notin> Some ` set (foot ks)"
    using D P(2) Q by auto
  have a: "h1 a = Some n" "h2 a = Some n" "h3 a = Some n"
    using n(1) ne by (simp_all add: h1_def h2_def h3_def upd_other)
  have arr: "h2 arr = Some m"
    using m(1) ne by (simp add: h1_def h2_def upd_other)
  have 1: "linked h1 None xs Q" "linked h1 (Some a) ys None" "linked h1 None ks None"
    using linked_next [OF L(1), of Q] D n(6,7) ne by (simp_all add: h1_def P_def [symmetric] linked_upds)
  have 2: "linked h2 None xs Q" "linked h2 P ys None" "linked h2 None ks None"
    using 1 linked_prev [OF 1(2), of P] D ne by (simp_all add: h2_def Q_def [symmetric] linked_upds)
  have 5: "linked h5 None xs Q" "linked h5 P ys None" "linked h5 None ks None"
    using 2 ne by (simp_all add: h5_def h4_def h3_def linked_upds)
  have "h4 a = Some (n\<lparr>n_prev := None\<rparr>)"
    by (simp add: h4_def upd_same a(3))
  then have "h5 a = Some (n\<lparr>n_prev := None, n_next := None\<rparr>)"
    by (simp add: h5_def upd_same)
  then have "alone h5 x"
    using 5(3) n(4,5) D by (simp add: alone_def x addrs_Node)
  moreover have "\<exists>m'. h5 arr = Some m' \<and> n_child m' = first_of Q xs"
  proof (cases "xs = []")
    case True
    then have "h3 arr = Some (m\<lparr>n_child := Q\<rparr>)"
      by (simp add: h3_def upd_same arr)
    then show ?thesis
      using ne True by (simp add: h5_def h4_def upd_other)
  next
    case False
    then have "first_of (Some a) xs = first_of Q xs"
      by (cases xs) simp_all
    then show ?thesis
      using ne arr m(2) False by (simp add: h5_def h4_def h3_def upd_other)
  qed
  then have "holds_list h5 arr (xs @ ys)"
    using 5 D by (auto simp: holds_list_def P_def Q_def)
  moreover have "relinks (set (arr # foot (xs @ x # ys))) h h5"
    unfolding h5_def h4_def h3_def h2_def h1_def
    using P(2) Q by (auto intro!: relinks_upd simp: x addrs_Node)
  moreover have "DetachItemViaPointer (Some arr) (Some (addr x)) h = Some (h5, Some (addr x))"
  proof -
    have s1: "(if P \<noteq> None then set_next P Q h else Some h) = Some h1"
      unfolding h1_def by (rule store_opt) (use P(2) L(1) linked_defined in blast)
    have "\<And>b. Q = Some b \<Longrightarrow> h1 b \<noteq> None"
      using Q 1(2) linked_defined by blast
    then have s2: "(if Q \<noteq> None then set_prev Q P h1 else Some h1) = Some h2"
      unfolding h2_def by (rule store_opt)
    have "Some a = n_child m \<longleftrightarrow> xs = []"
      using m(2) D by (cases xs) (auto simp: addrs_Node)
    then have s3: "(if Some a = n_child m then set_child (Some arr) Q h2 else Some h2) = Some h3"
      using arr by (simp add: h3_def store_upd)
    have "set_prev (Some a) None h3 = Some h4" "set_next (Some a) None h4 = Some h5"
      using a(3) by (simp_all add: h5_def h4_def store_upd)
    then show ?thesis
      using n(1-3) a(1,2) arr s1 s2 s3
      by (simp add: DetachItemViaPointer_def load_def x P_def [symmetric] Q_def [symmetric] del: not_None_eq split del: if_split cong: if_cong)
  qed
  ultimately show ?thesis
    by blast
qed


section \<open>Inserting\<close>

lemma insert_list:
  assumes "holds_list h arr (xs @ y # ys)" "alone h s" "distinct (arr # foot (xs @ y # ys) @ addrs s)"
  shows "\<exists>h'. InsertItemInArray (Some arr) (int (length xs)) (Some (addr s)) h = Some h' \<and>
    holds_list h' arr (xs @ s # y # ys) \<and> relinks (set (arr # foot (xs @ y # ys) @ addrs s)) h h'"
proof -
  obtain a ks where s: "s = Node a ks"
    by (cases s)
  obtain b js where y: "y = Node b js"
    by (cases y)
  obtain m where m: "h arr = Some m" "n_child m = first_of (Some b) xs"
    using assms(1) by (auto simp: holds_list_def y)
  have D: "distinct (arr # foot xs @ b # foot js @ foot ys @ a # foot ks)"
    using assms(3) by (auto simp: s y addrs_Node)
  have L: "linked h None xs (Some b)" "linked h (last_of None xs) (y # ys) None"
    using assms(1) by (auto simp: holds_list_def y)
  obtain n where n: "h b = Some n" "n_prev n = last_of None xs"
    using L(2) by (auto simp: y)
  obtain k where k: "h a = Some k" "n_child k = first_of None ks" "\<not> is_reference (n_type k)" "linked h None ks None"
    using assms(2) by (auto simp: alone_def s)
  define P where "P = last_of None xs"
  have P: "P = None \<longleftrightarrow> xs = []" "\<And>c. P = Some c \<Longrightarrow> c \<in> set (foot xs)"
    using last_of_foot [of xs] by (auto simp: P_def last_of_def)
  define h1 where "h1 = upd (Some a) (n_next_update (\<lambda>_. Some b)) h"
  define h2 where "h2 = upd (Some a) (n_prev_update (\<lambda>_. P)) h1"
  define h3 where "h3 = upd (Some b) (n_prev_update (\<lambda>_. Some a)) h2"
  define h4 where "h4 = (if xs = [] then upd (Some arr) (n_child_update (\<lambda>_. Some a)) h3
     else upd P (n_next_update (\<lambda>_. Some a)) h3)"
  have ne: "P \<noteq> Some a" "P \<noteq> Some b" "P \<noteq> Some arr" "arr \<noteq> a" "arr \<noteq> b" "a \<noteq> b"
      "Some a \<notin> Some ` set (foot xs)" "Some b \<notin> Some ` set (foot xs)" "Some arr \<notin> Some ` set (foot xs)"
      "Some a \<notin> Some ` set (foot (y # ys))" "P \<notin> Some ` set (foot (y # ys))" "Some arr \<notin> Some ` set (foot (y # ys))"
      "Some a \<notin> Some ` set (foot ks)" "Some b \<notin> Some ` set (foot ks)" "P \<notin> Some ` set (foot ks)"
      "Some arr \<notin> Some ` set (foot ks)"
    using D P(2) by (auto simp: y addrs_Node)
  have a: "h1 a = Some (k\<lparr>n_next := Some b\<rparr>)" "h2 a = Some (k\<lparr>n_next := Some b, n_prev := P\<rparr>)"
    by (simp_all add: h2_def h1_def upd_same k(1))
  have "h3 a = h2 a" "h4 a = h3 a"
    using ne by (simp_all add: h3_def h4_def upd_other)
  then have a': "h3 a = Some (k\<lparr>n_next := Some b, n_prev := P\<rparr>)" "h4 a = Some (k\<lparr>n_next := Some b, n_prev := P\<rparr>)"
    using a(2) by simp_all
  have b: "h1 b = Some n" "h2 b = Some n"
    using n(1) ne by (simp_all add: h2_def h1_def upd_other)
  have arr: "h3 arr = Some m"
    using m(1) ne by (simp add: h3_def h2_def h1_def upd_other)
  have 2: "linked h2 None xs (Some b)" "linked h2 P (y # ys) None" "linked h2 None ks None"
    using L k(4) ne by (simp_all add: h2_def h1_def P_def [symmetric] linked_upds)
  have 3: "linked h3 None xs (Some b)" "linked h3 (Some a) (y # ys) None" "linked h3 None ks None"
  proof -
    have "distinct (foot (y # ys))"
      using D by (auto simp: y addrs_Node)
    then show "linked h3 (Some a) (y # ys) None"
      using linked_prev [OF 2(2), of "Some a"] by (simp add: h3_def y)
  qed (use 2(1,3) ne in \<open>simp_all add: h3_def linked_upds\<close>)
  have 4: "linked h4 None xs (Some a)" "linked h4 (Some a) (y # ys) None" "linked h4 None ks None"
    using 3 ne linked_next [OF 3(1), of "Some a"] D by (simp_all add: h4_def P_def [symmetric] linked_upds)
  have "linked h4 None (xs @ s # y # ys) None"
    using 4 a'(2) k(2,3) by (subst linked_append) (auto simp: s y P_def)
  moreover have "\<exists>m'. h4 arr = Some m' \<and> n_child m' = first_of (Some a) xs"
  proof (cases "xs = []")
    case True
    then show ?thesis
      by (simp add: h4_def upd_same arr)
  next
    case False
    then have "first_of (Some a) xs = first_of (Some b) xs"
      by (cases xs) simp_all
    then show ?thesis
      using ne arr m(2) False by (simp add: h4_def upd_other)
  qed
  ultimately have "holds_list h4 arr (xs @ s # y # ys)"
    using D by (auto simp: holds_list_def s y addrs_Node)
  moreover have "relinks (set (arr # foot (xs @ y # ys) @ addrs s)) h h4"
    unfolding h4_def h3_def h2_def h1_def using P(2) by (auto intro!: relinks_upd simp: s y addrs_Node)
  moreover have "InsertItemInArray (Some arr) (int (length xs)) (Some (addr s)) h = Some h4"
  proof -
    have "node_at (Some arr) (length xs) h = Some (Some b)"
      using node_at_list [OF assms(1), of "length xs"] by (simp add: y)
    moreover have "set_next (Some a) (Some b) h = Some h1" "set_prev (Some a) P h1 = Some h2"
        "set_prev (Some b) (Some a) h2 = Some h3"
      using k(1) a(1) b(2) by (simp_all add: h1_def h2_def h3_def store_upd)
    moreover have "(if Some b = n_child m then set_child (Some arr) (Some a) h3
        else do { n \<leftarrow> load h3 (Some a); set_next (n_prev n) (Some a) h3 }) = Some h4"
    proof (cases "xs = []")
      case True
      then show ?thesis
        using m(2) arr by (simp add: h4_def store_upd)
    next
      case False
      then obtain p where p: "P = Some p" "h3 p \<noteq> None"
        using P linked_defined [OF 3(1)] by (cases P) auto
      have "Some b \<noteq> n_child m"
        using False m(2) D by (cases xs) (auto simp: addrs_Node)
      then show ?thesis
        using a'(1) p False by (simp add: h4_def store_upd load_def)
    qed
    ultimately show ?thesis
      using n(2) b(1) arr by (simp add: InsertItemInArray_def load_def s P_def [symmetric] split del: if_split)
  qed
  ultimately show ?thesis
    by blast
qed


section \<open>Deleting\<close>

lemma delete_list:
  "linked h pv ss None \<Longrightarrow> distinct (foot ss) \<Longrightarrow>
     delete_nodes (first_of None ss) h = Some (h |` (- set (foot ss)))"
proof (induction "length (foot ss)" arbitrary: h pv ss rule: less_induct)
  case less
  show ?case
  proof (cases ss)
    case Nil
    then show ?thesis
      by (simp add: delete_nodes.simps restrict_map_def)
  next
    case (Cons s xs)
    obtain a cs where s: "s = Node a cs"
      by (cases s)
    obtain n where n: "h a = Some n" "n_next n = first_of None xs" "n_child n = first_of None cs"
        "\<not> is_reference (n_type n)" "linked h None cs None" "linked h (Some a) xs None"
      using less.prems(1) Cons s by auto
    have D: "a \<notin> set (foot cs)" "a \<notin> set (foot xs)" "distinct (foot cs)" "distinct (foot xs)"
        "set (foot cs) \<inter> set (foot xs) = {}"
      using less.prems(2) Cons s by (auto simp: addrs_Node)
    let ?h = "h |` (- set (foot cs))"
    let ?g = "?h(a := None)"
    have "delete_nodes (n_child n) h = Some ?h"
      unfolding n(3) by (rule less.hyps [OF _ n(5) D(3)]) (simp add: Cons s addrs_Node)
    then have "(if \<not> is_reference (n_type n) \<and> n_child n \<noteq> None then delete_nodes (n_child n) h else Some h) = Some ?h"
      using n(4) by (auto simp: delete_nodes.simps)
    moreover have "?h a = Some n"
      using n(1) D(1) by simp
    moreover have "linked ?g (Some a) xs None"
      using n(6) D(2,5) by (subst linked_cong [where h = h]) (auto simp: restrict_map_def)
    then have "delete_nodes (n_next n) ?g = Some (?g |` (- set (foot xs)))"
      unfolding n(2) by (intro less.hyps [OF _ _ D(4)]) (simp_all add: Cons s addrs_Node)
    moreover have "?g |` (- set (foot xs)) = h |` (- set (foot ss))"
      by (rule ext) (auto simp: restrict_map_def addrs_Node Cons s)
    ultimately show ?thesis
      using n(1) Cons s by (subst delete_nodes.simps) (simp split del: if_split)
  qed
qed

section \<open>Replacing\<close>

lemma restrict_frame: "a \<notin> A \<Longrightarrow> (h |` (- A)) a = h a"
  by simp

lemma replace_list:
  assumes "holds_list h arr (xs @ x # ys)" "alone h s" "distinct (arr # foot (xs @ x # ys) @ addrs s)"
  shows "\<exists>h'. ReplaceItemViaPointer (Some arr) (Some (addr x)) (Some (addr s)) h
      = Some (True, h' |` (- set (addrs x))) \<and>
    holds_list (h' |` (- set (addrs x))) arr (xs @ s # ys) \<and> relinks (set (arr # foot (xs @ x # ys) @ addrs s)) h h'"
proof -
  obtain a ks where s: "s = Node a ks"
    by (cases s)
  obtain b js where x: "x = Node b js"
    by (cases x)
  obtain m where m: "h arr = Some m" "n_child m = first_of (Some b) xs"
    using assms(1) by (auto simp: holds_list_def x)
  have D: "distinct (arr # foot xs @ b # foot js @ foot ys @ a # foot ks)"
    using assms(3) by (auto simp: s x addrs_Node)
  have L: "linked h None xs (Some b)" "linked h (last_of None xs) (Node b js # ys) None"
    using assms(1) by (auto simp: holds_list_def x)
  obtain n where n: "h b = Some n" "n_prev n = last_of None xs" "n_next n = first_of None ys"
      "n_child n = first_of None js" "\<not> is_reference (n_type n)" "linked h None js None" "linked h (Some b) ys None"
    using L(2) by auto
  obtain k where k: "h a = Some k" "n_child k = first_of None ks" "\<not> is_reference (n_type k)" "linked h None ks None"
    using assms(2) by (auto simp: alone_def s)
  define P Q where "P = last_of None xs" and "Q = first_of None ys"
  have P: "P = None \<longleftrightarrow> xs = []" "\<And>c. P = Some c \<Longrightarrow> c \<in> set (foot xs)"
    using last_of_foot [of xs] by (auto simp: P_def last_of_def)
  have Q: "\<And>c. Q = Some c \<Longrightarrow> c \<in> set (foot ys)"
    using first_of_foot [of ys] by (auto simp: Q_def)
  define h1 where "h1 = upd (Some a) (n_next_update (\<lambda>_. Q)) h"
  define h2 where "h2 = upd (Some a) (n_prev_update (\<lambda>_. P)) h1"
  define h3 where "h3 = upd Q (n_prev_update (\<lambda>_. Some a)) h2"
  define h4 where "h4 = upd P (n_next_update (\<lambda>_. Some a)) h3"
  define h5 where "h5 = (if xs = [] then upd (Some arr) (n_child_update (\<lambda>_. Some a)) h4 else h4)"
  define h6 where "h6 = upd (Some b) (n_next_update (\<lambda>_. None)) h5"
  define h7 where "h7 = upd (Some b) (n_prev_update (\<lambda>_. None)) h6"
  have ne: "P \<noteq> Some a" "P \<noteq> Some b" "P \<noteq> Some arr" "Q \<noteq> Some a" "Q \<noteq> Some b" "Q \<noteq> Some arr"
      "arr \<noteq> a" "arr \<noteq> b" "a \<noteq> b"
      "Some a \<notin> Some ` set (foot xs)" "Some b \<notin> Some ` set (foot xs)" "Some arr \<notin> Some ` set (foot xs)"
      "Q \<notin> Some ` set (foot xs)"
      "Some a \<notin> Some ` set (foot ys)" "Some b \<notin> Some ` set (foot ys)" "Some arr \<notin> Some ` set (foot ys)"
      "P \<notin> Some ` set (foot ys)"
      "Some a \<notin> Some ` set (foot js)" "Some b \<notin> Some ` set (foot js)" "Some arr \<notin> Some ` set (foot js)"
      "P \<notin> Some ` set (foot js)" "Q \<notin> Some ` set (foot js)"
      "Some a \<notin> Some ` set (foot ks)" "Some b \<notin> Some ` set (foot ks)" "Some arr \<notin> Some ` set (foot ks)"
      "P \<notin> Some ` set (foot ks)" "Q \<notin> Some ` set (foot ks)"
    using D P(2) Q by auto
  let ?k = "k\<lparr>n_next := Q, n_prev := P\<rparr>"
  have a: "h1 a = Some (k\<lparr>n_next := Q\<rparr>)" "h2 a = Some ?k"
    by (simp_all add: h2_def h1_def upd_same k(1))
  have a': "h3 a = Some ?k" "h4 a = Some ?k" "h5 a = Some ?k" "h7 a = Some ?k"
    using ne a(2) by (simp_all add: h3_def h4_def h5_def h6_def h7_def upd_other)
  have b: "h1 b = Some n" "h5 b = Some n"
    using n(1) ne by (simp_all add: h5_def h4_def h3_def h2_def h1_def upd_other)
  have b': "h6 b = Some (n\<lparr>n_next := None\<rparr>)"
    by (simp add: h6_def upd_same b(2))
  then have b'': "h7 b = Some (n\<lparr>n_next := None, n_prev := None\<rparr>)"
    by (simp add: h7_def upd_same)
  have arr: "h4 arr = Some m"
    using m(1) ne by (simp add: h4_def h3_def h2_def h1_def upd_other)
  have 2: "linked h2 None xs (Some b)" "linked h2 (Some b) ys None" "linked h2 None ks None" "linked h2 None js None"
    using L(1) n(6,7) k(4) ne by (simp_all add: h2_def h1_def linked_upds)
  have 3: "linked h3 None xs (Some b)" "linked h3 (Some a) ys None" "linked h3 None ks None" "linked h3 None js None"
    using 2 ne linked_prev [OF 2(2), of "Some a"] D by (simp_all add: h3_def Q_def [symmetric] linked_upds)
  have 4: "linked h4 None xs (Some a)" "linked h4 (Some a) ys None" "linked h4 None ks None" "linked h4 None js None"
    using 3 ne linked_next [OF 3(1), of "Some a"] D by (simp_all add: h4_def P_def [symmetric] linked_upds)
  have 7: "linked h7 None xs (Some a)" "linked h7 (Some a) ys None" "linked h7 None ks None" "linked h7 None js None"
    using 4 ne by (simp_all add: h7_def h6_def h5_def linked_upds)
  let ?h = "h7 |` (- set (addrs x))"
  have r: "\<And>c. c \<notin> insert b (set (foot js)) \<Longrightarrow> ?h c = h7 c"
    by (simp add: x addrs_Node)
  have 8: "linked ?h None xs (Some a)" "linked ?h (Some a) ys None" "linked ?h None ks None"
    using 7 D by (subst linked_cong [where h = h7]; auto simp: x addrs_Node restrict_map_def)+
  have "?h a = Some ?k"
    using r [of a] a'(4) D by auto
  then have "linked ?h None (xs @ s # ys) None"
    using 8 k(2,3) by (subst linked_append) (auto simp: s P_def Q_def)
  moreover have "\<exists>m'. ?h arr = Some m' \<and> n_child m' = first_of (Some a) xs"
  proof -
    have "?h arr = h7 arr"
      using r [of arr] D by auto
    moreover have "h7 arr = h5 arr"
      using ne by (simp add: h7_def h6_def upd_other)
    moreover have "\<exists>m'. h5 arr = Some m' \<and> n_child m' = first_of (Some a) xs"
    proof (cases "xs = []")
      case True
      then show ?thesis
        by (simp add: h5_def upd_same arr)
    next
      case False
      then have "first_of (Some a) xs = first_of (Some b) xs"
        by (cases xs) simp_all
      then show ?thesis
        using arr m(2) False by (simp add: h5_def)
    qed
    ultimately show ?thesis
      by simp
  qed
  ultimately have "holds_list ?h arr (xs @ s # ys)"
    using D by (auto simp: holds_list_def s addrs_Node)
  moreover have "relinks (set (arr # foot (xs @ x # ys) @ addrs s)) h h7"
    unfolding h7_def h6_def h5_def h4_def h3_def h2_def h1_def
    using P(2) Q by (auto intro!: relinks_upd simp: s x addrs_Node)
  moreover have "ReplaceItemViaPointer (Some arr) (Some (addr x)) (Some (addr s)) h = Some (True, ?h)"
  proof -
    have s1: "set_next (Some a) Q h = Some h1" "set_prev (Some a) P h1 = Some h2"
      using k(1) a(1) by (simp_all add: h1_def h2_def store_upd)
    have "\<And>c. Q = Some c \<Longrightarrow> h2 c \<noteq> None"
      using Q 2(2) linked_defined by blast
    then have s3: "(if Q \<noteq> None then set_prev Q (Some a) h2 else Some h2) = Some h3"
      unfolding h3_def by (rule store_opt)
    have "\<And>c. P = Some c \<Longrightarrow> h3 c \<noteq> None"
      using P(2) 3(1) linked_defined by blast
    then have s4: "(if P \<noteq> None then set_next P (Some a) h3 else Some h3) = Some h4"
      unfolding h4_def by (rule store_opt)
    have "n_child m = Some b \<longleftrightarrow> xs = []"
      using m(2) D by (cases xs) (auto simp: addrs_Node)
    then have s5: "(if n_child m = Some b then set_child (Some arr) (Some a) h4 else Some h4) = Some h5"
      using arr by (simp add: h5_def store_upd)
    have s6: "set_next (Some b) None h5 = Some h6" "set_prev (Some b) None h6 = Some h7"
      using b(2) b' by (simp_all add: h6_def h7_def store_upd)
    have "linked h7 None [x] None" "distinct (foot [x])"
      using b'' n(4,5) 7(4) D by (auto simp: x addrs_Node)
    then have s7: "delete_nodes (Some b) h7 = Some ?h"
      using delete_list [of h7 None "[x]"] by (simp add: x)
    show ?thesis
      using n(1-3) b(1) a(2) a'(1) arr s1 s3 s4 s5 s6 s7 ne
      by (simp add: ReplaceItemViaPointer_def load_def x s P_def [symmetric] Q_def [symmetric]
          del: not_None_eq split del: if_split cong: if_cong)
  qed
  ultimately show ?thesis
    by blast
qed


section \<open>Edits of a list\<close>

text \<open>
  The operations by index, as a client calls them, and the list operations they stand for.
\<close>

datatype edit = Append shape | Insert nat shape | Detach nat | Replace nat shape | Delete nat

fun run_edit :: "nat \<Rightarrow> edit \<Rightarrow> 'd heap \<Rightarrow> 'd heap option" where
  "run_edit arr (Append s) h = AddItemToArray (Some arr) (Some (addr s)) h"
| "run_edit arr (Insert i s) h = InsertItemInArray (Some arr) (int i) (Some (addr s)) h"
| "run_edit arr (Detach i) h = map_option fst (DetachItemFromArray (Some arr) (int i) h)"
| "run_edit arr (Replace i s) h = ReplaceItemInArray (Some arr) (int i) (Some (addr s)) h"
| "run_edit arr (Delete i) h = DeleteItemFromArray (Some arr) (int i) h"

fun list_edit :: "edit \<Rightarrow> shape list \<Rightarrow> shape list" where
  "list_edit (Append s) cs = cs @ [s]"
| "list_edit (Insert i s) cs = take i cs @ s # drop i cs"
| "list_edit (Detach i) cs = take i cs @ drop (i + 1) cs"
| "list_edit (Replace i s) cs = cs[i := s]"
| "list_edit (Delete i) cs = take i cs @ drop (i + 1) cs"

text \<open>An item that is put into the list is in none before.\<close>

fun new_item :: "edit \<Rightarrow> shape list" where
  "new_item (Append s) = [s]"
| "new_item (Insert i s) = [s]"
| "new_item (Replace i s) = [s]"
| "new_item _ = []"

definition fits :: "'d heap \<Rightarrow> nat \<Rightarrow> shape list \<Rightarrow> edit \<Rightarrow> bool" where
  "fits h arr cs e \<longleftrightarrow> list_all (alone h) (new_item e) \<and> distinct (arr # foot cs @ foot (new_item e))"

lemma addrs_child: "c \<in> set cs \<Longrightarrow> set (addrs c) \<subseteq> set (addrs (Node a cs))"
  by (auto simp: addrs.simps)

lemma tree_cong: "(\<And>a. a \<in> set (addrs s) \<Longrightarrow> h' a = h a) \<Longrightarrow> tree h' s = tree h s"
proof (induction s)
  case (Node a cs)
  have "tree h' c = tree h c" if "c \<in> set cs" for c
    by (rule Node.IH [OF that], rule Node.prems) (use that addrs_child [of c cs a] in blast)
  then have "map (tree h') cs = map (tree h) cs"
    by simp
  moreover have "h' a = h a"
    using Node.prems by (simp add: addrs_Node)
  ultimately show ?case
    by (simp cong: map_cong)
qed

lemma split_at: "i < length cs \<Longrightarrow> \<exists>xs x ys. cs = xs @ x # ys \<and> length xs = i \<and> x = cs ! i"
  by (metis id_take_nth_drop length_take less_imp_le min.absorb2)

definition edited :: "'d heap \<Rightarrow> nat \<Rightarrow> edit \<Rightarrow> shape list \<Rightarrow> 'd heap \<Rightarrow> bool" where
  "edited h arr e cs h' \<longleftrightarrow> holds_list h' arr (list_edit e cs) \<and>
     (\<forall>s \<in> set (list_edit e cs). tree h' s = tree h s) \<and>
     (\<forall>a. a \<notin> set (arr # foot cs @ foot (new_item e)) \<longrightarrow> h' a = h a) \<and>
     (\<forall>i. e = Detach i \<longrightarrow> i < length cs \<longrightarrow> alone h' (cs ! i) \<and> tree h' (cs ! i) = tree h (cs ! i)) \<and>
     (\<forall>i. e = Delete i \<longrightarrow> i < length cs \<longrightarrow> (\<forall>a \<in> set (addrs (cs ! i)). h' a = None))"

lemma edited_append:
  assumes "holds_list h arr cs" "fits h arr cs (Append s)"
  shows "\<exists>h'. run_edit arr (Append s) h = Some h' \<and> edited h arr (Append s) cs h'"
  using append_list [OF assms(1), of s] assms(2) by (auto simp: fits_def edited_def relinks_def)

lemma edited_insert:
  assumes "holds_list h arr cs" "fits h arr cs (Insert i s)"
  shows "\<exists>h'. run_edit arr (Insert i s) h = Some h' \<and> edited h arr (Insert i s) cs h'"
proof (cases "i < length cs")
  case True
  then obtain xs x ys where cs: "cs = xs @ x # ys" "length xs = i"
    using split_at by blast
  show ?thesis
    using insert_list [of h arr xs x ys s] assms cs by (auto simp: fits_def edited_def relinks_def)
next
  case False
  then have "node_at (Some arr) i h = Some None"
    using node_at_list [OF assms(1), of i] by simp
  then show ?thesis
    using append_list [OF assms(1), of s] assms(2) False
    by (auto simp: fits_def edited_def relinks_def InsertItemInArray_def)
qed

lemma edited_detach:
  assumes "holds_list h arr cs"
  shows "\<exists>h'. run_edit arr (Detach i) h = Some h' \<and> edited h arr (Detach i) cs h'"
proof (cases "i < length cs")
  case True
  then obtain xs x ys where cs: "cs = xs @ x # ys" "length xs = i"
    using split_at by blast
  have "node_at (Some arr) i h = Some (Some (addr x))"
    using node_at_list [OF assms, of i] cs by simp
  then show ?thesis
    using detach_list [of h arr xs x ys] assms cs
    by (auto simp: edited_def relinks_def DetachItemFromArray_def nth_append)
next
  case False
  then have "node_at (Some arr) i h = Some None"
    using node_at_list [OF assms, of i] by simp
  then show ?thesis
    using assms False by (auto simp: edited_def DetachItemFromArray_def DetachItemViaPointer_def)
qed

lemma edited_delete:
  assumes "holds_list h arr cs"
  shows "\<exists>h'. run_edit arr (Delete i) h = Some h' \<and> edited h arr (Delete i) cs h'"
proof (cases "i < length cs")
  case True
  then obtain xs x ys where cs: "cs = xs @ x # ys" "length xs = i" "x = cs ! i"
    using split_at by blast
  obtain h1 where h1: "DetachItemViaPointer (Some arr) (Some (addr x)) h = Some (h1, Some (addr x))"
      "holds_list h1 arr (xs @ ys)" "alone h1 x" "relinks (set (arr # foot (xs @ x # ys))) h h1"
    using detach_list [of h arr xs x ys] assms cs(1) by blast
  let ?h = "h1 |` (- set (addrs x))"
  have n: "node_at (Some arr) i h = Some (Some (addr x))"
    using node_at_list [OF assms, of i] cs(1,2) by simp
  have "delete_nodes (Some (addr x)) h1 = Some ?h"
    using delete_list [of h1 None "[x]"] h1(3) by (simp add: alone_def)
  then have run: "run_edit arr (Delete i) h = Some ?h"
    using n h1(1) by (simp add: DeleteItemFromArray_def DetachItemFromArray_def)
  have D: "distinct (arr # foot xs @ addrs x @ foot ys)"
    using assms cs(1) by (auto simp: holds_list_def)
  have f: "?h a = h1 a" if "a \<in> set (arr # foot (xs @ ys))" for a
  proof -
    have "a \<notin> set (addrs x)"
      using D that by auto
    then show ?thesis
      by simp
  qed
  have "holds_list ?h arr (xs @ ys)"
    using h1(2) f linked_cong [of "xs @ ys" ?h h1 None None] by (auto simp: holds_list_def simp del: linked_append)
  moreover have "tree ?h t = tree h t" if "t \<in> set (xs @ ys)" for t
  proof -
    have "tree ?h t = tree h1 t"
      by (rule tree_cong, rule f) (use that in \<open>auto simp: foot_def\<close>)
    then show ?thesis
      using h1(4) by (simp add: relinks_def)
  qed
  moreover have "?h a = h a" if "a \<notin> set (arr # foot cs)" for a
    using that h1(4) cs(1) by (simp add: relinks_def)
  moreover have "list_edit (Delete i) cs = xs @ ys" "cs ! i = x" "new_item (Delete i) = []"
    using cs(1,2) cs(3) [symmetric] by auto
  ultimately have "edited h arr (Delete i) cs ?h"
    unfolding edited_def by (intro conjI allI ballI impI) simp_all
  with run show ?thesis
    by blast
next
  case False
  then have "node_at (Some arr) i h = Some None"
    using node_at_list [OF assms, of i] by simp
  then show ?thesis
    using assms False
    by (auto simp: edited_def DeleteItemFromArray_def DetachItemFromArray_def DetachItemViaPointer_def delete_nodes.simps)
qed

lemma edited_replace:
  assumes "holds_list h arr cs" "fits h arr cs (Replace i s)"
  shows "\<exists>h'. run_edit arr (Replace i s) h = Some h' \<and> edited h arr (Replace i s) cs h'"
proof (cases "i < length cs")
  case True
  then obtain xs x ys where cs: "cs = xs @ x # ys" "length xs = i" "x = cs ! i"
    using split_at by blast
  obtain h1 where h1: "ReplaceItemViaPointer (Some arr) (Some (addr x)) (Some (addr s)) h
        = Some (True, h1 |` (- set (addrs x)))" "holds_list (h1 |` (- set (addrs x))) arr (xs @ s # ys)"
      "relinks (set (arr # foot (xs @ x # ys) @ addrs s)) h h1"
    using replace_list [of h arr xs x ys s] assms cs(1) by (auto simp: fits_def)
  let ?h = "h1 |` (- set (addrs x))"
  have n: "node_at (Some arr) i h = Some (Some (addr x))"
    using node_at_list [OF assms(1), of i] cs(1,2) by simp
  have run: "run_edit arr (Replace i s) h = Some ?h"
    using n h1(1) by (simp add: ReplaceItemInArray_def)
  have D: "distinct (arr # foot xs @ addrs x @ foot ys @ addrs s)"
    using assms(2) cs(1) by (auto simp: fits_def)
  have f: "?h a = h1 a" if "a \<in> set (foot (xs @ s # ys))" for a
  proof -
    have "a \<notin> set (addrs x)"
      using D that by auto
    then show ?thesis
      by simp
  qed
  have "tree ?h t = tree h t" if "t \<in> set (xs @ s # ys)" for t
  proof -
    have "tree ?h t = tree h1 t"
      by (rule tree_cong, rule f) (use that in \<open>auto simp: foot_def\<close>)
    then show ?thesis
      using h1(3) by (simp add: relinks_def)
  qed
  moreover have "?h a = h a" if "a \<notin> set (arr # foot cs @ addrs s)" for a
    using that h1(3) cs(1) by (simp add: relinks_def)
  moreover have "list_edit (Replace i s) cs = xs @ s # ys" "new_item (Replace i s) = [s]"
    using cs(1,2) by (auto simp: list_update_append)
  ultimately have "edited h arr (Replace i s) cs ?h"
    unfolding edited_def using h1(2) by (intro conjI allI ballI impI) simp_all
  with run show ?thesis
    by blast
next
  case False
  then have "node_at (Some arr) i h = Some None"
    using node_at_list [OF assms(1), of i] by simp
  moreover have "cs[i := s] = cs"
    using False by (auto intro: list_update_beyond)
  ultimately show ?thesis
    using assms(1) by (simp add: edited_def ReplaceItemInArray_def ReplaceItemViaPointer_def)
qed


section \<open>Children by name\<close>

lemma find_node_item:
  "linked h pv ss None \<Longrightarrow> those (map (tree h) ss) = Some ts \<Longrightarrow>
     (case find_item name case_sensitive ts of
        None \<Rightarrow> find_node name case_sensitive (first_of None ss) h = None
      | Some None \<Rightarrow> find_node name case_sensitive (first_of None ss) h = Some None
      | Some (Some t) \<Rightarrow> \<exists>i < length ss. ts ! i = t \<and>
          find_node name case_sensitive (first_of None ss) h = Some (Some (addr (ss ! i))))"
proof (induction ss arbitrary: pv ts)
  case Nil
  then show ?case
    by (simp add: find_node.simps)
next
  case (Cons s ss)
  obtain a cs where s: "s = Node a cs"
    by (cases s)
  obtain n where n: "h a = Some n" "n_next n = first_of None ss" "linked h (Some a) ss None"
    using Cons.prems(1) s by auto
  obtain t ts' where ts: "ts = t # ts'" "tree h s = Some t" "those (map (tree h) ss) = Some ts'"
    using Cons.prems(2) by (auto split: option.splits)
  have name: "i_string t = n_string n"
    using ts(2) s n(1) by (auto split: bind_splits)
  note IH = Cons.IH [OF n(3) ts(3)]
  define found where "found = (if case_sensitive then map_option (\<lambda>s. name = s) (n_string n)
    else Some (case_insensitive_strcmp (Some name) (n_string n) = 0))"
  have f: "find_node name case_sensitive (first_of None (s # ss)) h = do {
      found \<leftarrow> found;
      if found then Some (Some a) else find_node name case_sensitive (first_of None ss) h }"
    using n(1,2) s by (subst find_node.simps) (simp add: found_def cong: if_cong)
  have g: "find_item name case_sensitive ts = do {
      found \<leftarrow> found;
      if found then Some (Some t) else find_item name case_sensitive ts' }"
    by (auto simp: ts(1) found_def name split: option.splits)
  show ?case
  proof (cases found)
    case None
    then show ?thesis
      unfolding f g by simp
  next
    case (Some b)
    show ?thesis
    proof (cases b)
      case True
      then have q: "find_node name case_sensitive (first_of None (s # ss)) h = Some (Some (addr ((s # ss) ! 0)))"
          "find_item name case_sensitive ts = Some (Some t)" "ts ! 0 = t"
        using Some f g s ts(1) by simp_all
      show ?thesis
        unfolding q(1,2) option.case by (intro exI [of _ 0]) (simp add: q(3))
    next
      case False
      then have e: "find_node name case_sensitive (first_of None (s # ss)) h = find_node name case_sensitive (first_of None ss) h"
          "find_item name case_sensitive ts = find_item name case_sensitive ts'"
        using Some f g by simp_all
      show ?thesis
      proof (cases "find_item name case_sensitive ts'")
        case None
        then show ?thesis
          unfolding e using IH by simp
      next
        case (Some r)
        show ?thesis
        proof (cases r)
          case None
          then show ?thesis
            unfolding e using IH Some by simp
        next
          case t: (Some u)
          then obtain i where "i < length ss" "ts' ! i = u"
              "find_node name case_sensitive (first_of None ss) h = Some (Some (addr (ss ! i)))"
            using IH Some by auto
          then show ?thesis
            unfolding e Some t option.case by (intro exI [of _ "Suc i"]) (simp add: ts(1))
        qed
      qed
    qed
  qed
qed

lemma detach_by_name:
  assumes "holds_list h ob cs" "those (map (tree h) cs) = Some ts"
    and "find_item name case_sensitive ts = Some (Some t)"
  shows "\<exists>i h'. i < length cs \<and> ts ! i = t \<and>
    DetachItemFromObject case_sensitive (Some ob) (Some name) h = Some (h', Some (addr (cs ! i))) \<and>
    holds_list h' ob (take i cs @ drop (i + 1) cs) \<and> alone h' (cs ! i) \<and> relinks (set (ob # foot cs)) h h'"
proof -
  obtain m where m: "h ob = Some m" "n_child m = first_of None cs" "linked h None cs None"
    using assms(1) by (auto simp: holds_list_def)
  obtain i where i: "i < length cs" "ts ! i = t"
      "find_node name case_sensitive (first_of None cs) h = Some (Some (addr (cs ! i)))"
    using find_node_item [OF m(3) assms(2), of name case_sensitive] assms(3) by auto
  obtain xs x ys where cs: "cs = xs @ x # ys" "length xs = i" "x = cs ! i"
    using split_at [OF i(1)] by blast
  have "take i cs @ drop (i + 1) cs = xs @ ys"
    using cs(1,2) by auto
  moreover obtain h' where h': "DetachItemViaPointer (Some ob) (Some (addr x)) h = Some (h', Some (addr x))"
      "holds_list h' ob (xs @ ys)" "alone h' x" "relinks (set (ob # foot cs)) h h'"
    using detach_list [of h ob xs x ys] assms(1) unfolding cs(1) by blast
  moreover have "DetachItemFromObject case_sensitive (Some ob) (Some name) h = Some (h', Some (addr x))"
    using h'(1) i(3) m(1,2) cs(3) by (simp add: DetachItemFromObject_def node_named_def)
  ultimately show ?thesis
    using i(1,2) cs(3) by (intro exI [of _ i] exI [of _ h']) simp
qed

section \<open>Properties\<close>

text \<open>
  C29: on a well-formed list the operations by index (append, insert, detach, replace, delete) follow
  no null or freed pointer and end; they leave a list, linked in both directions, of the items the
  list operation says, with their values unchanged, and change no node outside it; a detached item
  stands alone and keeps its value, a deleted one is freed with everything below it.
\<close>

theorem edits_refine_lists:
  assumes "holds_list h arr cs" "fits h arr cs e"
  shows "\<exists>h'. run_edit arr e h = Some h' \<and> holds_list h' arr (list_edit e cs) \<and>
    map (tree h') (list_edit e cs) = map (tree h) (list_edit e cs) \<and>
    (\<forall>a. a \<notin> set (arr # foot cs @ foot (new_item e)) \<longrightarrow> h' a = h a) \<and>
    (\<forall>i < length cs. e = Detach i \<longrightarrow> alone h' (cs ! i) \<and> tree h' (cs ! i) = tree h (cs ! i)) \<and>
    (\<forall>i < length cs. e = Delete i \<longrightarrow> (\<forall>a \<in> set (addrs (cs ! i)). h' a = None))"
proof -
  have "\<exists>h'. run_edit arr e h = Some h' \<and> edited h arr e cs h'"
    by (cases e)
      (use assms edited_append edited_insert edited_detach edited_replace edited_delete in metis)+
  then show ?thesis
    unfolding edited_def by (auto simp del: foot_simps)
qed

definition sample_node :: "ptr \<Rightarrow> ptr \<Rightarrow> ptr \<Rightarrow> u32 \<Rightarrow> int node" where
  "sample_node pv nx ch ty = \<lparr>n_next = nx, n_prev = pv, n_child = ch, n_type = ty, n_valuestring = None,
     n_valueint = 0, n_valuedouble = 0, n_string = None\<rparr>"

definition sample_heap :: "int heap" where
  "sample_heap = [0 \<mapsto> sample_node None None (Some 1) 32, 1 \<mapsto> sample_node None (Some 2) None 2,
     2 \<mapsto> sample_node (Some 1) None (Some 3) 32, 3 \<mapsto> sample_node None None None 4, 4 \<mapsto> sample_node None None None 1]"

theorem edits_refine_lists_witness:
  "\<exists>h'. run_edit 0 (Replace 1 (Node 4 [])) sample_heap = Some h' \<and> holds_list h' 0 [Node 1 [], Node 4 []]"
proof -
  let ?cs = "[Node 1 [], Node 2 [Node 3 []]]"
  have "holds_list sample_heap 0 ?cs"
    by (simp add: holds_list_def sample_heap_def sample_node_def addrs.simps is_reference_def cjson_types)
  moreover have "fits sample_heap 0 ?cs (Replace 1 (Node 4 []))"
    by (simp add: fits_def alone_def sample_heap_def sample_node_def addrs.simps is_reference_def cjson_types)
  ultimately show ?thesis
    using edits_refine_lists [of sample_heap 0 ?cs "Replace 1 (Node 4 [])"] by auto
qed

end
