(* ===== verification/Log_Stream.thy ===== *)
theory Log_Stream
  imports Decimal "HOL-Library.Signed_Division"
begin

text \<open>
  The line a \<open>Logger\<close> makes (\<^verbatim>\<open>src/src/fixed-buffer.h\<close>, \<^verbatim>\<open>src/src/log-stream.h\<close>,
  \<^verbatim>\<open>src/src/log-stream.cc\<close>, \<^verbatim>\<open>src/src/logging.cc\<close>): a buffer on its stack that drops what does not
  fit, and the conversion of integers into it.
\<close>

section \<open>The buffer\<close>

text \<open>
  \<open>fb_text\<close> is what stands between \<open>data_\<close> and \<open>cur_\<close>; nothing behind it is ever read.  A write
  behind the array is \<open>None\<close>.
\<close>

record FixedBuffer =
  fb_size :: nat
  fb_text :: bytes

definition kSmallBuffer :: nat where "kSmallBuffer = 4000"
definition kLargeBuffer :: nat where "kLargeBuffer = 4000 * 1000"

definition new_FixedBuffer :: "nat \<Rightarrow> FixedBuffer" where
  "new_FixedBuffer n = \<lparr>fb_size = n, fb_text = []\<rparr>"

definition avail :: "FixedBuffer \<Rightarrow> int" where
  "avail b = int (fb_size b) - int (length (fb_text b))"

definition fb_reset :: "FixedBuffer \<Rightarrow> FixedBuffer" where
  "fb_reset b = b\<lparr>fb_text := []\<rparr>"

text \<open>A \<open>size_t\<close> as an \<open>int\<close>.\<close>

definition to_int :: "nat \<Rightarrow> int" where
  "to_int n = sint (word_of_nat n :: 32 word)"

definition fb_append :: "bytes \<Rightarrow> FixedBuffer \<Rightarrow> FixedBuffer option" where
  "fb_append buf b =
     (if to_int (length buf) < avail b then
        if length (fb_text b) + length buf \<le> fb_size b then Some (b\<lparr>fb_text := fb_text b @ buf\<rparr>) else None
      else Some b)"

section \<open>Integers\<close>

definition digits :: bytes where
  "digits = s2b ''9876543210123456789''"

text \<open>\<open>zero[lsd]\<close>, where \<open>zero\<close> points to the middle of \<open>digits\<close> and \<open>lsd\<close> has the sign of the value.\<close>

definition zero_at :: "int \<Rightarrow> byte option" where
  "zero_at lsd = (if 0 \<le> 9 + lsd then get digits (nat (9 + lsd)) else None)"

function convert_loop :: "int \<Rightarrow> bytes option" where
  "convert_loop i = do {
     c \<leftarrow> zero_at (i smod 10);
     if i sdiv 10 = 0 then Some [c]
     else do { cs \<leftarrow> convert_loop (i sdiv 10); Some (c # cs) } }"
  by pat_completeness auto
termination
  by (relation "measure (\<lambda>i. nat \<bar>i\<bar>)") (auto simp: signed_divide_int_def sgn_if)

text \<open>The characters before the terminator, which the caller's array must have room for as well.\<close>

definition convert :: "int \<Rightarrow> bytes option" where
  "convert value = do {
     cs \<leftarrow> convert_loop value;
     Some (rev (cs @ (if value < 0 then [45] else []))) }"

definition kMaxNumericSize :: int where "kMaxNumericSize = 32"

definition formatInteger :: "int \<Rightarrow> FixedBuffer \<Rightarrow> FixedBuffer option" where
  "formatInteger v b =
     (if kMaxNumericSize \<le> avail b then do {
        cs \<leftarrow> convert v;
        if length (fb_text b) + length cs + 1 \<le> fb_size b then Some (b\<lparr>fb_text := fb_text b @ cs\<rparr>) else None }
      else Some b)"

section \<open>The stream\<close>

text \<open>
  What the operators write: \<open>LDouble\<close> holds the text \<open>snprintf\<close> makes of a number, of which it writes
  at most 31 characters.
\<close>

datatype item = LBool bool | LInteger int | LChar byte | LCstr "bytes option" | LString bytes | LDouble bytes

definition formatDouble :: "bytes \<Rightarrow> FixedBuffer \<Rightarrow> FixedBuffer option" where
  "formatDouble t b =
     (if kMaxNumericSize \<le> avail b then
        if length t < 32 then Some (b\<lparr>fb_text := fb_text b @ t\<rparr>) else None
      else Some b)"

fun put :: "item \<Rightarrow> FixedBuffer \<Rightarrow> FixedBuffer option" where
  "put (LBool v) b = fb_append (s2b (if v then ''true '' else ''false'')) b"
| "put (LInteger v) b = formatInteger v b"
| "put (LChar v) b = fb_append [v] b"
| "put (LCstr str) b = fb_append (case str of Some s \<Rightarrow> s | None \<Rightarrow> s2b ''(null)'') b"
| "put (LString v) b = fb_append v b"
| "put (LDouble t) b = formatDouble t b"

fun put_all :: "item list \<Rightarrow> FixedBuffer \<Rightarrow> FixedBuffer option" where
  "put_all [] b = Some b"
| "put_all (i # is) b = do { b \<leftarrow> put i b; put_all is b }"

section \<open>A line\<close>

text \<open>\<open>t\<close> is the text of the date that \<open>sprintf\<close> writes into an array of 28 characters.\<close>

definition formatTime :: "bytes \<Rightarrow> FixedBuffer \<Rightarrow> FixedBuffer option" where
  "formatTime t b = (if length t \<le> 27 then put (LCstr (Some (t @ replicate (27 - length t) 48))) b else None)"

text \<open>The life of a \<open>Logger\<close>: construction, the items streamed to it, destruction.  The result is the line.\<close>

definition log_line :: "bytes \<Rightarrow> bytes \<Rightarrow> int \<Rightarrow> item list \<Rightarrow> bytes option" where
  "log_line time fileName line items = do {
     b \<leftarrow> formatTime time (new_FixedBuffer kSmallBuffer);
     b \<leftarrow> put_all items b;
     b \<leftarrow> put_all [LCstr (Some (s2b '' -- '')), LString fileName, LChar 58, LInteger line, LChar LF] b;
     Some (fb_text b) }"


section \<open>Integers as decimal texts\<close>

lemma zero_at_digit: "\<bar>d\<bar> < 10 \<Longrightarrow> zero_at d = Some (word_of_nat (48 + nat \<bar>d\<bar>))"
proof -
  assume "\<bar>d\<bar> < 10"
  then have "d \<in> set [-9..9]"
    by auto
  moreover have "\<forall>d \<in> set [-9..9]. zero_at d = Some (word_of_nat (48 + nat \<bar>d\<bar>))"
    by code_simp
  ultimately show ?thesis
    by blast
qed

declare convert_loop.simps [simp del]

lemma convert_loop_digits: "convert_loop i = Some (rev (dec_nat (nat \<bar>i\<bar>)))"
proof (induction i rule: convert_loop.induct)
  case (1 i)
  have m: "\<bar>i smod 10\<bar> = \<bar>i\<bar> mod 10" "i sdiv 10 = 0 \<longleftrightarrow> \<bar>i\<bar> < 10" "\<bar>i sdiv 10\<bar> = \<bar>i\<bar> div 10"
    by (auto simp: signed_modulo_int_def signed_divide_int_def sgn_if abs_mult abs_if)
  have z: "zero_at (i smod 10) = Some (word_of_nat (48 + nat \<bar>i\<bar> mod 10))"
    using zero_at_digit [of "i smod 10"] m(1) by (simp add: nat_mod_distrib)
  have n: "nat (\<bar>i\<bar> div 10) = nat \<bar>i\<bar> div 10" "nat \<bar>i\<bar> < 10 \<longleftrightarrow> \<bar>i\<bar> < 10"
    by (simp_all add: nat_div_distrib nat_less_iff)
  show ?case
    using 1 [OF z] z m n by (subst convert_loop.simps, subst dec_nat.simps) auto
qed

lemma convert_dec_int: "convert v = Some (dec_int v)"
  by (simp add: convert_def convert_loop_digits dec_int_def)

lemma dec_int_length: "- (2 ^ 63) \<le> v \<Longrightarrow> v < 2 ^ 64 \<Longrightarrow> length (dec_int v) \<le> 20"
  using length_dec_nat [of "nat (- v)" 19] length_dec_nat [of "nat v" 20]
  by (auto simp: dec_int_def nat_less_iff)

section \<open>Every line fits\<close>

definition fb_ok :: "nat \<Rightarrow> FixedBuffer \<Rightarrow> bool" where
  "fb_ok n b \<longleftrightarrow> fb_size b = n \<and> length (fb_text b) < n"

text \<open>Texts the library can measure with an \<open>int\<close>, and integers of at most 64 bits.\<close>

fun item_ok :: "item \<Rightarrow> bool" where
  "item_ok (LInteger v) \<longleftrightarrow> - (2 ^ 63) \<le> v \<and> v < 2 ^ 64"
| "item_ok (LCstr (Some s)) \<longleftrightarrow> length s < 2 ^ 31"
| "item_ok (LString s) \<longleftrightarrow> length s < 2 ^ 31"
| "item_ok (LDouble t) \<longleftrightarrow> length t < 32"
| "item_ok _ \<longleftrightarrow> True"

text \<open>What an item leaves in a buffer with enough room.\<close>

fun item_text :: "item \<Rightarrow> bytes" where
  "item_text (LBool v) = s2b (if v then ''true '' else ''false'')"
| "item_text (LInteger v) = dec_int v"
| "item_text (LChar v) = [v]"
| "item_text (LCstr str) = (case str of Some s \<Rightarrow> s | None \<Rightarrow> s2b ''(null)'')"
| "item_text (LString v) = v"
| "item_text (LDouble t) = t"

lemma to_int_small: "n < 2 ^ 31 \<Longrightarrow> to_int n = int n"
  by (simp add: to_int_def sint_uint unsigned_of_nat take_bit_nat_eq_self signed_take_bit_int_eq_self)

definition appends :: "nat \<Rightarrow> bytes \<Rightarrow> FixedBuffer \<Rightarrow> FixedBuffer \<Rightarrow> bool" where
  "appends n t b b' \<longleftrightarrow> fb_ok n b' \<and> (fb_text b' = fb_text b @ t \<or> fb_text b' = fb_text b) \<and>
     (length (fb_text b) + length t + 32 < n \<longrightarrow> fb_text b' = fb_text b @ t)"

lemma fb_append_ok:
  "fb_ok n b \<Longrightarrow> length t < 2 ^ 31 \<Longrightarrow> \<exists>b'. fb_append t b = Some b' \<and> appends n t b b'"
  by (auto simp: fb_append_def to_int_small avail_def fb_ok_def appends_def)

lemma put_ok: "fb_ok n b \<Longrightarrow> item_ok i \<Longrightarrow> \<exists>b'. put i b = Some b' \<and> appends n (item_text i) b b'"
proof (cases i)
  case (LInteger v)
  assume "fb_ok n b" "item_ok i"
  then show ?thesis
    using dec_int_length [of v] LInteger
    by (auto simp: formatInteger_def convert_dec_int kMaxNumericSize_def avail_def fb_ok_def appends_def)
next
  case (LDouble t)
  assume "fb_ok n b" "item_ok i"
  then show ?thesis
    using LDouble by (auto simp: formatDouble_def kMaxNumericSize_def avail_def fb_ok_def appends_def)
next
  case (LCstr s)
  assume "fb_ok n b" "item_ok i"
  then show ?thesis
    using LCstr by (cases s) (auto intro!: fb_append_ok)
qed (auto intro!: fb_append_ok)

lemma put_all_ok:
  "fb_ok n b \<Longrightarrow> list_all item_ok is \<Longrightarrow>
     \<exists>b' ts. put_all is b = Some b' \<and> fb_ok n b' \<and> fb_text b' = fb_text b @ concat ts \<and>
       list_all2 (\<lambda>i t. t = item_text i \<or> t = []) is ts \<and>
       (length (fb_text b) + length (concat (map item_text is)) + 32 < n \<longrightarrow> ts = map item_text is)"
proof (induction "is" arbitrary: b)
  case (Cons i "is")
  obtain b1 where b1: "put i b = Some b1" "appends n (item_text i) b b1"
    using put_ok [of n b i] Cons.prems by auto
  obtain b2 ts where b2: "put_all is b1 = Some b2" "fb_ok n b2" "fb_text b2 = fb_text b1 @ concat ts"
      "list_all2 (\<lambda>i t. t = item_text i \<or> t = []) is ts"
      "length (fb_text b1) + length (concat (map item_text is)) + 32 < n \<longrightarrow> ts = map item_text is"
    using Cons.IH [of b1] Cons.prems(2) b1(2) by (auto simp: appends_def)
  obtain t where t: "fb_text b1 = fb_text b @ t" "t = item_text i \<or> t = []"
      "length (fb_text b) + length (item_text i) + 32 < n \<Longrightarrow> t = item_text i"
    using b1(2) by (auto simp: appends_def)
  show ?case
    using b1(1) b2 t by (intro exI [of _ b2] exI [of _ "t # ts"]) auto
qed simp


lemma put_all_append: "put_all (xs @ ys) = (\<lambda>b. do { b \<leftarrow> put_all xs b; put_all ys b })"
proof
  show "put_all (xs @ ys) b = do { b \<leftarrow> put_all xs b; put_all ys b }" for b
    by (induction xs arbitrary: b) (auto split: bind_splits)
qed

section \<open>Properties\<close>

text \<open>
  The conversion of integers, with the remainders of C++ that take the sign of the value and a
  table read from its middle, writes their decimal text, the least integers of each width included.
\<close>

theorem convert_decimal: "convert v = Some (dec_int v)"
  by (rule convert_dec_int)

text \<open>What a line consists of: the date, what is streamed, and the place in the source.\<close>

definition line_items :: "bytes \<Rightarrow> bytes \<Rightarrow> int \<Rightarrow> item list \<Rightarrow> item list" where
  "line_items time fileName line items = LCstr (Some (time @ replicate (27 - length time) 48)) #
     items @ [LCstr (Some (s2b '' -- '')), LString fileName, LChar 58, LInteger line, LChar LF]"

text \<open>
  C40: whatever is streamed to a logger, the line stays inside its buffer and is shorter than 4000
  bytes; each of its items, the date and the place in the source among them, is in it whole or not at
  all, in order, and all of them are when there is room.
\<close>

theorem log_line_fits:
  assumes "length time \<le> 27" "length fileName < 2 ^ 31" "- (2 ^ 31) \<le> line" "line < 2 ^ 31" "list_all item_ok items"
  shows "\<exists>ts. log_line time fileName line items = Some (concat ts) \<and> length (concat ts) < kSmallBuffer \<and>
    list_all2 (\<lambda>i t. t = item_text i \<or> t = []) (line_items time fileName line items) ts \<and>
    (27 + length (concat (map item_text items)) + length fileName < 3900 \<longrightarrow>
      concat ts = time @ replicate (27 - length time) 48 @ concat (map item_text items) @ s2b '' -- '' @ fileName
        @ [58] @ dec_int line @ [LF])"
proof -
  let ?date = "time @ replicate (27 - length time) 48"
  let ?tail = "[LCstr (Some (s2b '' -- '')), LString fileName, LChar 58, LInteger line, LChar LF]"
  have "fb_ok kSmallBuffer (new_FixedBuffer kSmallBuffer)"
    by (simp add: fb_ok_def new_FixedBuffer_def kSmallBuffer_def)
  moreover have "list_all item_ok (LCstr (Some ?date) # items @ ?tail)"
    using assms by simp
  ultimately obtain b ts where b: "put_all (LCstr (Some ?date) # items @ ?tail) (new_FixedBuffer kSmallBuffer) = Some b"
      "fb_ok kSmallBuffer b" "fb_text b = fb_text (new_FixedBuffer kSmallBuffer) @ concat ts"
      "length (fb_text (new_FixedBuffer kSmallBuffer)) + length (concat (map item_text (LCstr (Some ?date) # items @ ?tail))) + 32
        < kSmallBuffer \<longrightarrow> ts = map item_text (LCstr (Some ?date) # items @ ?tail)"
      "list_all2 (\<lambda>i t. t = item_text i \<or> t = []) (LCstr (Some ?date) # items @ ?tail) ts"
    using put_all_ok by meson
  have "put_all (LCstr (Some ?date) # items @ e) b0 = do {
      b \<leftarrow> formatTime time b0; b \<leftarrow> put_all items b; put_all e b }" for e b0
    using assms(1) by (simp only: put_all.simps(2) put_all_append formatTime_def if_True)
  then have "log_line time fileName line items = Some (fb_text b)"
    using b(1) unfolding log_line_def by (auto split: bind_splits)
  moreover have "length (dec_int line) \<le> 20"
    using assms(3,4) by (intro dec_int_length) simp_all
  moreover have "fb_text b = concat ts" "length (fb_text b) < kSmallBuffer"
    using b(2,3) by (simp_all add: fb_ok_def new_FixedBuffer_def)
  ultimately show ?thesis
    using b(4,5) assms(1) by (intro exI [of _ ts]) (simp add: line_items_def new_FixedBuffer_def kSmallBuffer_def)
qed

theorem log_line_fits_witness:
  "\<exists>ts. log_line (s2b ''2020-06-13'') (s2b ''a.cc'') 7 [LInteger (-12), LBool True] = Some (concat ts) \<and>
    concat ts = s2b ''2020-06-13'' @ replicate 17 48 @ s2b ''-12true  -- a.cc:7'' @ [LF]"
proof -
  have dec: "dec_int (-12) = s2b ''-12''" "dec_int 7 = s2b ''7''"
    by (simp_all add: dec_int_def dec_nat.simps)
  then have "length (concat (map item_text [LInteger (-12), LBool True])) = 8"
    by simp
  then show ?thesis
    using log_line_fits [of "s2b ''2020-06-13''" "s2b ''a.cc''" 7 "[LInteger (-12), LBool True]"] dec
    by auto
qed

end
