(* ===== verification/Async_Log.thy ===== *)
theory Async_Log
  imports Log_Stream
begin

text \<open>
  The asynchronous log (\<^verbatim>\<open>src/src/async-logging.cc\<close>, \<^verbatim>\<open>src/src/log-file.cc\<close>,
  \<^verbatim>\<open>src/src/log-util.cc\<close>): the threads of the program append lines to a buffer under a mutex, and
  a thread of its own swaps the full buffers for empty ones and writes them to the file.  The steps
  are the critical sections of the mutex and what the thread does between them.
\<close>

section \<open>The file\<close>

text \<open>
  \<open>fp_text\<close> is what the stream has taken, \<open>fp_results\<close> has the result of every coming
  \<open>fwrite_unlocked\<close>, the number of bytes it takes; where the list ends the calls take everything.
\<close>

record AppendFile =
  fp_text :: bytes
  fp_flushed :: nat
  fp_results :: "nat list"

definition file_write :: "bytes \<Rightarrow> AppendFile \<Rightarrow> nat \<times> AppendFile" where
  "file_write logline f = (case fp_results f of
     [] \<Rightarrow> (length logline, f\<lparr>fp_text := fp_text f @ logline\<rparr>)
   | n # ns \<Rightarrow> (min n (length logline), f\<lparr>fp_text := fp_text f @ take n logline, fp_results := ns\<rparr>))"

text \<open>The loop of \<open>append\<close> over what remains; it gives up when a call takes nothing.\<close>

function write_rest :: "bytes \<Rightarrow> AppendFile \<Rightarrow> AppendFile" where
  "write_rest logline f =
     (if logline = [] then f
      else let (x, f) = file_write logline f in if x = 0 then f else write_rest (drop x logline) f)"
  by pat_completeness auto
termination
  by (relation "measure (\<lambda>(logline, f). length logline)") auto

definition file_append :: "bytes \<Rightarrow> AppendFile \<Rightarrow> AppendFile" where
  "file_append logline f = (let (n, f) = file_write logline f in write_rest (drop n logline) f)"

definition file_flush :: "AppendFile \<Rightarrow> AppendFile" where
  "file_flush f = f\<lparr>fp_flushed := length (fp_text f)\<rparr>"

record LogFile =
  lf_every :: nat
  lf_count :: nat
  lf_file :: AppendFile

definition append_unlocked :: "bytes \<Rightarrow> LogFile \<Rightarrow> LogFile" where
  "append_unlocked logline l =
     (let l = l\<lparr>lf_file := file_append logline (lf_file l), lf_count := lf_count l + 1\<rparr>
      in if lf_every l \<le> lf_count l then l\<lparr>lf_count := 0, lf_file := file_flush (lf_file l)\<rparr> else l)"

definition log_flush :: "LogFile \<Rightarrow> LogFile" where
  "log_flush l = l\<lparr>lf_file := file_flush (lf_file l)\<rparr>"

section \<open>State\<close>

text \<open>
  Where the thread is: at the test of \<open>running_\<close>, in the wait of its critical section, with buffers
  to write, or at its end.  A pointer to a buffer is the buffer, or \<open>None\<close> when it was moved from.
\<close>

datatype log_phase = Checking | Waiting | Writing "FixedBuffer list" | Finished

record AsyncLogging =
  al_running :: bool
  al_current :: "FixedBuffer option"
  al_next :: "FixedBuffer option"
  al_buffers :: "FixedBuffer list"
  al_phase :: log_phase
  al_new1 :: "FixedBuffer option"
  al_new2 :: "FixedBuffer option"
  al_output :: LogFile

definition new_AsyncLogging :: "nat list \<Rightarrow> AsyncLogging" where
  "new_AsyncLogging results = \<lparr>al_running = True,
     al_current = Some (new_FixedBuffer kLargeBuffer), al_next = Some (new_FixedBuffer kLargeBuffer), al_buffers = [],
     al_phase = Checking,
     al_new1 = Some (new_FixedBuffer kLargeBuffer), al_new2 = Some (new_FixedBuffer kLargeBuffer),
     al_output = \<lparr>lf_every = 1024, lf_count = 0, lf_file = \<lparr>fp_text = [], fp_flushed = 0, fp_results = results\<rparr>\<rparr>\<rparr>"

section \<open>Appending\<close>

definition log_append :: "bytes \<Rightarrow> AsyncLogging \<Rightarrow> AsyncLogging option" where
  "log_append logline s = do {
     current \<leftarrow> al_current s;
     if to_int (length logline) < avail current then do {
       current \<leftarrow> fb_append logline current;
       Some (s\<lparr>al_current := Some current\<rparr>) }
     else do {
       let s = s\<lparr>al_buffers := al_buffers s @ [current], al_current := None\<rparr>;
       let s = (case al_next s of
           Some b \<Rightarrow> s\<lparr>al_current := Some b, al_next := None\<rparr>
         | None \<Rightarrow> s\<lparr>al_current := Some (new_FixedBuffer kLargeBuffer)\<rparr>);
       current \<leftarrow> al_current s;
       current \<leftarrow> fb_append logline current;
       Some (s\<lparr>al_current := Some current\<rparr>) } }"

definition log_stop :: "AsyncLogging \<Rightarrow> AsyncLogging" where
  "log_stop s = s\<lparr>al_running := False\<rparr>"

section \<open>The thread\<close>

text \<open>The critical section after its wait.  \<open>None\<close> is a null buffer.\<close>

definition swap_buffers :: "AsyncLogging \<Rightarrow> AsyncLogging option" where
  "swap_buffers s = do {
     current \<leftarrow> al_current s;
     let buffersToWrite = al_buffers s @ [current];
     let s = s\<lparr>al_buffers := [], al_current := al_new1 s, al_new1 := None\<rparr>;
     let s = (if al_next s = None then s\<lparr>al_next := al_new2 s, al_new2 := None\<rparr> else s);
     Some (s\<lparr>al_phase := Writing buffersToWrite\<rparr>) }"

definition dropped_message :: "nat \<Rightarrow> bytes" where
  "dropped_message n = s2b ''Dropped log messages, '' @ dec_nat n @ s2b '' larger buffers'' @ [LF]"

fun write_buffers :: "FixedBuffer list \<Rightarrow> LogFile \<Rightarrow> LogFile" where
  "write_buffers [] l = l"
| "write_buffers (b # bs) l = write_buffers bs (append_unlocked (fb_text b) l)"

text \<open>
  A buffer for \<open>newBuffer1\<close> or \<open>newBuffer2\<close> from the end of those written, with the assertion that
  there is one.
\<close>

definition refill :: "FixedBuffer option \<Rightarrow> FixedBuffer list \<Rightarrow> (FixedBuffer option \<times> FixedBuffer list) option" where
  "refill newBuffer buffersToWrite = (case newBuffer of
     Some b \<Rightarrow> Some (Some b, buffersToWrite)
   | None \<Rightarrow> if buffersToWrite = [] then None
       else Some (Some (fb_reset (last buffersToWrite)), butlast buffersToWrite))"

definition write_and_refill :: "FixedBuffer list \<Rightarrow> AsyncLogging \<Rightarrow> AsyncLogging option" where
  "write_and_refill buffersToWrite s =
     (if buffersToWrite = [] then None
      else do {
        let n = length buffersToWrite;
        let (output, buffersToWrite) = (if 25 < n
          then (append_unlocked (dropped_message (n - 2)) (al_output s), take 2 buffersToWrite)
          else (al_output s, buffersToWrite));
        let output = write_buffers buffersToWrite output;
        let buffersToWrite = take 2 buffersToWrite;
        (new1, buffersToWrite) \<leftarrow> refill (al_new1 s) buffersToWrite;
        (new2, buffersToWrite) \<leftarrow> refill (al_new2 s) buffersToWrite;
        Some (s\<lparr>al_new1 := new1, al_new2 := new2, al_output := log_flush output, al_phase := Checking\<rparr>) })"

text \<open>A buffer that was reset, as the assertions at the head of the loop ask for.\<close>

definition is_reset :: "FixedBuffer option \<Rightarrow> bool" where
  "is_reset b \<longleftrightarrow> (case b of None \<Rightarrow> False | Some b \<Rightarrow> fb_text b = [])"

definition log_step :: "AsyncLogging \<Rightarrow> AsyncLogging option" where
  "log_step s = (case al_phase s of
     Checking \<Rightarrow>
       if \<not> al_running s then Some (s\<lparr>al_output := log_flush (al_output s), al_phase := Finished\<rparr>)
       else if \<not> is_reset (al_new1 s) \<or> \<not> is_reset (al_new2 s) then None
       else if al_buffers s = [] then Some (s\<lparr>al_phase := Waiting\<rparr>)
       else swap_buffers s
   | Waiting \<Rightarrow> swap_buffers s
   | Writing bs \<Rightarrow> write_and_refill bs s
   | Finished \<Rightarrow> Some s)"

section \<open>Runs\<close>

text \<open>
  What the calls take of a text: the first may take nothing, a later one that takes nothing ends the
  attempt (\<open>None\<close>); otherwise the results of the calls to come.
\<close>

fun rest_whole :: "nat \<Rightarrow> nat list \<Rightarrow> nat list option" where
  "rest_whole n [] = Some []"
| "rest_whole n (k # ks) = (if n = 0 then Some (k # ks) else if k = 0 then None else rest_whole (n - min k n) ks)"

fun append_whole :: "nat \<Rightarrow> nat list \<Rightarrow> nat list option" where
  "append_whole n [] = Some []"
| "append_whole n (k # ks) = rest_whole (n - min k n) ks"

fun buffers_whole :: "FixedBuffer list \<Rightarrow> nat list \<Rightarrow> nat list option" where
  "buffers_whole [] ks = Some ks"
| "buffers_whole (b # bs) ks = do { ks \<leftarrow> append_whole (length (fb_text b)) ks; buffers_whole bs ks }"

definition buffered :: "AsyncLogging \<Rightarrow> bytes" where
  "buffered s = concat (map fb_text (al_buffers s)) @ (case al_current s of Some b \<Rightarrow> fb_text b | None \<Rightarrow> [])"

text \<open>The thread falls behind by more than 25 buffers, of which it then keeps two.\<close>

definition overrun :: "AsyncLogging \<Rightarrow> bool" where
  "overrun s \<longleftrightarrow> (case al_phase s of Writing bs \<Rightarrow> 25 < length bs | _ \<Rightarrow> False)"

text \<open>The steps that lose something: that, a failure of the file, and the end with something buffered.\<close>

definition loses :: "AsyncLogging \<Rightarrow> bool" where
  "loses s \<longleftrightarrow> overrun s \<or> (case al_phase s of
     Writing bs \<Rightarrow> buffers_whole bs (fp_results (lf_file (al_output s))) = None
   | Checking \<Rightarrow> \<not> al_running s \<and> buffered s \<noteq> []
   | _ \<Rightarrow> False)"

text \<open>
  The states the log can be in, with the lines appended so far, in their order, and whether something
  was lost: by one of these steps, or by an append after the end of the thread.  \<open>results\<close> has the
  results of the calls that write the file.  Lines are shorter than a buffer, as those of a \<open>Logger\<close> are.
\<close>

inductive log_run :: "nat list \<Rightarrow> bytes list \<Rightarrow> bool \<Rightarrow> AsyncLogging \<Rightarrow> bool" for results where
  start: "log_run results [] False (new_AsyncLogging results)"
| append: "log_run results ls d s \<Longrightarrow> length l < kLargeBuffer \<Longrightarrow> log_append l s = Some s' \<Longrightarrow>
    log_run results (ls @ [l]) (d \<or> al_phase s = Finished) s'"
| stop: "log_run results ls d s \<Longrightarrow> log_run results ls d (log_stop s)"
| step: "log_run results ls d s \<Longrightarrow> log_step s = Some s' \<Longrightarrow> log_run results ls (d \<or> loses s) s'"

text \<open>What is appended and not yet written by the thread, as long as there is a thread.\<close>

definition pending :: "AsyncLogging \<Rightarrow> bytes" where
  "pending s = (case al_phase s of
     Writing bs \<Rightarrow> concat (map fb_text bs) @ buffered s
   | Finished \<Rightarrow> []
   | _ \<Rightarrow> buffered s)"

abbreviation log_text :: "AsyncLogging \<Rightarrow> bytes" where
  "log_text s \<equiv> fp_text (lf_file (al_output s))"


section \<open>Writing\<close>

declare write_rest.simps [simp del]

lemma write_rest_whole:
  "rest_whole (length l) (fp_results f) = Some rs \<Longrightarrow> write_rest l f = f\<lparr>fp_text := fp_text f @ l, fp_results := rs\<rparr>"
proof (induction "fp_results f" arbitrary: l f)
  case Nil
  then show ?case
    by (cases "l = []") (simp_all add: write_rest.simps [of l] write_rest.simps [of "[]"] file_write_def)
next
  case (Cons k ks)
  note results = Cons.hyps(2) [symmetric]
  show ?case
  proof (cases "l = [] \<or> k = 0")
    case True
    then show ?thesis
      using Cons.prems results by (auto simp: write_rest.simps)
  next
    case False
    let ?f = "f\<lparr>fp_text := fp_text f @ take k l, fp_results := ks\<rparr>"
    have "write_rest (drop k l) ?f = ?f\<lparr>fp_text := fp_text ?f @ drop k l, fp_results := rs\<rparr>"
      using Cons.prems False results by (intro Cons.hyps(1)) (simp_all add: min_def split: if_splits)
    moreover have "write_rest l f = write_rest (drop k l) ?f"
      using False results by (subst write_rest.simps) (simp add: file_write_def min_def)
    ultimately show ?thesis
      by simp
  qed
qed

lemma file_append_whole:
  "append_whole (length l) (fp_results f) = Some rs \<Longrightarrow> file_append l f = f\<lparr>fp_text := fp_text f @ l, fp_results := rs\<rparr>"
proof (cases "fp_results f")
  case Nil
  then show "append_whole (length l) (fp_results f) = Some rs \<Longrightarrow> ?thesis"
    by (simp add: file_append_def file_write_def write_rest.simps)
next
  case (Cons k ks)
  let ?f = "f\<lparr>fp_text := fp_text f @ take k l, fp_results := ks\<rparr>"
  assume "append_whole (length l) (fp_results f) = Some rs"
  then have "write_rest (drop k l) ?f = ?f\<lparr>fp_text := fp_text ?f @ drop k l, fp_results := rs\<rparr>"
    using Cons by (intro write_rest_whole) (simp add: min_def split: if_splits)
  then show ?thesis
    using Cons by (cases "k \<le> length l") (simp_all add: file_append_def file_write_def min_def)
qed

lemma append_unlocked_whole:
  "append_whole (length t) (fp_results (lf_file l)) = Some rs \<Longrightarrow>
     fp_text (lf_file (append_unlocked t l)) = fp_text (lf_file l) @ t \<and> fp_results (lf_file (append_unlocked t l)) = rs"
  by (simp add: append_unlocked_def file_append_whole file_flush_def Let_def)

lemma write_buffers_whole:
  "buffers_whole bs (fp_results (lf_file l)) = Some rs \<Longrightarrow>
     fp_text (lf_file (write_buffers bs l)) = fp_text (lf_file l) @ concat (map fb_text bs) \<and>
     fp_results (lf_file (write_buffers bs l)) = rs"
proof (induction bs arbitrary: l)
  case (Cons b bs)
  then obtain ks where ks: "append_whole (length (fb_text b)) (fp_results (lf_file l)) = Some ks" "buffers_whole bs ks = Some rs"
    by (auto split: bind_splits)
  then show ?case
    using append_unlocked_whole [OF ks(1)] Cons.IH [of "append_unlocked (fb_text b) l"] by simp
qed simp

lemma buffers_whole_Nil [simp]: "buffers_whole bs [] = Some []"
  by (induction bs) simp_all

lemma log_flush_file [simp]:
  "fp_text (lf_file (log_flush l)) = fp_text (lf_file l)" "fp_results (lf_file (log_flush l)) = fp_results (lf_file l)"
  "fp_flushed (lf_file (log_flush l)) = length (fp_text (lf_file l))"
  by (simp_all add: log_flush_def file_flush_def)

section \<open>The invariant\<close>

abbreviation large :: "FixedBuffer \<Rightarrow> bool" where
  "large \<equiv> fb_ok kLargeBuffer"

definition spare :: "FixedBuffer option \<Rightarrow> bool" where
  "spare b \<longleftrightarrow> (\<exists>b'. b = Some b' \<and> large b' \<and> fb_text b' = [])"

definition phase_inv :: "AsyncLogging \<Rightarrow> bool" where
  "phase_inv s \<longleftrightarrow> (case al_phase s of
     Writing bs \<Rightarrow> bs \<noteq> [] \<and> (\<forall>b \<in> set bs. large b) \<and> al_new1 s = None \<and>
       (if al_new2 s = None then 2 \<le> length bs else spare (al_new2 s))
   | Finished \<Rightarrow> True
   | _ \<Rightarrow> spare (al_new1 s) \<and> spare (al_new2 s))"

definition log_inv :: "AsyncLogging \<Rightarrow> bool" where
  "log_inv s \<longleftrightarrow> (\<exists>c. al_current s = Some c \<and> large c) \<and> (\<forall>b \<in> set (al_buffers s). large b) \<and>
     (if al_next s = None then al_buffers s \<noteq> [] else spare (al_next s)) \<and>
     phase_inv s"

lemma large_new: "large (new_FixedBuffer kLargeBuffer)"
  by (simp add: fb_ok_def new_FixedBuffer_def kLargeBuffer_def)

lemma spare_new: "spare (Some (new_FixedBuffer kLargeBuffer))"
  by (simp add: spare_def large_new) (simp add: new_FixedBuffer_def)

lemma spare_reset: "large b \<Longrightarrow> spare (Some (fb_reset b))"
  by (auto simp: spare_def fb_reset_def fb_ok_def)

lemma log_start_inv: "log_inv (new_AsyncLogging results)"
  by (simp add: log_inv_def phase_inv_def new_AsyncLogging_def large_new spare_new)

lemma fb_append_large:
  assumes "large b" "length l < kLargeBuffer"
  shows "to_int (length l) < avail b \<longleftrightarrow> length (fb_text b) + length l < kLargeBuffer"
    and "length (fb_text b) + length l < kLargeBuffer \<Longrightarrow> fb_append l b = Some (b\<lparr>fb_text := fb_text b @ l\<rparr>)"
proof -
  have "to_int (length l) = int (length l)"
    using assms(2) by (intro to_int_small) (simp add: kLargeBuffer_def)
  then show "to_int (length l) < avail b \<longleftrightarrow> length (fb_text b) + length l < kLargeBuffer"
    "length (fb_text b) + length l < kLargeBuffer \<Longrightarrow> fb_append l b = Some (b\<lparr>fb_text := fb_text b @ l\<rparr>)"
    using assms(1) by (auto simp: fb_append_def avail_def fb_ok_def)
qed

lemma append_inv:
  assumes "log_inv s" "length l < kLargeBuffer"
  shows "\<exists>s'. log_append l s = Some s' \<and> log_inv s' \<and> (al_phase s \<noteq> Finished \<longrightarrow> pending s' = pending s @ l) \<and>
    al_output s' = al_output s \<and> (al_phase s = Finished \<longrightarrow> pending s' = [])"
proof -
  obtain c where c: "al_current s = Some c" "large c"
    using assms(1) by (auto simp: log_inv_def)
  show ?thesis
  proof (cases "length (fb_text c) + length l < kLargeBuffer")
    case True
    let ?c = "c\<lparr>fb_text := fb_text c @ l\<rparr>"
    have "log_append l s = Some (s\<lparr>al_current := Some ?c\<rparr>)"
      using c fb_append_large [OF c(2) assms(2)] True by (simp add: log_append_def)
    moreover have "large ?c"
      using c(2) True by (simp add: fb_ok_def)
    then have "log_inv (s\<lparr>al_current := Some ?c\<rparr>)"
      using assms(1) by (auto simp: log_inv_def phase_inv_def split: log_phase.splits)
    moreover have "al_phase s \<noteq> Finished \<longrightarrow> pending (s\<lparr>al_current := Some ?c\<rparr>) = pending s @ l"
      using c(1) by (cases "al_phase s") (simp_all add: pending_def buffered_def)
    ultimately show ?thesis
      by (auto simp: pending_def)
  next
    case False
    define e where "e = (case al_next s of Some b \<Rightarrow> b | None \<Rightarrow> new_FixedBuffer kLargeBuffer)"
    have e: "large e" "fb_text e = []"
      using assms(1) by (auto simp: e_def log_inv_def spare_def large_new split: option.splits)
        (simp add: new_FixedBuffer_def)
    let ?e = "e\<lparr>fb_text := l\<rparr>"
    let ?s = "s\<lparr>al_buffers := al_buffers s @ [c], al_next := None, al_current := Some ?e\<rparr>"
    have "fb_append l e = Some ?e"
      using fb_append_large(2) [OF e(1) assms(2)] e(2) assms(2) by simp
    then have "log_append l s = Some ?s"
      using c fb_append_large(1) [OF c(2) assms(2)] False
      by (simp add: log_append_def e_def split: option.splits)
    moreover have "large ?e"
      using e(1) assms(2) by (simp add: fb_ok_def)
    then have "log_inv ?s"
      using assms(1) c(2) by (auto simp: log_inv_def phase_inv_def split: log_phase.splits)
    moreover have "al_phase s \<noteq> Finished \<longrightarrow> pending ?s = pending s @ l"
      using c(1) by (cases "al_phase s") (simp_all add: pending_def buffered_def)
    ultimately show ?thesis
      by (auto simp: pending_def)
  qed
qed

lemma stop_inv: "log_inv s \<Longrightarrow> log_inv (log_stop s) \<and> pending (log_stop s) = pending s \<and> log_text (log_stop s) = log_text s"
  by (auto simp: log_inv_def phase_inv_def log_stop_def pending_def buffered_def split: log_phase.splits)

lemma swap_inv:
  assumes "log_inv s" "spare (al_new1 s)" "spare (al_new2 s)" "\<And>bs. al_phase s \<noteq> Writing bs" "al_phase s \<noteq> Finished"
  shows "\<exists>s' c. swap_buffers s = Some s' \<and> al_phase s' = Writing (al_buffers s @ [c]) \<and> log_inv s' \<and>
    pending s' = pending s \<and> al_output s' = al_output s \<and> al_running s' = al_running s \<and> al_buffers s' = [] \<and>
    (\<exists>b. al_current s' = Some b \<and> fb_text b = [])"
proof -
  obtain c where c: "al_current s = Some c" "large c"
    using assms(1) by (auto simp: log_inv_def)
  obtain b1 b2 where b: "al_new1 s = Some b1" "large b1" "fb_text b1 = []" "al_new2 s = Some b2" "large b2" "fb_text b2 = []"
    using assms(2,3) by (auto simp: spare_def)
  let ?s = "s\<lparr>al_buffers := [], al_current := Some b1, al_new1 := None,
    al_next := (if al_next s = None then Some b2 else al_next s),
    al_new2 := (if al_next s = None then None else Some b2), al_phase := Writing (al_buffers s @ [c])\<rparr>"
  have "swap_buffers s = Some ?s"
    using c b by (cases "al_next s") (simp_all add: swap_buffers_def Let_def)
  moreover have "log_inv ?s"
    using assms(1) b c(2)
    by (cases "al_next s") (auto simp: log_inv_def phase_inv_def spare_def Suc_le_eq)
  moreover have "pending ?s = pending s"
    using c(1) b(3) assms(4,5) by (cases "al_phase s") (auto simp: pending_def buffered_def)
  ultimately show ?thesis
    using b(3) by (intro exI [of _ ?s] exI [of _ c]) simp
qed

lemma refill_two:
  assumes "two \<noteq> []" "\<forall>b \<in> set two. large b" "if new2 = None then 2 \<le> length two else spare new2"
  shows "\<exists>r1 rest1 r2 rest2. refill None two = Some (r1, rest1) \<and> refill new2 rest1 = Some (r2, rest2) \<and>
    spare r1 \<and> spare r2"
proof -
  have 1: "refill None two = Some (Some (fb_reset (last two)), butlast two)"
    using assms(1) by (simp add: refill_def)
  have s1: "spare (Some (fb_reset (last two)))"
    using assms(1,2) by (intro spare_reset) simp
  show ?thesis
  proof (cases new2)
    case None
    then have b: "butlast two \<noteq> []"
      using assms(3) by (cases two) auto
    then have "large (last (butlast two))"
      using assms(2) by (meson in_set_butlastD last_in_set)
    then show ?thesis
      using 1 s1 b None by (auto simp: refill_def spare_reset)
  next
    case (Some b)
    then show ?thesis
      using 1 s1 assms(3) by (auto simp: refill_def)
  qed
qed

lemma write_inv:
  assumes "log_inv s" "al_phase s = Writing bs"
  shows "\<exists>s'. write_and_refill bs s = Some s' \<and> al_phase s' = Checking \<and> log_inv s' \<and>
    (\<not> loses s \<longrightarrow> log_text s' @ pending s' = log_text s @ pending s) \<and>
    (fp_results (lf_file (al_output s)) = [] \<longrightarrow> fp_results (lf_file (al_output s')) = []) \<and>
    fp_flushed (lf_file (al_output s')) = length (log_text s') \<and>
    al_running s' = al_running s \<and> al_buffers s' = al_buffers s \<and> al_current s' = al_current s"
proof -
  have bs: "bs \<noteq> []" "\<forall>b \<in> set bs. large b" "al_new1 s = None"
      "if al_new2 s = None then 2 \<le> length bs else spare (al_new2 s)"
    using assms by (auto simp: log_inv_def phase_inv_def)
  define out0 where "out0 = (if 25 < length bs then append_unlocked (dropped_message (length bs - 2)) (al_output s) else al_output s)"
  define kept where "kept = (if 25 < length bs then take 2 bs else bs)"
  define out1 where "out1 = log_flush (write_buffers kept out0)"
  have two: "take 2 kept = take 2 bs"
    by (simp add: kept_def)
  have t: "take 2 bs \<noteq> []" "\<forall>b \<in> set (take 2 bs). large b"
      "if al_new2 s = None then 2 \<le> length (take 2 bs) else spare (al_new2 s)"
    using bs(1,2,4) by (auto dest: in_set_takeD)
  obtain r1 rest1 r2 rest2 where r: "refill None (take 2 bs) = Some (r1, rest1)"
      "refill (al_new2 s) rest1 = Some (r2, rest2)" "spare r1" "spare r2"
    using refill_two [OF t] by blast
  let ?s = "s\<lparr>al_new1 := r1, al_new2 := r2, al_output := out1, al_phase := Checking\<rparr>"
  have "write_and_refill bs s = Some ?s"
    using bs(1,3) r(1,2) two
    by (simp add: write_and_refill_def Let_def out1_def kept_def out0_def split: if_splits)
  moreover have "log_inv ?s"
    using assms(1) r(3,4) by (auto simp: log_inv_def phase_inv_def)
  moreover have "log_text ?s @ pending ?s = log_text s @ pending s" if "\<not> loses s"
  proof -
    have n: "length bs \<le> 25" "buffers_whole bs (fp_results (lf_file (al_output s))) \<noteq> None"
      using that assms(2) by (simp_all add: loses_def overrun_def)
    then show ?thesis
      using write_buffers_whole [of bs "al_output s"] assms(2)
      by (auto simp: out1_def kept_def out0_def pending_def buffered_def)
  qed
  moreover have "fp_results (lf_file out1) = []" if "fp_results (lf_file (al_output s)) = []"
    using that append_unlocked_whole [of "dropped_message (length bs - 2)" "al_output s" "[]"]
      write_buffers_whole [of kept out0 "[]"]
    by (simp add: out1_def out0_def)
  ultimately show ?thesis
    by (intro exI [of _ ?s]) (simp add: out1_def)
qed

lemma step_inv:
  assumes "log_inv s"
  shows "\<exists>s'. log_step s = Some s' \<and> log_inv s' \<and>
    (\<not> loses s \<longrightarrow> log_text s' @ pending s' = log_text s @ pending s) \<and>
    (fp_results (lf_file (al_output s)) = [] \<longrightarrow> fp_results (lf_file (al_output s')) = [])"
proof (cases "al_phase s")
  case Checking
  show ?thesis
  proof (cases "al_running s \<and> al_buffers s \<noteq> []")
    case True
    have n: "spare (al_new1 s)" "spare (al_new2 s)"
      using assms Checking by (auto simp: log_inv_def phase_inv_def)
    then have "is_reset (al_new1 s)" "is_reset (al_new2 s)"
      by (auto simp: spare_def is_reset_def)
    then show ?thesis
      using swap_inv [OF assms n] Checking True by (auto simp: log_step_def)
  next
    case False
    then show ?thesis
      using assms Checking
      by (auto simp: log_step_def log_inv_def phase_inv_def pending_def loses_def buffered_def spare_def is_reset_def)
  qed
next
  case Waiting
  have n: "spare (al_new1 s)" "spare (al_new2 s)"
    using assms Waiting by (auto simp: log_inv_def phase_inv_def)
  show ?thesis
    using swap_inv [OF assms n] Waiting by (auto simp: log_step_def)
next
  case (Writing bs)
  then show ?thesis
    using write_inv [OF assms Writing] by (auto simp: log_step_def)
next
  case Finished
  then show ?thesis
    using assms by (simp add: log_step_def)
qed

lemma run_inv: "log_run results ls d s \<Longrightarrow> log_inv s \<and> (\<not> d \<longrightarrow> log_text s @ pending s = concat ls)"
proof (induction rule: log_run.induct)
  case start
  show ?case
    using log_start_inv by (simp add: new_AsyncLogging_def pending_def buffered_def) (simp add: new_FixedBuffer_def)
next
  case (append ls d s l s')
  then show ?case
    using append_inv [of s l] by auto
next
  case (stop ls d s)
  then show ?case
    using stop_inv by simp
next
  case (step ls d s s')
  then show ?case
    using step_inv [of s] by auto
qed

lemma run_results: "log_run results ls d s \<Longrightarrow> results = [] \<Longrightarrow> fp_results (lf_file (al_output s)) = []"
proof (induction rule: log_run.induct)
  case start
  then show ?case
    by (simp add: new_AsyncLogging_def)
next
  case (append ls d s l s')
  then show ?case
    using append_inv [of s l] run_inv [OF append(1)] by auto
next
  case (stop ls d s)
  then show ?case
    by (simp add: log_stop_def)
next
  case (step ls d s s')
  then show ?case
    using step_inv [of s] run_inv [OF step(1)] by auto
qed

section \<open>Draining\<close>

fun log_steps :: "nat \<Rightarrow> AsyncLogging \<Rightarrow> AsyncLogging option" where
  "log_steps 0 s = Some s"
| "log_steps (Suc n) s = do { s \<leftarrow> log_step s; log_steps n s }"

definition drained :: "AsyncLogging \<Rightarrow> bytes \<Rightarrow> bool" where
  "drained s t \<longleftrightarrow> log_text s = t \<and> fp_flushed (lf_file (al_output s)) = length t \<and> pending s = [] \<and> al_phase s = Checking"

lemma write_drains:
  assumes "log_inv s" "al_phase s = Writing bs" "length bs \<le> 25" "al_buffers s = []" "al_current s = Some b" "fb_text b = []"
    and "fp_results (lf_file (al_output s)) = []"
  shows "\<exists>s'. log_steps 1 s = Some s' \<and> drained s' (log_text s @ pending s)"
  using write_inv [OF assms(1,2)] assms
  by (auto simp: log_step_def drained_def pending_def buffered_def loses_def overrun_def)

lemma waiting_drains:
  assumes "log_inv s" "al_phase s = Waiting" "length (al_buffers s) < 25" "fp_results (lf_file (al_output s)) = []"
  shows "\<exists>s'. log_steps 2 s = Some s' \<and> drained s' (log_text s @ pending s)"
proof -
  have n: "spare (al_new1 s)" "spare (al_new2 s)"
    using assms by (auto simp: log_inv_def phase_inv_def)
  obtain s1 c b where s1: "swap_buffers s = Some s1" "al_phase s1 = Writing (al_buffers s @ [c])" "log_inv s1"
      "pending s1 = pending s" "al_output s1 = al_output s" "al_buffers s1 = []" "al_current s1 = Some b" "fb_text b = []"
    using swap_inv [OF assms(1) n] assms(2) by auto
  then show ?thesis
    using write_drains [OF s1(3,2) _ s1(6,7,8)] assms(2-4)
    by (auto simp: numeral_2_eq_2 log_step_def [of s])
qed

lemma checking_drains:
  assumes "log_inv s" "al_phase s = Checking" "al_running s" "length (al_buffers s) < 25" "fp_results (lf_file (al_output s)) = []"
  shows "\<exists>n \<le> 3. \<exists>s'. log_steps n s = Some s' \<and> drained s' (log_text s @ pending s)"
proof -
  have n: "spare (al_new1 s)" "spare (al_new2 s)"
    using assms by (auto simp: log_inv_def phase_inv_def)
  then have r: "is_reset (al_new1 s)" "is_reset (al_new2 s)"
    by (auto simp: spare_def is_reset_def)
  show ?thesis
  proof (cases "al_buffers s = []")
    case True
    let ?s = "s\<lparr>al_phase := Waiting\<rparr>"
    have "log_step s = Some ?s"
      using assms(2,3) r True by (simp add: log_step_def)
    moreover have "log_inv ?s" "pending ?s = pending s"
      using assms(1) n assms(2) by (auto simp: log_inv_def phase_inv_def pending_def buffered_def)
    ultimately show ?thesis
      using waiting_drains [of ?s] assms(4,5) by (intro exI [of _ 3]) (simp add: numeral_3_eq_3 numeral_2_eq_2)
  next
    case False
    obtain s1 c b where s1: "swap_buffers s = Some s1" "al_phase s1 = Writing (al_buffers s @ [c])" "log_inv s1"
        "pending s1 = pending s" "al_output s1 = al_output s" "al_buffers s1 = []" "al_current s1 = Some b" "fb_text b = []"
      using swap_inv [OF assms(1) n] assms(2) by auto
    moreover have "log_step s = Some s1"
      using assms(2,3) r False s1(1) by (simp add: log_step_def)
    ultimately show ?thesis
      using write_drains [OF s1(3,2) _ s1(6,7,8)] assms(4,5)
      by (intro exI [of _ 2]) (auto simp: numeral_2_eq_2)
  qed
qed

lemma drains:
  assumes "log_inv s" "al_running s" "length (al_buffers s) < 25" "\<not> overrun s" "al_phase s \<noteq> Finished"
    and "fp_results (lf_file (al_output s)) = []"
  shows "\<exists>n \<le> 4. \<exists>s'. log_steps n s = Some s' \<and> drained s' (log_text s @ pending s)"
proof (cases "al_phase s")
  case Checking
  obtain n s' where "n \<le> 3" "log_steps n s = Some s'" "drained s' (log_text s @ pending s)"
    using checking_drains [OF assms(1) Checking assms(2,3,6)] by blast
  then show ?thesis
    by (intro exI [of _ n]) simp
next
  case Waiting
  then show ?thesis
    using waiting_drains [OF assms(1) _ assms(3,6)] by (intro exI [of _ 2]) simp
next
  case (Writing bs)
  then obtain s1 where s1: "log_step s = Some s1" "al_phase s1 = Checking" "log_inv s1"
      "log_text s1 @ pending s1 = log_text s @ pending s" "al_running s1" "al_buffers s1 = al_buffers s"
      "fp_results (lf_file (al_output s1)) = []"
    using write_inv [OF assms(1) Writing] assms(2,4,6) by (auto simp: log_step_def loses_def overrun_def)
  obtain n s' where "n \<le> 3" "log_steps n s1 = Some s'" "drained s' (log_text s @ pending s)"
    using checking_drains [OF s1(3,2,5)] s1(4,6,7) assms(3) by auto
  then show ?thesis
    using s1(1) by (intro exI [of _ "Suc n"]) simp
qed (use assms(5) in simp)

lemma append_phase: "log_append l s = Some s' \<Longrightarrow> al_phase s' = al_phase s \<and> al_running s' = al_running s"
  by (cases "al_next s") (auto simp: log_append_def split: bind_splits if_splits)

lemma swap_phase: "swap_buffers s = Some s' \<Longrightarrow> al_phase s' \<noteq> Finished"
  by (auto simp: swap_buffers_def Let_def split: bind_splits)

lemma write_phase: "write_and_refill bs s = Some s' \<Longrightarrow> al_phase s' = Checking"
  by (auto simp: write_and_refill_def Let_def split_beta split: if_splits bind_splits)

lemma step_phase: "log_step s = Some s' \<Longrightarrow> al_phase s' = Finished \<Longrightarrow> al_phase s \<noteq> Finished \<Longrightarrow> \<not> al_running s'"
  using swap_phase [of s s'] write_phase [of _ s s'] by (auto simp: log_step_def split: log_phase.splits if_splits)

lemma finished_stopped: "log_run results ls d s \<Longrightarrow> al_phase s = Finished \<Longrightarrow> \<not> al_running s"
proof (induction rule: log_run.induct)
  case start
  then show ?case
    by (simp add: new_AsyncLogging_def)
next
  case (append ls d s l s')
  then show ?case
    using append_phase by simp
next
  case (stop ls d s)
  then show ?case
    by (simp add: log_stop_def)
next
  case (step ls d s s')
  then show ?case
    using step_phase [of s s'] by (cases "al_phase s = Finished") (auto simp: log_step_def)
qed

section \<open>Properties\<close>

text \<open>
  C17: however threads append and the log's own thread steps, no assertion fails, no buffer is null
  and no write leaves its buffer.  As long as nothing was lost, that is, no buffers were dropped for want of
  speed, the file took each text it was given, the thread did not end with something buffered, and
  nothing was appended after its end, the file followed by what the thread has yet to write is the
  lines in the order they were appended, each whole and once; after the end of the thread the file is.
\<close>

theorem log_keeps_lines:
  assumes "log_run results ls lost s"
  shows "log_step s \<noteq> None \<and> (\<forall>l. length l < kLargeBuffer \<longrightarrow> log_append l s \<noteq> None) \<and>
    (\<not> lost \<longrightarrow> log_text s @ pending s = concat ls \<and> (al_phase s = Finished \<longrightarrow> log_text s = concat ls))"
proof -
  have inv: "log_inv s" "\<not> lost \<longrightarrow> log_text s @ pending s = concat ls"
    using run_inv [OF assms] by blast+
  have "log_step s \<noteq> None"
    using step_inv [OF inv(1)] by auto
  moreover have "log_append l s \<noteq> None" if "length l < kLargeBuffer" for l
    using append_inv [OF inv(1) that] by auto
  ultimately show ?thesis
    using inv(2) by (auto simp: pending_def)
qed

definition one_line :: "nat list \<Rightarrow> AsyncLogging" where
  "one_line results = (new_AsyncLogging results)\<lparr>al_current := Some \<lparr>fb_size = kLargeBuffer, fb_text = [65]\<rparr>\<rparr>"

lemma one_line_run: "log_run results [[65]] False (one_line results)"
proof -
  have "log_append [65] (new_AsyncLogging results) = Some (one_line results)"
    by (simp add: log_append_def one_line_def new_AsyncLogging_def new_FixedBuffer_def avail_def fb_append_def to_int_small kLargeBuffer_def)
  then show ?thesis
    using log_run.append [OF log_run.start, of "[65]" results] by (simp add: kLargeBuffer_def new_AsyncLogging_def)
qed

text \<open>The file takes the line byte by byte.\<close>

theorem log_keeps_lines_witness:
  "log_append [66] (one_line [0, 1]) \<noteq> None \<and> log_text (one_line [0, 1]) @ pending (one_line [0, 1]) = [65]"
  using log_keeps_lines [OF one_line_run] by (simp add: kLargeBuffer_def)

text \<open>
  C18: while the log runs, is not behind, and the file takes what it is given, four steps of its thread
  bring everything appended so far to the file, flushed, and leave nothing buffered.
\<close>

theorem log_drains:
  assumes "log_run [] ls False s" "al_running s" "length (al_buffers s) < 25" "\<not> overrun s"
  shows "\<exists>n \<le> 4. \<exists>s'. log_steps n s = Some s' \<and> log_text s' = concat ls \<and>
    fp_flushed (lf_file (al_output s')) = length (concat ls) \<and> pending s' = []"
  using drains [OF _ assms(2-4) _ run_results [OF assms(1) refl]] run_inv [OF assms(1)] finished_stopped [OF assms(1)] assms(2)
  by (auto simp: drained_def)

theorem log_drains_witness:
  "\<exists>n \<le> 4. \<exists>s'. log_steps n (one_line []) = Some s' \<and> log_text s' = [65]"
proof -
  have "al_running (one_line [])" "length (al_buffers (one_line [])) < 25" "\<not> overrun (one_line [])"
    by (simp_all add: one_line_def new_AsyncLogging_def overrun_def)
  from log_drains [OF one_line_run this] show ?thesis
    by auto
qed

text \<open>What is buffered when the log is stopped never comes to the file.\<close>

lemma stop_loses_lines: "\<exists>s. log_run [] [[65]] True s \<and> al_phase s = Finished \<and> log_text s = []"
proof -
  let ?s = "log_stop (one_line [])"
  have "log_run [] [[65]] False ?s"
    by (rule log_run.stop [OF one_line_run])
  moreover have "log_step ?s = Some (?s\<lparr>al_output := log_flush (al_output ?s), al_phase := Finished\<rparr>)" "loses ?s"
    by (simp_all add: log_step_def log_stop_def one_line_def new_AsyncLogging_def overrun_def loses_def buffered_def)
  ultimately have "log_run [] [[65]] True (?s\<lparr>al_output := log_flush (al_output ?s), al_phase := Finished\<rparr>)"
    using log_run.step by fastforce
  then show ?thesis
    by (intro exI conjI) (assumption, simp_all add: log_stop_def one_line_def new_AsyncLogging_def)
qed

end
