(* ===== verification/Connection.thy ===== *)
theory Connection
  imports Server_Frame Handshake Cjson_Roundtrip
begin

text \<open>
  One connection of the server: the class \<open>WebSocketData\<close> (\<^verbatim>\<open>src/src/websocket-data.cc\<close>).  A
  session is the members of the class together with what the calls of the system see of it: the
  socket, the outcome of the coming \<open>read\<close>, \<open>write\<close> and \<open>fopen\<close> calls, what was sent, and the file
  that collects the messages.  \<open>None\<close> is undefined behaviour, or a write loop that has not returned
  within the outcomes given.
\<close>

section \<open>State\<close>

datatype ProcessState = STATE_HEAD | STATE_START | STATE_DATA | STATE_FINISH | STATE_CLOSE | STATE_ERROR

datatype errno = EINTR | EAGAIN | Other_errno

text \<open>
  \<open>s_reads\<close> has an entry for every \<open>read\<close> of the head that fails; \<open>s_writes\<close> one for every \<open>write\<close>,
  its result and the \<open>errno\<close> after it; \<open>s_opens\<close> one for every \<open>fopen\<close>.  Where the lists of reads
  and opens end the calls succeed.
\<close>

record Session =
  s_error :: ERROR_TYPE
  s_state :: ProcessState
  s_read :: Packet
  s_write :: Packet
  s_final :: bool
  s_headers :: headers
  s_uuid :: bytes
  s_bytes :: int
  s_sock :: Sock
  s_closed :: bool
  s_reads :: "errno option list"
  s_writes :: "(int \<times> errno) list"
  s_sent :: bytes
  s_opens :: "bool list"
  s_file :: bytes

text \<open>What a session finds around it: the C library, the allocator, and the stack under \<open>SHA1 sha\<close>.\<close>

record 'd surroundings =
  e_dbl :: "'d libc_double"
  e_alloc :: allocs
  e_hooks :: internal_hooks
  e_stack :: SHA1

type_synonym 'a run = "(int \<times> 'a) option"

definition new_Session :: "bytes \<Rightarrow> bytes \<Rightarrow> bytes \<Rightarrow> int \<Rightarrow> Sock \<Rightarrow> Session" where
  "new_Session uuid stale1 stale2 raw_bytes sock = \<lparr>s_error = ERROR_NO, s_state = STATE_HEAD,
     s_read = new_Packet stale1, s_write = new_Packet stale2, s_final = False, s_headers = Map.empty,
     s_uuid = uuid, s_bytes = raw_bytes, s_sock = sock, s_closed = False, s_reads = [], s_writes = [],
     s_sent = [], s_opens = [], s_file = []\<rparr>"

section \<open>Writing\<close>

text \<open>The loop of both \<open>writeData\<close> functions: the result, what was written and the calls left.\<close>

fun write_loop :: "(int \<times> errno) list \<Rightarrow> bytes \<Rightarrow> (int \<times> bytes \<times> (int \<times> errno) list) option" where
  "write_loop ws [] = Some (0, [], ws)"
| "write_loop [] (b # bs) = None"
| "write_loop ((written_bytes, e) # ws) (b # bs) =
     (if written_bytes \<le> 0 then
        (case e of Other_errno \<Rightarrow> Some (-1, [], ws) | _ \<Rightarrow> write_loop ws (b # bs))
      else do {
        (ret, out, ws) \<leftarrow> write_loop ws (drop (nat written_bytes) (b # bs));
        Some (ret, take (nat written_bytes) (b # bs) @ out, ws) })"

definition writeData :: "bytes \<Rightarrow> Session \<Rightarrow> Session run" where
  "writeData data s = do {
     (ret, out, ws) \<leftarrow> write_loop (s_writes s) data;
     let s = s\<lparr>s_sent := s_sent s @ out, s_writes := ws\<rparr>;
     Some (ret, if ret = 0 then s else s\<lparr>s_error := ERROR_WRITE\<rparr>) }"

section \<open>The head\<close>

definition MAX_BUFF :: nat where "MAX_BUFF = 4096"

datatype head_end = Drained | Client_closed | Read_error

function read_head :: "errno option list \<Rightarrow> bool \<Rightarrow> bytes \<Rightarrow> bytes \<Rightarrow> head_end \<times> bytes \<times> bytes \<times> errno option list" where
  "read_head rs closed av inBuffer =
     (case rs of
        Some EINTR # rs \<Rightarrow> read_head rs closed av inBuffer
      | Some EAGAIN # rs \<Rightarrow> (Drained, inBuffer, av, rs)
      | Some Other_errno # rs \<Rightarrow> (Read_error, inBuffer, av, rs)
      | _ \<Rightarrow>
          if av = [] then ((if closed then Client_closed else Drained), inBuffer, av, tl rs)
          else read_head (tl rs) closed (drop MAX_BUFF av) (inBuffer @ take MAX_BUFF av))"
  by pat_completeness auto
termination
  by (relation "measure (\<lambda>(rs, closed, av, inBuffer). length rs + length av)") (auto simp: MAX_BUFF_def)

declare read_head.simps [simp del]

definition readAndParseHead :: "Session \<Rightarrow> Session run" where
  "readAndParseHead s =
     (case read_head (s_reads s) (s_closed s) (avail (s_sock s)) [] of (end_, inBuffer, left_, rs) \<Rightarrow>
        let s = s\<lparr>s_sock := (s_sock s)\<lparr>avail := left_\<rparr>, s_reads := rs\<rparr> in
        case end_ of
          Read_error \<Rightarrow> Some (-1, s\<lparr>s_error := ERROR_PARSE_HEAD\<rparr>)
        | Client_closed \<Rightarrow> Some (-1, s\<lparr>s_error := ERROR_CLIENT_CLOSE\<rparr>)
        | Drained \<Rightarrow> (case parseHead inBuffer (s_headers s) of
              None \<Rightarrow> None
            | Some (Inl _) \<Rightarrow> Some (-1, s\<lparr>s_error := ERROR_PARSE_HEAD\<rparr>)
            | Some (Inr hs) \<Rightarrow> Some (0, s\<lparr>s_headers := hs\<rparr>)))"

definition send_respond :: "('d, 'e) surroundings_scheme \<Rightarrow> Session \<Rightarrow> Session run" where
  "send_respond env s = do {
     request \<leftarrow> sendRespond (e_stack env) (s_headers s);
     writeData request s }"

definition processError :: "('d, 'e) surroundings_scheme \<Rightarrow> Session \<Rightarrow> Session option" where
  "processError env s =
     (if s_error s = ERROR_PARSE_HEAD then do {
        request \<leftarrow> sendErrorRespond (e_stack env) (s_headers s) 400;
        (ret, s) \<leftarrow> writeData request s;
        Some s }
      else Some s)"

section \<open>Results\<close>

text \<open>
  A null item is not added, and a null object takes none; the text of \<open>NULL\<close> makes \<open>std::string\<close>
  undefined.
\<close>

definition add_to :: "bool \<Rightarrow> 'd cJSON option \<Rightarrow> string \<Rightarrow> 'd cJSON option \<Rightarrow> 'd cJSON option" where
  "add_to ok object name item = map_option (\<lambda>ob. cJSON_AddItemToObject ok ob (Some (s2b name)) item) object"

definition result_item :: "'d libc_double \<Rightarrow> allocs \<Rightarrow> bytes \<Rightarrow> bytes \<Rightarrow> int \<Rightarrow> 'd cJSON option" where
  "result_item dbl alloc uuid result last_result =
     (let root = cJSON_CreateObject dbl alloc; status = 0;
          number = (\<lambda>k n. cJSON_CreateNumber dbl (\<lambda>i. alloc (k + i)) (d_of_int dbl n));
          text = (\<lambda>k s. cJSON_CreateString dbl (\<lambda>i. alloc (k + i)) (Some (c_str s)));
          root = add_to (alloc 2) root ''result_type'' (number 1 last_result);
          root = add_to (alloc 4) root ''status'' (number 3 status);
          root = add_to (alloc 7) root ''uuid'' (text 5 uuid);
          root = add_to (alloc 10) root ''result'' (text 8 result)
      in root)"

definition formatJson ::
  "('d, 'e) surroundings_scheme \<Rightarrow> bytes \<Rightarrow> bytes \<Rightarrow> int \<Rightarrow> bytes option" where
  "formatJson env uuid result last_result = do {
     out \<leftarrow> cJSON_Print (e_dbl env) (e_hooks env) (result_item (e_dbl env) (e_alloc env) uuid result last_result);
     output \<leftarrow> out;
     Some (c_str output) }"

definition sendResult :: "bytes \<Rightarrow> Session \<Rightarrow> Session run" where
  "sendResult result s = do {
     packet \<leftarrow> sendResult_packet result (s_write s);
     writeData (packet_out packet) (s\<lparr>s_write := packet\<rparr>) }"

text \<open>The callers of \<open>sendResult\<close> do not look at its result.\<close>

definition reply :: "('d, 'e) surroundings_scheme \<Rightarrow> int \<Rightarrow> Session \<Rightarrow> Session run" where
  "reply env last_result s = do {
     result \<leftarrow> formatJson env (s_uuid s) (s2b ''Websocket'') last_result;
     (_, s) \<leftarrow> sendResult result s;
     Some (0, s) }"

section \<open>Messages\<close>

definition processStart :: "Session \<Rightarrow> Session run" where
  "processStart s = Some (0, s\<lparr>s_bytes := 0\<rparr>)"

text \<open>
  A file that does not open makes \<open>fwrite\<close> undefined, and so does the sum of the lengths past
  \<open>INT_MAX\<close>.  The code does not look at the results of \<open>fwrite\<close> and \<open>fclose\<close>: \<open>s_file\<close> is what it gives
  to \<open>fwrite\<close>, in order, and what the system makes of that is outside the model.
\<close>

definition save :: "bytes \<Rightarrow> Session \<Rightarrow> Session option" where
  "save data s = (case s_opens s of
     False # _ \<Rightarrow> None
   | ops \<Rightarrow> Some (s\<lparr>s_opens := tl ops, s_file := s_file s @ data\<rparr>))"

definition processPacket :: "('d, 'e) surroundings_scheme \<Rightarrow> Session \<Rightarrow> Session run" where
  "processPacket env s =
     (let p = s_read s in
      if p_opcode p = WEBSOCKET_CONNECT_CLOSE \<or>
         p_opcode p = WEBSOCKET_TEXT_DATA \<and> p_state p = PACKET_INIT \<and> p_len p = 3
      then Some (0, if p_opcode p = WEBSOCKET_CONNECT_CLOSE then s\<lparr>s_final := True\<rparr>
                    else if packet_out p = s2b ''EOS'' then s\<lparr>s_final := True\<rparr> else s)
      else if p_state p = PACKET_INIT then
        (if INT_MAX < s_bytes s + int (p_len p) then None
         else do {
           s \<leftarrow> save (packet_out p) (s\<lparr>s_bytes := s_bytes s + int (p_len p)\<rparr>);
           reply env 0 s })
      else Some (0, s))"

definition processEnd :: "('d, 'e) surroundings_scheme \<Rightarrow> Session \<Rightarrow> Session run" where
  "processEnd env s = reply env 1 s"

definition read_packet :: "Session \<Rightarrow> Session run" where
  "read_packet s = do {
     (ret, e, p, sock) \<leftarrow> readAndParsePacket (s_read s) (s_sock s);
     let s = s\<lparr>s_read := p, s_sock := sock\<rparr>;
     Some (ret, case e of None \<Rightarrow> s | Some e \<Rightarrow> s\<lparr>s_error := e\<rparr>) }"

section \<open>The handler of readable events\<close>

definition set_state :: "ProcessState \<Rightarrow> Session run \<Rightarrow> Session option" where
  "set_state st m = do { (ret, s) \<leftarrow> m; Some (s\<lparr>s_state := if ret \<noteq> 0 then STATE_ERROR else st\<rparr>) }"

definition on_head :: "('d, 'e) surroundings_scheme \<Rightarrow> Session \<Rightarrow> Session option" where
  "on_head env s = do {
     (ret, s) \<leftarrow> readAndParseHead s;
     if ret = 0 then set_state STATE_START (send_respond env s) else Some (s\<lparr>s_state := STATE_ERROR\<rparr>) }"

definition on_data :: "('d, 'e) surroundings_scheme \<Rightarrow> Session \<Rightarrow> Session option" where
  "on_data env s = do {
     (ret, s) \<leftarrow> read_packet s;
     if ret \<noteq> 0 then Some (s\<lparr>s_state := STATE_ERROR\<rparr>)
     else do {
       (ret, s) \<leftarrow> processPacket env s;
       Some (if ret \<noteq> 0 then s\<lparr>s_state := STATE_ERROR\<rparr>
             else if s_final s then s\<lparr>s_state := STATE_FINISH\<rparr> else s) } }"

definition handleRead :: "('d, 'e) surroundings_scheme \<Rightarrow> Session \<Rightarrow> Session option" where
  "handleRead env s = do {
     s \<leftarrow> (if s_state s = STATE_HEAD then on_head env s else Some s);
     s \<leftarrow> (if s_state s = STATE_START then set_state STATE_DATA (processStart s)
          else if s_state s = STATE_DATA then on_data env s else Some s);
     s \<leftarrow> (if s_state s = STATE_FINISH then set_state STATE_CLOSE (processEnd env s) else Some s);
     if s_state s = STATE_ERROR then processError env s else Some s }"

end
