(* ===== verification/Server_Safe.thy ===== *)
theory Server_Safe
  imports Server_Frame
begin

text \<open>
  The server's frame parser on arbitrary bytes: the invariant of the packet that every call keeps,
  the absence of writes outside its array while the announced length is below \<open>2 ^ 31\<close>, and the
  write through a null or short array when it is not.
\<close>

definition packet_inv :: "Packet \<Rightarrow> bool" where
  "packet_inv p \<longleftrightarrow> packet_ok p \<and> p_len p \<le> length (p_data p) \<and>
     (p_state p \<in> {PACKET_HEAD_126, PACKET_HEAD_127, PACKET_MASK} \<longrightarrow> p_len p = 0) \<and>
     (p_state p = PACKET_DATA \<longrightarrow> p_len p \<le> unat (p_body_size p))"

text \<open>A call that fails has set an error.\<close>

definition call_ok :: "int \<Rightarrow> ERROR_TYPE option \<Rightarrow> bool" where
  "call_ok r e \<longleftrightarrow> r = 0 \<or> r = -1 \<and> e \<noteq> None \<and> e \<noteq> Some ERROR_NO"

lemma call_ok_simps [simp]:
  "call_ok 0 e" "call_ok (-1) (Some ERROR_READ)" "call_ok (-1) (Some ERROR_PARSE_DATA)"
  by (simp_all add: call_ok_def)

lemma packet_inv_new: "length stale = 4 \<Longrightarrow> packet_inv (new_Packet stale)"
  by (simp add: packet_inv_def packet_ok_def new_Packet_def)

lemma packet_inv_reset: "packet_inv p \<Longrightarrow> packet_inv (reset p)"
  by (simp add: packet_inv_def packet_ok_def reset_def)

section \<open>The stages of the head\<close>

text \<open>
  A stage either returns or hands the next one a packet in one of the states \<open>sts\<close>, with what is left
  of the \<open>L\<close> bytes the call saw.
\<close>

definition stage_inv :: "nat \<Rightarrow> PacketState set \<Rightarrow> stage \<Rightarrow> bool" where
  "stage_inv L sts st = (case st of
     Stop r e p s \<Rightarrow> packet_inv p \<and> p_state p \<noteq> PACKET_DATA \<and> call_ok r e
   | Go p s bytes \<Rightarrow> packet_inv p \<and> p_state p \<in> sts \<and> bytes = length (avail s) \<and> bytes \<le> L)"

lemma read_exact_inv:
  assumes p: "packet_inv p" "p_state p \<noteq> PACKET_DATA" and n: "n \<le> length (avail s)"
    and f: "\<And>buf s'. length buf = n \<Longrightarrow> length (avail s') = length (avail s) - n \<Longrightarrow> stage_inv L sts (f buf s')"
  shows "stage_inv L sts (read_exact n p s f)"
proof (cases "faults s")
  case Nil
  then show ?thesis
    using n f by (simp add: read_exact_def sock_read_def)
next
  case (Cons b fs)
  then show ?thesis
    using p n f by (cases b) (simp_all add: read_exact_def sock_read_def stage_inv_def)
qed

lemma and_then_inv:
  assumes "stage_inv L A st" "\<And>p s bytes. packet_inv p \<Longrightarrow> p_state p \<in> A \<Longrightarrow> bytes = length (avail s) \<Longrightarrow> bytes \<le> L \<Longrightarrow> stage_inv L B (f p s bytes)"
  shows "stage_inv L B (and_then st f)"
  using assms by (cases st) (auto simp: stage_inv_def)

lemma parse_init_inv:
  assumes "packet_inv p"
  shows "stage_inv (length (avail s)) (UNIV - {PACKET_INIT}) (parse_init p s (length (avail s)))"
proof (cases "p_state p = PACKET_INIT")
  case True
  have r: "packet_inv (reset p)" "p_state (reset p) = PACKET_INIT"
    using packet_inv_reset [OF assms] by (simp_all add: reset_def)
  show ?thesis
  proof (cases "length (avail s) < 2")
    case True
    then show ?thesis
      using r \<open>p_state p = PACKET_INIT\<close> by (simp add: parse_init_def Let_def stage_inv_def)
  next
    case False
    have small: "ucast (h AND 0x7f) < (126 :: u64) \<or> ucast (h AND 0x7f) = (126 :: u64) \<or> ucast (h AND 0x7f) = (127 :: u64)"
      for h :: byte
    proof -
      have "unat (h AND 0x7f) \<le> 127"
        using word_and_le1 [of h "0x7f"] by (simp add: word_le_nat_alt)
      moreover have "(ucast (h AND 0x7f) :: u64) = word_of_nat (unat (h AND 0x7f))"
        by simp
      moreover have "(word_of_nat k :: u64) < 126 \<or> (word_of_nat k :: u64) = 126 \<or> (word_of_nat k :: u64) = 127"
        if "k \<le> 127" for k
      proof -
        consider "k < 126" | "k = 126" | "k = 127"
          using \<open>k \<le> 127\<close> by linarith
        then show ?thesis
          by cases (simp_all add: word_less_nat_alt unat_of_nat take_bit_nat_eq_self)
      qed
      ultimately show ?thesis
        by metis
    qed
    show ?thesis
      unfolding parse_init_def Let_def if_P [OF True] if_not_P [OF False]
    proof (rule read_exact_inv [OF r(1)], goal_cases)
      case (3 buf s')
      then show ?case
        using small [of "buf ! 1"] r(1)
        by (auto simp: stage_inv_def packet_inv_def packet_ok_def reset_def)
    qed (use r False in auto)
  qed
next
  case False
  then show ?thesis
    using assms by (simp add: parse_init_def stage_inv_def)
qed

lemma parse_126_inv:
  assumes "packet_inv p" "p_state p \<noteq> PACKET_INIT" "bytes = length (avail s)" "bytes \<le> L"
  shows "stage_inv L (UNIV - {PACKET_INIT, PACKET_HEAD_126}) (parse_126 p s bytes)"
  unfolding parse_126_def using assms
  by (auto intro!: read_exact_inv simp: not_less) (auto simp: stage_inv_def packet_inv_def packet_ok_def)

lemma parse_127_inv:
  assumes "packet_inv p" "p_state p \<notin> {PACKET_INIT, PACKET_HEAD_126}" "bytes = length (avail s)" "bytes \<le> L"
  shows "stage_inv L {PACKET_MASK, PACKET_DATA} (parse_127 p s bytes)"
  unfolding parse_127_def using assms
  by (cases "p_state p")
    (auto intro!: read_exact_inv simp: not_less Let_def, auto simp: stage_inv_def packet_inv_def packet_ok_def)

lemma parse_mask_inv:
  assumes "packet_inv p" "p_state p \<in> {PACKET_MASK, PACKET_DATA}" "bytes = length (avail s)" "bytes \<le> L"
  shows "stage_inv L {PACKET_DATA} (parse_mask p s bytes)"
  unfolding parse_mask_def using assms
  by (auto intro!: read_exact_inv simp: not_less) (auto simp: stage_inv_def packet_inv_def packet_ok_def)

definition head_stages :: "Packet \<Rightarrow> Sock \<Rightarrow> stage" where
  "head_stages p s = and_then (and_then (and_then (parse_init p s (FIONREAD s)) parse_126) parse_127) parse_mask"

lemma head_stages_inv: "packet_inv p \<Longrightarrow> stage_inv (FIONREAD s) {PACKET_DATA} (head_stages p s)"
  unfolding head_stages_def FIONREAD_def
  by (intro and_then_inv [OF and_then_inv [OF and_then_inv [OF parse_init_inv]]])
    (auto intro: parse_126_inv parse_127_inv parse_mask_inv)

text \<open>The length of the frame whose data the call reads, if it gets so far.\<close>

definition announced :: "Packet \<Rightarrow> Sock \<Rightarrow> nat option" where
  "announced p s = (case head_stages p s of Stop r e p s \<Rightarrow> None | Go p s bytes \<Rightarrow> Some (unat (p_body_size p)))"

section \<open>The data\<close>

lemma xor_range_length: "xor_range key off n xs = Some ys \<Longrightarrow> length ys = length xs"
  by (auto simp: xor_range_def slice_def put_bytes_def bind_eq_Some_conv split: if_splits)

lemma read_length:
  assumes "k \<le> n" "n < 2 ^ 31" "bytes < 2 ^ 31"
  shows "(if word_of_nat n - word_of_nat k < (word_of_nat bytes :: u64)
      then unat (word_of_nat n - word_of_nat k :: u64) else bytes) = min (n - k) bytes"
proof -
  have "(word_of_nat n - word_of_nat k :: u64) = word_of_nat (n - k)"
    using assms(1) by (simp add: of_nat_diff)
  then show ?thesis
    using body_int(2) [of "n - k"] body_int(2) [of bytes] assms by (simp add: word_less_nat_alt min_def)
qed

lemma parse_data_inv:
  assumes p: "packet_inv p" "p_state p = PACKET_DATA" "unat (p_body_size p) < 2 ^ 31" and b: "bytes = length (avail s)" "bytes < 2 ^ 31"
  shows "\<exists>r e p' s'. parse_data p s bytes = Some (Stop r e p' s') \<and> packet_inv p' \<and> call_ok r e"
proof -
  define n where "n = unat (p_body_size p)"
  define k where "k = p_len p"
  define m where "m = min (n - k) bytes"
  have body: "p_body_size p = word_of_nat n" and n: "n < 2 ^ 31" "k \<le> n" "k \<le> length (p_data p)" "packet_ok p"
    using p by (simp_all add: n_def k_def packet_inv_def)
  show ?thesis
  proof (cases "\<exists>fs. faults s = True # fs")
    case False
    then have s: "sock_read m s = (Some (take m (avail s)), s\<lparr>avail := drop m (avail s), faults := tl (faults s)\<rparr>)"
        "length (take m (avail s)) = m"
      using b by (auto simp: sock_read_def m_def split: list.split bool.split)
    obtain p' where "parse_data p s bytes = Some (Stop 0 None p' (s\<lparr>avail := drop m (avail s), faults := tl (faults s)\<rparr>))"
        "packet_ok p'" "n \<le> length (p_data p')" "p_len p' = k + m"
        "p_state p' = (if p_len p' = n then PACKET_INIT else PACKET_DATA)" "p_body_size p' = p_body_size p"
      using parse_data_spec [OF n(4) p(2) body k_def [symmetric] n(1-3) b(2) s [unfolded m_def]] s(2) m_def by metis
    moreover have "k + m \<le> n"
      using n(2) by (simp add: m_def)
    ultimately show ?thesis
      by (auto simp: packet_inv_def n_def)
  next
    case True
    then obtain fs where fs: "faults s = True # fs"
      by blast
    define p1 where "p1 = resize (int n) p"
    have room: "n \<le> length (p_data p1)" "packet_ok p1"
      using resize_room [OF n(4), of "int n"] resize_ok [OF n(4)] by (simp_all add: p1_def)
    have len: "(if p_body_size p - word_of_nat (p_len p) < (word_of_nat bytes :: u64)
        then unat (p_body_size p - word_of_nat (p_len p) :: u64) else bytes) = m"
      unfolding body k_def [symmetric] m_def by (rule read_length [OF n(2,1) b(2)])
    have sz: "sint (ucast (p_body_size p) :: 32 word) = int n"
      using body_int(1) [OF n(1)] body by simp
    have "k + m \<le> length (p_data p1)"
      using room(1) n(2) by (simp add: m_def)
    then obtain D where D: "xor_range (p_key p) k m (p_data p1) = Some D" "length D = length (p_data p1)"
      using xor_range_spec [of k m "p_data p1" "p_key p"] by simp
    have "parse_data p s bytes = Some (Stop (-1) (Some ERROR_READ) (p1\<lparr>p_data := D\<rparr>) (s\<lparr>faults := fs\<rparr>))"
      unfolding parse_data_def Let_def len sz using p(2) D(1) by (simp add: sock_read_def fs p1_def k_def)
    moreover have "packet_inv (p1\<lparr>p_data := D\<rparr>)"
      using room D(2) p(1,2) n by (simp add: packet_inv_def packet_ok_def p1_def k_def n_def)
    ultimately show ?thesis
      by auto
  qed
qed

section \<open>The whole call\<close>

lemma readAndParsePacket_inv:
  assumes "packet_inv p" "FIONREAD s < 2 ^ 31" "\<forall>n. announced p s = Some n \<longrightarrow> n < 2 ^ 31"
  shows "\<exists>r e p' s'. readAndParsePacket p s = Some (r, e, p', s') \<and> packet_inv p' \<and> call_ok r e"
proof (cases "head_stages p s")
  case (Stop r e p' s')
  then show ?thesis
    using head_stages_inv [OF assms(1), of s]
    by (auto simp: readAndParsePacket_run run_def stage_inv_def simp flip: head_stages_def)
next
  case (Go p' s' bytes)
  have inv: "packet_inv p'" "p_state p' = PACKET_DATA" "bytes = length (avail s')"
    using head_stages_inv [OF assms(1), of s] Go by (simp_all add: stage_inv_def)
  have "bytes < 2 ^ 31"
    using head_stages_inv [OF assms(1), of s] Go assms(2) by (simp add: stage_inv_def)
  from parse_data_inv [OF inv(1,2) _ inv(3) this] obtain r e p'' s'' where
    "parse_data p' s' bytes = Some (Stop r e p'' s'')" "packet_inv p''" "call_ok r e"
    using assms(3) Go by (auto simp: announced_def)
  then show ?thesis
    using Go by (auto simp: readAndParsePacket_run run_def simp flip: head_stages_def)
qed

text \<open>The invariant also survives the calls with larger lengths, as long as they stay in the array.\<close>

lemma parse_data_partial:
  assumes p: "packet_inv p" "p_state p = PACKET_DATA" "bytes < 2 ^ 31" and r: "parse_data p s bytes = Some st"
  shows "\<exists>r e p' s'. st = Stop r e p' s' \<and> packet_inv p' \<and> call_ok r e"
proof -
  define n where "n = unat (p_body_size p)"
  define k where "k = p_len p"
  have body: "p_body_size p = word_of_nat n" and n: "k \<le> n" "k \<le> length (p_data p)" "packet_ok p"
    using p by (simp_all add: n_def k_def packet_inv_def)
  have lt: "unat (p_body_size p) < 2 ^ 64"
    by (rule order_less_le_trans [OF unsigned_less]) simp
  define room where "room = p_body_size p - word_of_nat k"
  have "(word_of_nat k :: u64) \<le> p_body_size p"
    using n(1) lt by (simp add: n_def word_le_nat_alt unat_of_nat take_bit_nat_eq_self)
  then have room: "unat room = n - k"
    using n(1) lt
    by (simp add: room_def unat_sub n_def unat_of_nat take_bit_nat_eq_self)
  define m where "m = (if room < word_of_nat bytes then unat room else bytes)"
  have "unat (word_of_nat bytes :: u64) = bytes"
    using p(3) by (simp add: unat_of_nat take_bit_nat_eq_self)
  then have m: "m \<le> n - k"
    using room by (simp add: m_def word_less_nat_alt not_less split: if_splits)
  define p1 where "p1 = resize (sint (ucast (p_body_size p) :: 32 word)) p"
  have p1: "packet_ok p1" "p_len p1 = k" "p_body_size p1 = p_body_size p" "p_state p1 = PACKET_DATA" "k \<le> length (p_data p1)"
    using resize_ok [OF n(3)] n(2) p(2) by (auto simp: p1_def k_def resize_def)
  obtain x s' where x: "sock_read m s = (x, s')"
    by fastforce
  have "length xs \<le> m" if "x = Some xs" for xs
    using x \<open>x = Some xs\<close> by (auto simp: sock_read_def split: list.splits bool.splits)
  then have xs: "length xs \<le> n - k" if "x = Some xs" for xs
    using m that by fastforce
  have len: "(if p_body_size p - word_of_nat (p_len p) < (word_of_nat bytes :: u64)
      then unat (p_body_size p - word_of_nat (p_len p)) else bytes) = m"
    by (simp add: m_def room_def k_def)
  note r' = r [unfolded parse_data_def Let_def len]
  show ?thesis
  proof (cases x)
    case None
    obtain D where D: "xor_range (p_key p) k m (p_data p1) = Some D" "st = Stop (-1) (Some ERROR_READ) (p1\<lparr>p_data := D\<rparr>) s'"
      using r' p(2) x None by (auto simp: bind_eq_Some_conv p1_def k_def)
    then show ?thesis
      using p1 n(1) xor_range_length [OF D(1)] by (auto simp: packet_inv_def packet_ok_def n_def)
  next
    case (Some ys)
    obtain D0 D where D: "put_bytes k ys (p_data p1) = Some D0" "xor_range (p_key p) k m D0 = Some D"
      and st: "st = (if length ys \<noteq> m then Stop (-1) (Some ERROR_READ) (p1\<lparr>p_data := D\<rparr>) s'
        else Stop 0 None (if word_of_nat (k + length ys) = p_body_size p
          then p1\<lparr>p_data := D, p_len := k + length ys, p_state := PACKET_INIT\<rparr>
          else p1\<lparr>p_data := D, p_len := k + length ys\<rparr>) s')"
      using r' p(2) x Some
      by (auto simp: bind_eq_Some_conv p1_def k_def simp del: of_nat_add split: if_splits)
    have "length D = length (p_data p1)" "k + length ys \<le> length (p_data p1)"
      using xor_range_length [OF D(2)] D(1) by (auto simp: put_bytes_def split: if_splits)
    moreover have "k + length ys \<le> n"
      using xs [OF Some] n(1) by linarith
    ultimately show ?thesis
      using p1 n(1) by (auto simp: st packet_inv_def packet_ok_def n_def)
  qed
qed

lemma readAndParsePacket_keeps:
  assumes "packet_inv p" "FIONREAD s < 2 ^ 31" "readAndParsePacket p s = Some (r, e, p', s')"
  shows "packet_inv p' \<and> call_ok r e"
proof (cases "head_stages p s")
  case (Stop r1 e1 p1 s1)
  then show ?thesis
    using head_stages_inv [OF assms(1), of s] assms(3)
    by (auto simp: readAndParsePacket_run run_def stage_inv_def simp flip: head_stages_def)
next
  case (Go p1 s1 bytes)
  have inv: "packet_inv p1" "p_state p1 = PACKET_DATA" "bytes < 2 ^ 31"
    using head_stages_inv [OF assms(1), of s] Go assms(2) by (simp_all add: stage_inv_def)
  obtain st where st: "parse_data p1 s1 bytes = Some st"
    using assms(3) Go by (cases "parse_data p1 s1 bytes") (auto simp: readAndParsePacket_run run_def simp flip: head_stages_def)
  from parse_data_partial [OF inv st] show ?thesis
    using assms(3) Go st by (auto simp: readAndParsePacket_run run_def simp flip: head_stages_def)
qed

section \<open>Announced lengths past the range of int\<close>

lemma sint_big:
  assumes "2 ^ 31 \<le> n" "n < 2 ^ 32"
  shows "sint (ucast (word_of_nat n :: u64) :: 32 word) < 0"
proof -
  have "unat (word_of_nat n :: u64) = n"
    using assms by (simp add: unat_of_nat take_bit_nat_eq_self)
  then have "(ucast (word_of_nat n :: u64) :: 32 word) = word_of_nat n"
    by (metis of_nat_unat)
  moreover have "n div 2 ^ 31 = 1"
    using assms by (intro div_nat_eqI) simp_all
  then have "bit (word_of_nat n :: 32 word) 31"
    by (simp add: bit_of_nat_iff bit_iff_odd [of n])
  ultimately show ?thesis
    by (simp add: sint_uint signed_take_bit_negative_iff bit_uint_iff)
qed

lemma parse_data_big:
  assumes p: "p_state p = PACKET_DATA" "p_body_size p = word_of_nat n" "2 ^ 31 \<le> n" "n < 2 ^ 32"
    and l: "p_len p = 0" "p_data p = []" "p_size p = 0" and xs: "avail s = xs" "xs \<noteq> []" "length xs < 2 ^ 31" "faults s = []"
  shows "parse_data p s (length xs) = None"
proof -
  have "(word_of_nat (length xs) :: u64) \<le> word_of_nat n" "unat (word_of_nat n :: u64) = n"
    using p xs by (simp_all add: word_le_nat_alt unat_of_nat take_bit_nat_eq_self)
  moreover have "resize (sint (ucast (p_body_size p) :: 32 word)) p = p"
    using sint_big [OF p(3,4)] p(2) l(3) by (simp add: resize_def)
  ultimately show ?thesis
    using p l xs by (simp add: parse_data_def Let_def sock_read_def put_bytes_def not_less)
qed

definition big_length :: "byte list \<Rightarrow> nat" where
  "big_length bs = fold (\<lambda>b n. n * 256 + unat b) bs 0"

lemma big_length_range:
  assumes "128 \<le> b4"
  shows "2 ^ 31 \<le> big_length [b4, b5, b6, b7]" "big_length [b4, b5, b6, b7] < 2 ^ 32"
proof -
  have "128 \<le> unat b4"
    using assms by (simp add: word_le_nat_alt)
  then show "2 ^ 31 \<le> big_length [b4, b5, b6, b7]"
    by (simp add: big_length_def)
  show "big_length [b4, b5, b6, b7] < 2 ^ 32"
    using byte_less [of b4] byte_less [of b5] byte_less [of b6] byte_less [of b7] by (simp add: big_length_def)
qed

lemma read_exact_append:
  "length ys = n \<Longrightarrow> read_exact n p \<lparr>avail = ys @ zs, faults = []\<rparr> f = f ys \<lparr>avail = zs, faults = []\<rparr>"
  by (simp add: read_exact_def sock_read_def)

lemma length_overflow:
  assumes "length key = 4" "128 \<le> b4" "xs \<noteq> []" "length xs < 2 ^ 31"
  shows "readAndParsePacket (new_Packet stale)
    \<lparr>avail = [b0, 0xFF, 0, 0, 0, 0, b4, b5, b6, b7] @ key @ xs, faults = []\<rparr> = None"
proof -
  obtain k0 k1 k2 k3 where key: "key = [k0, k1, k2, k3]"
    using list_4 [OF assms(1)] by blast
  have len: "((unat b4 * 256 + unat b5) * 256 + unat b6) * 256 + unat b7 = big_length [b4, b5, b6, b7]"
    by (simp add: big_length_def)
  define p where "p = (new_Packet stale)\<lparr>p_head_size := 14, p_fin := drop_bit 7 b0, p_opcode := b0 AND 0x0f, p_mask := 1,
    p_body_size := word_of_nat (big_length [b4, b5, b6, b7]), p_key := key, p_state := PACKET_DATA\<rparr>"
  have d: "parse_data p \<lparr>avail = xs, faults = []\<rparr> (length xs) = None"
    using big_length_range [OF assms(2), of b5 b6 b7] assms(3,4)
    by (intro parse_data_big [where n = "big_length [b4, b5, b6, b7]"]) (simp_all add: p_def new_Packet_def)
  have i: "parse_init (new_Packet stale) \<lparr>avail = [b0, 0xFF] @ rest, faults = []\<rparr> (2 + n)
      = Go ((new_Packet stale)\<lparr>p_head_size := 2, p_fin := drop_bit 7 b0, p_opcode := b0 AND 0x0f, p_mask := 1,
          p_body_size := 127, p_state := PACKET_HEAD_127\<rparr>) \<lparr>avail = rest, faults = []\<rparr> n" for rest n
    using read_exact_append [of "[b0, 0xFF]" 2 "reset (new_Packet stale)" rest]
    by (simp add: parse_init_def Let_def new_Packet_def reset_def)
  have l: "parse_127 ((new_Packet stale)\<lparr>p_head_size := 2, p_fin := drop_bit 7 b0, p_opcode := b0 AND 0x0f, p_mask := 1,
          p_body_size := 127, p_state := PACKET_HEAD_127\<rparr>) \<lparr>avail = [0, 0, 0, 0, b4, b5, b6, b7] @ rest, faults = []\<rparr> (8 + n)
      = Go ((new_Packet stale)\<lparr>p_head_size := 10, p_fin := drop_bit 7 b0, p_opcode := b0 AND 0x0f, p_mask := 1,
          p_body_size := word_of_nat (big_length [b4, b5, b6, b7]), p_state := PACKET_MASK\<rparr>)
        \<lparr>avail = rest, faults = []\<rparr> n" for rest n
    using read_exact_append [of "[0, 0, 0, 0, b4, b5, b6, b7]" 8 _ rest] len
    by (simp add: parse_127_def Let_def new_Packet_def)
  have m: "parse_mask ((new_Packet stale)\<lparr>p_head_size := 10, p_fin := drop_bit 7 b0, p_opcode := b0 AND 0x0f, p_mask := 1,
          p_body_size := word_of_nat (big_length [b4, b5, b6, b7]), p_state := PACKET_MASK\<rparr>)
        \<lparr>avail = key @ xs, faults = []\<rparr> (4 + n) = Go p \<lparr>avail = xs, faults = []\<rparr> n" for n
    using read_exact_append [of key 4 _ xs] assms(1) by (simp add: parse_mask_def Let_def new_Packet_def p_def)
  have n: "length ([b0, 0xFF] @ [0, 0, 0, 0, b4, b5, b6, b7] @ key @ xs) = 2 + (8 + (4 + length xs))"
    using assms(1) by simp
  have skip: "parse_126 q s k = Go q s k" if "p_state q = PACKET_HEAD_127" for q s k
    using that by (simp add: parse_126_def)
  have "readAndParsePacket (new_Packet stale)
    \<lparr>avail = [b0, 0xFF] @ [0, 0, 0, 0, b4, b5, b6, b7] @ key @ xs, faults = []\<rparr> = None"
    unfolding readAndParsePacket_def FIONREAD_def Sock.simps n i and_then.simps
    by (subst skip, simp) (simp only: l m d and_then.simps stage.case option.case)
  then show ?thesis
    by simp
qed

section \<open>Properties\<close>

text \<open>
  C35: the server's frame parser is memory safe and ends on arbitrary bytes: from a packet that meets
  the invariant, whatever has arrived and whichever reads fail, a call returns 0, or -1 with an error
  set, writes only inside the packet's array and keeps the invariant, as long as the frame does not
  announce \<open>2 ^ 31\<close> bytes or more.
\<close>

theorem server_parse_safe:
  assumes "packet_inv p" "FIONREAD s < 2 ^ 31" "\<forall>n. announced p s = Some n \<longrightarrow> n < 2 ^ 31"
  shows "\<exists>r e p' s'. readAndParsePacket p s = Some (r, e, p', s') \<and> packet_inv p' \<and> call_ok r e"
  by (rule readAndParsePacket_inv [OF assms])

theorem server_parse_safe_witness:
  "\<exists>r e p' s'. readAndParsePacket (new_Packet [0, 0, 0, 0]) \<lparr>avail = [0x81, 0x83, 1], faults = [True]\<rparr> = Some (r, e, p', s') \<and>
    packet_inv p' \<and> call_ok r e"
proof (rule server_parse_safe)
  show "packet_inv (new_Packet [0, 0, 0, 0])"
    by (rule packet_inv_new) simp
  show "\<forall>n. announced (new_Packet [0, 0, 0, 0]) \<lparr>avail = [0x81, 0x83, 1], faults = [True]\<rparr> = Some n \<longrightarrow> n < 2 ^ 31"
    by (simp add: announced_def head_stages_def parse_init_def FIONREAD_def new_Packet_def reset_def Let_def
        read_exact_def sock_read_def)
qed (simp add: FIONREAD_def)

text \<open>
  A frame that announces between \<open>2 ^ 31\<close> and \<open>2 ^ 32 - 1\<close> bytes corrupts memory: \<open>resize(int)\<close> sees
  a negative length and allocates nothing, and the first byte of the data is written through the null
  pointer of a fresh packet.
\<close>

theorem server_length_overflow:
  assumes "length key = 4" "128 \<le> b4" "xs \<noteq> []" "length xs < 2 ^ 31"
  shows "readAndParsePacket (new_Packet stale)
    \<lparr>avail = [b0, 0xFF, 0, 0, 0, 0, b4, b5, b6, b7] @ key @ xs, faults = []\<rparr> = None"
  by (rule length_overflow [OF assms])

theorem server_length_overflow_witness:
  "readAndParsePacket (new_Packet [0, 0, 0, 0])
    \<lparr>avail = [0x82, 0xFF, 0, 0, 0, 0, 0x80, 0, 0, 0] @ [1, 2, 3, 4] @ [7], faults = []\<rparr> = None"
  by (rule server_length_overflow) simp_all

end
