(* ===== verification/Connection_Inv.thy ===== *)
theory Connection_Inv
  imports Connection Server_Safe
begin

text \<open>
  The states a session can be in between two events, whatever arrives, whichever calls fail and in
  whatever order: the two transient states are never seen, an error state has an error, and the
  counter of bytes is the length of the file.
\<close>

section \<open>What the operations leave alone\<close>

lemma write_loop_result:
  "write_loop ws data = Some (ret, out, ws') \<Longrightarrow> (ret = 0 \<and> out = data) \<or> (ret = -1 \<and> (\<exists>k. out = take k data))"
proof (induction ws data arbitrary: ret out ws' rule: write_loop.induct)
  case (3 n e ws b bs)
  show ?case
  proof (cases "n \<le> 0")
    case True
    then show ?thesis
      using 3 by (cases e) (auto intro: exI [of _ 0])
  next
    case False
    then obtain out' where o: "write_loop ws (drop (nat n) (b # bs)) = Some (ret, out', ws')" "out = take (nat n) (b # bs) @ out'"
      using "3.prems" by (auto simp: bind_eq_Some_conv)
    from "3.IH"(3) [OF False this(1)] show ?thesis
    proof
      assume "ret = 0 \<and> out' = drop (nat n) (b # bs)"
      then show ?thesis
        using o(2) by simp
    next
      assume "ret = -1 \<and> (\<exists>k. out' = take k (drop (nat n) (b # bs)))"
      then obtain k where "ret = -1" "out' = take k (drop (nat n) (b # bs))"
        by blast
      then have "ret = -1 \<and> out = take (nat n + k) (b # bs)"
        using o(2) by (simp add: take_add)
      then show ?thesis
        by blast
    qed
  qed
qed auto

lemma writeData_same:
  assumes "writeData data s = Some (ret, s')"
  obtains out ws where "s' = s\<lparr>s_sent := s_sent s @ out, s_writes := ws, s_error := if ret = 0 then s_error s else ERROR_WRITE\<rparr>"
    "ret = 0 \<and> out = data \<or> ret = -1 \<and> (\<exists>k. out = take k data)"
proof -
  obtain out ws where w: "write_loop (s_writes s) data = Some (ret, out, ws)"
      "s' = (let s = s\<lparr>s_sent := s_sent s @ out, s_writes := ws\<rparr> in if ret = 0 then s else s\<lparr>s_error := ERROR_WRITE\<rparr>)"
    using assms by (auto simp: writeData_def bind_eq_Some_conv Let_def)
  show thesis
    using w(2) write_loop_result [OF w(1)] by (intro that [where out = out and ws = ws]) (auto simp: Let_def)
qed

lemma put_byte_length: "put_byte i b xs = Some ys \<Longrightarrow> length ys = length xs"
  by (auto simp: put_byte_def split: if_splits)

lemma put_bytes_length: "put_bytes i zs xs = Some ys \<Longrightarrow> length ys = length xs"
  by (auto simp: put_bytes_def split: if_splits)

lemma sendResult_head_length: "sendResult_head n data = Some (h, data') \<Longrightarrow> length data' = length data"
  by (auto simp: sendResult_head_def bind_eq_Some_conv split: if_splits dest!: put_byte_length)

lemma sendResult_packet_ok:
  assumes "sendResult_packet result p = Some p'" "packet_ok p"
  shows "packet_ok p'"
  using assms resize_ok [OF assms(2), of "int (sendResult_size (length result))"]
  by (auto simp: sendResult_packet_def Let_def bind_eq_Some_conv packet_ok_def
      dest!: put_bytes_length sendResult_head_length)

lemma reply_same:
  assumes "reply env l s = Some (ret, s')"
  obtains p sent ws e where "s' = s\<lparr>s_write := p, s_sent := sent, s_writes := ws, s_error := e\<rparr>" "ret = 0"
    "packet_ok (s_write s) \<longrightarrow> packet_ok p"
proof -
  obtain r p ret' where p: "sendResult_packet r (s_write s) = Some p"
      "writeData (packet_out p) (s\<lparr>s_write := p\<rparr>) = Some (ret', s')" "ret = 0"
    using assms by (auto simp: reply_def sendResult_def bind_eq_Some_conv)
  from p(2) show thesis
  proof (rule writeData_same)
    fix out ws
    assume "s' = s\<lparr>s_write := p\<rparr>\<lparr>s_sent := s_sent (s\<lparr>s_write := p\<rparr>) @ out, s_writes := ws,
      s_error := if ret' = 0 then s_error (s\<lparr>s_write := p\<rparr>) else ERROR_WRITE\<rparr>"
    then show thesis
      using p(1,3) sendResult_packet_ok [OF p(1)]
      by (intro that [where p = p and sent = "s_sent s @ out" and ws = ws
          and e = "if ret' = 0 then s_error s else ERROR_WRITE"]) auto
  qed
qed

section \<open>The invariant\<close>

definition session_inv :: "Session \<Rightarrow> bool" where
  "session_inv s \<longleftrightarrow> packet_inv (s_read s) \<and> packet_ok (s_write s) \<and>
     s_state s \<in> {STATE_HEAD, STATE_DATA, STATE_CLOSE, STATE_ERROR} \<and>
     (s_state s = STATE_HEAD \<longrightarrow> s_error s = ERROR_NO \<and> s_file s = []) \<and>
     (s_state s \<in> {STATE_DATA, STATE_CLOSE} \<longrightarrow> s_bytes s = int (length (s_file s))) \<and>
     (s_state s = STATE_ERROR \<longrightarrow> s_error s \<noteq> ERROR_NO) \<and>
     (s_state s \<in> {STATE_HEAD, STATE_DATA} \<longrightarrow> \<not> s_final s) \<and> (s_state s = STATE_CLOSE \<longrightarrow> s_final s)"

lemma readAndParseHead_same:
  assumes "readAndParseHead s = Some (ret, s')"
  obtains so rs hs e where "s' = s\<lparr>s_sock := so, s_reads := rs, s_headers := hs, s_error := e\<rparr>"
    "ret = 0 \<and> e = s_error s \<or> ret = -1 \<and> e \<noteq> ERROR_NO"
proof -
  obtain en buf lf rs where h: "read_head (s_reads s) (s_closed s) (avail (s_sock s)) [] = (en, buf, lf, rs)"
    by (metis prod.exhaust)
  note run = readAndParseHead_def h Let_def
  show thesis
  proof (cases en)
    case Drained
    show thesis
    proof (cases "parseHead buf (s_headers s)")
      case None
      then show thesis
        using assms Drained by (simp add: run)
    next
      case (Some r)
      show thesis
      proof (cases r)
        case (Inl x)
        then show thesis
          using assms Drained Some
          by (intro that [where so = "(s_sock s)\<lparr>avail := lf\<rparr>" and rs = rs and hs = "s_headers s" and e = ERROR_PARSE_HEAD])
            (simp_all add: run)
      next
        case (Inr hs)
        then show thesis
          using assms Drained Some
          by (intro that [where so = "(s_sock s)\<lparr>avail := lf\<rparr>" and rs = rs and hs = hs and e = "s_error s"])
            (auto simp: run)
      qed
    qed
  next
    case Client_closed
    then show thesis
      using assms by (intro that [where so = "(s_sock s)\<lparr>avail := lf\<rparr>" and rs = rs and hs = "s_headers s" and e = ERROR_CLIENT_CLOSE])
        (simp_all add: run)
  next
    case Read_error
    then show thesis
      using assms by (intro that [where so = "(s_sock s)\<lparr>avail := lf\<rparr>" and rs = rs and hs = "s_headers s" and e = ERROR_PARSE_HEAD])
        (simp_all add: run)
  qed
qed

text \<open>The four parts of the handler.\<close>

lemma on_head_inv:
  assumes "session_inv s" "s_state s = STATE_HEAD" "on_head env s = Some s'"
  shows "packet_inv (s_read s') \<and> packet_ok (s_write s') \<and> s_state s' \<in> {STATE_START, STATE_ERROR} \<and>
    s_file s' = [] \<and> \<not> s_final s' \<and> (s_state s' = STATE_ERROR \<longrightarrow> s_error s' \<noteq> ERROR_NO)"
proof -
  obtain ret s1 where r: "readAndParseHead s = Some (ret, s1)"
    using assms(3) by (auto simp: on_head_def bind_eq_Some_conv)
  then obtain so rs hs e where s1: "s1 = s\<lparr>s_sock := so, s_reads := rs, s_headers := hs, s_error := e\<rparr>"
      "ret = 0 \<and> e = s_error s \<or> ret = -1 \<and> e \<noteq> ERROR_NO"
    by (rule readAndParseHead_same)
  show ?thesis
  proof (cases "ret = 0")
    case False
    then show ?thesis
      using assms s1 r by (auto simp: on_head_def session_inv_def)
  next
    case True
    then obtain request ret2 s2 where w: "writeData request s1 = Some (ret2, s2)"
        "s' = s2\<lparr>s_state := if ret2 \<noteq> 0 then STATE_ERROR else STATE_START\<rparr>"
      using assms(3) r by (auto simp: on_head_def set_state_def send_respond_def bind_eq_Some_conv)
    from w(1) show ?thesis
      by (rule writeData_same) (use assms s1 w(2) in \<open>auto simp: session_inv_def\<close>)
  qed
qed

lemma read_packet_inv:
  assumes "packet_inv (s_read s)" "FIONREAD (s_sock s) < 2 ^ 31" "read_packet s = Some (ret, s')"
  obtains p so e where "s' = s\<lparr>s_read := p, s_sock := so, s_error := e\<rparr>" "packet_inv p"
    "ret = 0 \<or> ret = -1 \<and> e \<noteq> ERROR_NO"
proof -
  obtain e p so where r: "readAndParsePacket (s_read s) (s_sock s) = Some (ret, e, p, so)"
      "s' = (case e of None \<Rightarrow> s\<lparr>s_read := p, s_sock := so\<rparr> | Some e \<Rightarrow> s\<lparr>s_read := p, s_sock := so, s_error := e\<rparr>)"
    using assms(3) by (auto simp: read_packet_def bind_eq_Some_conv Let_def split: option.splits)
  have "packet_inv p \<and> call_ok ret e"
    by (rule readAndParsePacket_keeps [OF assms(1,2) r(1)])
  then show thesis
    using r(2) by (cases e)
      (auto simp: call_ok_def intro: that [where p = p and so = so and e = "s_error s"]
        that [where p = p and so = so and e = "the e"])
qed

lemma processPacket_inv:
  assumes "processPacket env s = Some (ret, s')" "packet_ok (s_write s)" "packet_inv (s_read s)"
  shows "ret = 0 \<and> packet_ok (s_write s') \<and> s_read s' = s_read s \<and> s_state s' = s_state s \<and>
    s_bytes s' - int (length (s_file s')) = s_bytes s - int (length (s_file s))"
proof -
  have len: "length (packet_out (s_read s)) = p_len (s_read s)"
    using assms(3) by (simp add: packet_out_def packet_inv_def)
  show ?thesis
  proof (cases "p_opcode (s_read s) = WEBSOCKET_CONNECT_CLOSE \<or>
      p_opcode (s_read s) = WEBSOCKET_TEXT_DATA \<and> p_state (s_read s) = PACKET_INIT \<and> p_len (s_read s) = 3 \<or>
      p_state (s_read s) \<noteq> PACKET_INIT")
    case True
    then show ?thesis
      using assms by (auto simp: processPacket_def Let_def split: if_splits)
  next
    case False
    then obtain s1 where s1: "save (packet_out (s_read s)) (s\<lparr>s_bytes := s_bytes s + int (p_len (s_read s))\<rparr>) = Some s1"
        "reply env 0 s1 = Some (ret, s')"
      using assms(1) by (auto simp: processPacket_def Let_def bind_eq_Some_conv split: if_splits)
    then have f: "s_bytes s1 = s_bytes s + int (p_len (s_read s))" "s_file s1 = s_file s @ packet_out (s_read s)"
        "s_write s1 = s_write s" "s_read s1 = s_read s" "s_state s1 = s_state s"
      by (auto simp: save_def split: list.splits bool.splits)
    from s1(2) show ?thesis
      by (rule reply_same) (use f len assms(2) in auto)
  qed
qed

lemma processEnd_inv:
  assumes "processEnd env s = Some (ret, s')" "packet_ok (s_write s)"
  shows "ret = 0 \<and> packet_ok (s_write s') \<and> s_read s' = s_read s \<and> s_final s' = s_final s \<and>
    s_bytes s' = s_bytes s \<and> s_file s' = s_file s"
  using assms(1) unfolding processEnd_def by (rule reply_same) (use assms(2) in auto)

lemma processError_inv:
  assumes "processError env s = Some s'"
  shows "packet_inv (s_read s) \<longrightarrow> packet_inv (s_read s')" "s_write s' = s_write s" "s_state s' = s_state s"
    "s_error s \<noteq> ERROR_NO \<longrightarrow> s_error s' \<noteq> ERROR_NO"
proof -
  have "packet_inv (s_read s) \<longrightarrow> packet_inv (s_read s')" "s_write s' = s_write s" "s_state s' = s_state s"
    "s_error s \<noteq> ERROR_NO \<longrightarrow> s_error s' \<noteq> ERROR_NO" if "writeData request s = Some (ret, s')" for request ret
    using that by (rule writeData_same, simp)+
  then show "packet_inv (s_read s) \<longrightarrow> packet_inv (s_read s')" "s_write s' = s_write s" "s_state s' = s_state s"
    "s_error s \<noteq> ERROR_NO \<longrightarrow> s_error s' \<noteq> ERROR_NO"
    using assms by (auto simp: processError_def bind_eq_Some_conv split: if_splits)
qed

lemma finish_inv:
  assumes "packet_inv (s_read s)" "packet_ok (s_write s)" "s_state s \<in> {STATE_DATA, STATE_FINISH, STATE_ERROR}"
    and "s_state s \<noteq> STATE_ERROR \<longrightarrow> s_bytes s = int (length (s_file s))"
    and "s_state s = STATE_ERROR \<longrightarrow> s_error s \<noteq> ERROR_NO" "s_state s = STATE_FINISH \<longleftrightarrow> s_state s \<noteq> STATE_ERROR \<and> s_final s"
    and "(if s_state s = STATE_FINISH then set_state STATE_CLOSE (processEnd env s) else Some s) = Some s1"
    and "(if s_state s1 = STATE_ERROR then processError env s1 else Some s1) = Some s'"
  shows "session_inv s'"
proof (cases "s_state s = STATE_FINISH")
  case True
  then obtain ret s2 where r: "processEnd env s = Some (ret, s2)" "s1 = s2\<lparr>s_state := if ret \<noteq> 0 then STATE_ERROR else STATE_CLOSE\<rparr>"
    using assms(7) by (auto simp: set_state_def bind_eq_Some_conv)
  show ?thesis
    using processEnd_inv [OF r(1) assms(2)] r(2) True assms by (auto simp: session_inv_def)
next
  case False
  then have "s1 = s"
    using assms(7) by simp
  then show ?thesis
    using assms False processError_inv [of env s s'] by (cases "s_state s = STATE_ERROR") (auto simp: session_inv_def)
qed

lemma handleRead_inv:
  assumes inv: "session_inv s" and live: "s_state s \<in> {STATE_HEAD, STATE_DATA}"
    and fio: "FIONREAD (s_sock s) < 2 ^ 31" and r: "handleRead env s = Some s'"
  shows "session_inv s'"
proof (cases "s_state s = STATE_HEAD")
  case True
  then obtain s1 s2 s3 where s: "on_head env s = Some s1"
    "(if s_state s1 = STATE_START then set_state STATE_DATA (processStart s1)
      else if s_state s1 = STATE_DATA then on_data env s1 else Some s1) = Some s2"
    "(if s_state s2 = STATE_FINISH then set_state STATE_CLOSE (processEnd env s2) else Some s2) = Some s3"
    "(if s_state s3 = STATE_ERROR then processError env s3 else Some s3) = Some s'"
    using r by (auto simp: handleRead_def bind_eq_Some_conv)
  note h = on_head_inv [OF inv True s(1)]
  have s2: "s2 = (if s_state s1 = STATE_START then s1\<lparr>s_bytes := 0, s_state := STATE_DATA\<rparr> else s1)"
    using s(2) h by (auto simp: set_state_def processStart_def)
  show ?thesis
    by (rule finish_inv [OF _ _ _ _ _ _ s(3,4)]) (use h s2 in \<open>auto split: if_splits\<close>)
next
  case False
  then have d: "s_state s = STATE_DATA"
    using live by simp
  then obtain s2 s3 where s: "on_data env s = Some s2"
    "(if s_state s2 = STATE_FINISH then set_state STATE_CLOSE (processEnd env s2) else Some s2) = Some s3"
    "(if s_state s3 = STATE_ERROR then processError env s3 else Some s3) = Some s'"
    using r by (auto simp: handleRead_def bind_eq_Some_conv)
  have i: "packet_inv (s_read s)" "packet_ok (s_write s)" "s_bytes s = int (length (s_file s))" "\<not> s_final s"
    using inv d by (simp_all add: session_inv_def)
  obtain ret s1 where p: "read_packet s = Some (ret, s1)"
    using s(1) by (auto simp: on_data_def bind_eq_Some_conv)
  from read_packet_inv [OF i(1) fio this] obtain p so e where s1:
    "s1 = s\<lparr>s_read := p, s_sock := so, s_error := e\<rparr>" "packet_inv p" "ret = 0 \<or> ret = -1 \<and> e \<noteq> ERROR_NO" .
  show ?thesis
  proof (cases "ret = 0")
    case False
    then have "s2 = s1\<lparr>s_state := STATE_ERROR\<rparr>"
      using s(1) p by (simp add: on_data_def)
    then show ?thesis
      using finish_inv [OF _ _ _ _ _ _ s(2,3)] s1 i False by simp
  next
    case True
    then obtain ret2 s4 where q: "processPacket env s1 = Some (ret2, s4)"
        "s2 = (if ret2 \<noteq> 0 then s4\<lparr>s_state := STATE_ERROR\<rparr> else if s_final s4 then s4\<lparr>s_state := STATE_FINISH\<rparr> else s4)"
      using s(1) p by (auto simp: on_data_def bind_eq_Some_conv)
    have "packet_ok (s_write s1)" "packet_inv (s_read s1)"
      using s1 i by simp_all
    note f = processPacket_inv [OF q(1) this]
    show ?thesis
      by (rule finish_inv [OF _ _ _ _ _ _ s(2,3)]) (use f q(2) s1 i d in \<open>auto split: if_splits\<close>)
  qed
qed

section \<open>Reachable sessions\<close>

text \<open>
  Between two readable events bytes arrive, the client may hang up, and which of the coming calls
  fail is decided.  \<open>handleConn\<close> takes a session in one of the two last states off the poller.
\<close>

inductive session_step :: "('d, 'e) surroundings_scheme \<Rightarrow> Session \<Rightarrow> Session \<Rightarrow> bool" for env where
  bytes_arrive: "session_step env s (s\<lparr>s_sock := arrive xs (s_sock s)\<rparr>)"
| hang_up: "session_step env s (s\<lparr>s_closed := True\<rparr>)"
| calls: "session_step env s (s\<lparr>s_reads := rs, s_writes := ws, s_opens := ops, s_sock := (s_sock s)\<lparr>faults := fs\<rparr>\<rparr>)"
| readable: "s_state s \<noteq> STATE_ERROR \<Longrightarrow> s_state s \<noteq> STATE_CLOSE \<Longrightarrow> FIONREAD (s_sock s) < 2 ^ 31 \<Longrightarrow>
    handleRead env s = Some s' \<Longrightarrow> session_step env s s'"

inductive_cases session_stepE: "session_step env s s'"

lemma session_inv_new:
  "length stale1 = 4 \<Longrightarrow> length stale2 = 4 \<Longrightarrow> session_inv (new_Session uuid stale1 stale2 raw_bytes sock)"
  using packet_inv_new [of stale1] packet_inv_new [of stale2] by (simp add: session_inv_def new_Session_def packet_inv_def)

lemma session_step_inv: "session_step env s s' \<Longrightarrow> session_inv s \<Longrightarrow> session_inv s'"
proof (induction rule: session_step.induct)
  case (readable s s')
  then have "s_state s \<in> {STATE_HEAD, STATE_DATA}"
    by (auto simp: session_inv_def)
  with handleRead_inv readable show ?case
    by blast
qed (simp_all add: session_inv_def)

lemma session_reach_inv: "(session_step env)\<^sup>*\<^sup>* s s' \<Longrightarrow> session_inv s \<Longrightarrow> session_inv s'"
  by (induction rule: rtranclp_induct) (auto intro: session_step_inv)

text \<open>
  C34: in every reachable state of a connection, whatever bytes arrive, in whatever pieces, and
  whichever system calls fail: it is in one of the states head, data, close and error, an error
  state has its error set, a closed one has seen the end of the stream, the number of bytes counted
  is the length of the file, and the read packet meets the invariant of the parser.
\<close>

theorem session_invariant:
  assumes "length stale1 = 4" "length stale2 = 4"
    and "(session_step env)\<^sup>*\<^sup>* (new_Session uuid stale1 stale2 raw_bytes sock) s"
  shows "session_inv s"
  using session_reach_inv [OF assms(3)] session_inv_new [OF assms(1,2)] by blast

text \<open>A connection that hangs up before it has sent anything.\<close>

definition some_surroundings :: "int surroundings" where
  "some_surroundings = \<lparr>e_dbl = int_double, e_alloc = (\<lambda>_. True), e_hooks = plenty, e_stack = some_SHA1\<rparr>"

theorem session_invariant_witness:
  "\<exists>s. (session_step some_surroundings)\<^sup>*\<^sup>* (new_Session [] [0, 0, 0, 0] [0, 0, 0, 0] 0 \<lparr>avail = [], faults = []\<rparr>) s \<and>
    s_state s = STATE_ERROR \<and> session_inv s"
proof -
  let ?s = "new_Session [] [0, 0, 0, 0] [0, 0, 0, 0] 0 \<lparr>avail = [], faults = []\<rparr>"
  have "session_step some_surroundings ?s (?s\<lparr>s_closed := True\<rparr>)"
    by (rule hang_up)
  moreover have "handleRead some_surroundings (?s\<lparr>s_closed := True\<rparr>)
      = Some (?s\<lparr>s_closed := True, s_error := ERROR_CLIENT_CLOSE, s_state := STATE_ERROR\<rparr>)"
    by (simp add: handleRead_def on_head_def readAndParseHead_def new_Session_def read_head.simps Let_def processError_def)
  then have "session_step some_surroundings (?s\<lparr>s_closed := True\<rparr>)
      (?s\<lparr>s_closed := True, s_error := ERROR_CLIENT_CLOSE, s_state := STATE_ERROR\<rparr>)"
    by (intro readable) (simp_all add: new_Session_def FIONREAD_def)
  ultimately have r: "(session_step some_surroundings)\<^sup>*\<^sup>* ?s
      (?s\<lparr>s_closed := True, s_error := ERROR_CLIENT_CLOSE, s_state := STATE_ERROR\<rparr>)"
    by simp
  from session_invariant [OF _ _ r] r show ?thesis
    by (intro exI [of _ "?s\<lparr>s_closed := True, s_error := ERROR_CLIENT_CLOSE, s_state := STATE_ERROR\<rparr>"]) simp
qed

end
