(* ===== verification/Connection_Serve.thy ===== *)
theory Connection_Serve
  imports Connection_Inv
begin

text \<open>
  What the server promises a client, as a function over messages, and the proof that the handler
  implements it, whichever way the writes are cut up and in whatever pieces the stream of frames
  arrives.  The service says what each read event does: a complete message is saved and answered
  once, the end of the stream is answered once and closes the connection, and an event that finds
  less than two bytes is answered as if it were a message.  \<open>session_refines_service\<close> also
  gives the cases where the last does not happen.
\<close>

section \<open>Writes that get through\<close>

definition willing :: "(int \<times> errno) list \<Rightarrow> bool" where
  "willing ws \<longleftrightarrow> (\<forall>(n, e) \<in> set ws. n \<le> 0 \<longrightarrow> e \<noteq> Other_errno)"

definition progress :: "(int \<times> errno) list \<Rightarrow> nat" where
  "progress ws = length (filter (\<lambda>(n, e). 0 < n) ws)"

lemma write_loop_completes:
  "willing ws \<Longrightarrow> length data \<le> progress ws \<Longrightarrow>
   \<exists>ws'. write_loop ws data = Some (0, data, ws') \<and> willing ws' \<and> progress ws \<le> progress ws' + length data"
proof (induction ws data rule: write_loop.induct)
  case (3 n e ws b bs)
  show ?case
  proof (cases "n \<le> 0")
    case True
    then obtain ws' where "write_loop ws (b # bs) = Some (0, b # bs, ws')" "willing ws'" "progress ws \<le> progress ws' + length (b # bs)"
      using 3 by (cases e) (auto simp: willing_def progress_def)
    moreover have "e \<noteq> Other_errno"
      using 3 True by (auto simp: willing_def)
    ultimately show ?thesis
      using True by (cases e) (auto simp: progress_def)
  next
    case False
    then have "willing ws" "length (drop (nat n) (b # bs)) \<le> progress ws"
      using "3.prems" by (auto simp: willing_def progress_def)
    from "3.IH"(3) [OF False this] obtain ws' where w: "write_loop ws (drop (nat n) (b # bs)) = Some (0, drop (nat n) (b # bs), ws')"
        "willing ws'" "progress ws \<le> progress ws' + length (drop (nat n) (b # bs))"
      by blast
    then have "write_loop ((n, e) # ws) (b # bs) = Some (0, b # bs, ws')"
      using False by simp
    moreover have "progress ((n, e) # ws) \<le> progress ws' + length (b # bs)"
      using w(3) False by (simp add: progress_def)
    ultimately show ?thesis
      using w(2) by blast
  qed
qed (auto simp: progress_def)

lemma writeData_completes:
  assumes "willing (s_writes s)" "length data \<le> progress (s_writes s)"
  obtains ws where "writeData data s = Some (0, s\<lparr>s_sent := s_sent s @ data, s_writes := ws\<rparr>)" "willing ws"
    "progress (s_writes s) \<le> progress ws + length data"
  using write_loop_completes [OF assms] by (auto simp: writeData_def Let_def)

text \<open>
  C36: the write loop sends the data exactly once and in order: it returns 0 only when all of it was
  written and -1 only after a prefix of it; and it returns 0 however the system cuts up and
  interrupts the writes, when no call fails for good and one call per byte makes progress.
\<close>

theorem writeData_sends:
  "(\<forall>ret s'. writeData data s = Some (ret, s') \<longrightarrow>
      (\<exists>out. s_sent s' = s_sent s @ out \<and> (ret = 0 \<and> out = data \<or> ret = -1 \<and> s_error s' = ERROR_WRITE \<and> (\<exists>k. out = take k data)))) \<and>
   (willing (s_writes s) \<and> length data \<le> progress (s_writes s) \<longrightarrow> (\<exists>s'. writeData data s = Some (0, s')))"
proof (intro conjI allI impI)
  fix ret s'
  assume "writeData data s = Some (ret, s')"
  then show "\<exists>out. s_sent s' = s_sent s @ out \<and> (ret = 0 \<and> out = data \<or> ret = -1 \<and> s_error s' = ERROR_WRITE \<and> (\<exists>k. out = take k data))"
    by (rule writeData_same) auto
next
  assume "willing (s_writes s) \<and> length data \<le> progress (s_writes s)"
  then show "\<exists>s'. writeData data s = Some (0, s')"
    using writeData_completes [of s data] by blast
qed

theorem writeData_sends_witness:
  "\<exists>s'. writeData [1, 2, 3] ((new_Session [] [0, 0, 0, 0] [0, 0, 0, 0] 0 \<lparr>avail = [], faults = []\<rparr>)
    \<lparr>s_writes := [(1, Other_errno), (-1, EINTR), (1, Other_errno), (0, EAGAIN), (1, Other_errno)]\<rparr>) = Some (0, s')"
  by (rule mp [OF conjunct2 [OF writeData_sends]]) (simp add: willing_def progress_def)

section \<open>Replies\<close>

text \<open>The C library keeps its laws, memory lasts, and the stack has room for the hash.\<close>

definition surroundings_ok :: "('d, 'e) surroundings_scheme \<Rightarrow> bool" where
  "surroundings_ok env \<longleftrightarrow> libc_g (e_dbl env) \<and> hooks_ok (e_hooks env) \<and> memory_left (e_hooks env) \<and>
     (\<forall>k. e_alloc env k) \<and> raw_SHA1 (e_stack env)"

definition uuid_ok :: "bytes \<Rightarrow> bool" where
  "uuid_ok uuid \<longleftrightarrow> NUL \<notin> set uuid \<and> length uuid < 50"

definition result_tree :: "'d libc_double \<Rightarrow> bytes \<Rightarrow> int \<Rightarrow> 'd cJSON" where
  "result_tree dbl uuid k =
     (let number = (\<lambda>n name. Item cJSON_Number None (saturate dbl (d_of_int dbl n)) (d_of_int dbl n) (Some (s2b name)) []);
          text = (\<lambda>s name. Item cJSON_String (Some s) 0 (d_zero dbl) (Some (s2b name)) [])
      in Item cJSON_Object None 0 (d_zero dbl) None
        [number k ''result_type'', number 0 ''status'', text uuid ''uuid'', text (s2b ''Websocket'') ''result''])"

lemma result_item_tree:
  assumes "\<forall>k. alloc k" "NUL \<notin> set uuid"
  shows "result_item dbl alloc uuid (s2b ''Websocket'') k = Some (result_tree dbl uuid k)"
  using assms
  by (simp add: result_item_def result_tree_def add_to_def Let_def cJSON_CreateObject_def cJSON_CreateNumber_def
      cJSON_CreateString_def create_text_def cJSON_New_Item_def cJSON_strdup_def set_type_def cJSON_SetNumberHelper_def
      cJSON_AddItemToObject_def cJSON_AddItemToObjectCS_def cJSON_AddItemToArray_def unconst_last_def unconst_def
      cjson_types c_str_id)

lemma result_tree_text:
  "json_text dbl True 0 (result_tree dbl uuid k) = Some (s2b [CHR 0x7B, CHR 0x0A, CHR 0x09] @
     string_text (Some (s2b ''result_type'')) @ [58, 9] @ number_text dbl (d_of_int dbl k) @ [44, 10, 9] @
     string_text (Some (s2b ''status'')) @ [58, 9] @ number_text dbl (d_of_int dbl 0) @ [44, 10, 9] @
     string_text (Some (s2b ''uuid'')) @ [58, 9] @ string_text (Some uuid) @ [44, 10, 9] @
     string_text (Some (s2b ''result'')) @ [58, 9] @ string_text (Some (s2b ''Websocket'')) @ [10, 125])"
  by (simp add: result_tree_def json_text.simps Let_def cjson_types)

lemma string_text_length: "length (string_text (Some s)) \<le> 6 * length s + 2"
proof -
  have "length (escape c) \<le> 6" for c
    by (cases c rule: escape_cases) simp_all
  then have "length (concat (map escape s)) \<le> 6 * length s"
    by (induction s) (simp_all add: add_mono)
  then show ?thesis
    by (simp add: string_text_def)
qed

definition result_text :: "('d, 'e) surroundings_scheme \<Rightarrow> bytes \<Rightarrow> int \<Rightarrow> bytes" where
  "result_text env uuid k = the (json_text (e_dbl env) True 0 (result_tree (e_dbl env) uuid k))"

lemma result_text_length:
  assumes "surroundings_ok env" "uuid_ok uuid"
  shows "length (result_text env uuid k) < 700"
proof -
  have "length (number_text (e_dbl env) d) \<le> 25" for d
    using assms(1) by (simp add: surroundings_ok_def libc_g_def)
  from this [of "d_of_int (e_dbl env) k"] this [of "d_of_int (e_dbl env) 0"]
    string_text_length [of "s2b ''result_type''"] string_text_length [of "s2b ''status''"]
    string_text_length [of "s2b ''uuid''"] string_text_length [of uuid] string_text_length [of "s2b ''result''"]
    string_text_length [of "s2b ''Websocket''"]
  show ?thesis
    using assms(2) by (simp add: result_text_def result_tree_text uuid_ok_def)
qed

lemma formatJson_text:
  assumes "surroundings_ok env" "uuid_ok uuid"
  shows "formatJson env uuid (s2b ''Websocket'') k = Some (result_text env uuid k)"
proof -
  let ?it = "result_tree (e_dbl env) uuid k"
  have it: "result_item (e_dbl env) (e_alloc env) uuid (s2b ''Websocket'') k = Some ?it"
    using assms by (intro result_item_tree) (simp_all add: surroundings_ok_def uuid_ok_def)
  have t: "json_text (e_dbl env) True 0 ?it = Some (result_text env uuid k)"
    by (simp add: result_text_def result_tree_text)
  have c: "c_strings ?it"
    using assms(2) by (simp add: result_tree_def Let_def uuid_ok_def)
  have l: "libc_g (e_dbl env)" "hooks_ok (e_hooks env)" "memory_left (e_hooks env)"
    using assms(1) by (simp_all add: surroundings_ok_def)
  have "length (result_text env uuid k) + 4 \<le> INT_LIMIT"
    using result_text_length [OF assms, of k] by (simp add: INT_LIMIT_def)
  then obtain b where b: "print (e_dbl env) (Some ?it) True (e_hooks env) = Some (Some b)"
    using print_spec [OF l(1,2) c t] l(3) by auto
  then have "c_str b = result_text env uuid k"
    by (rule print_block_text [OF l(1,2) c t])
  then show ?thesis
    using b it by (simp add: formatJson_def cJSON_Print_def)
qed

definition reply_frame :: "('d, 'e) surroundings_scheme \<Rightarrow> bytes \<Rightarrow> int \<Rightarrow> bytes" where
  "reply_frame env uuid k = (let t = result_text env uuid k in
     ws_frame 0x81 (if length t < 126 then Short else Medium) None t)"

lemma reply_frame_length:
  assumes "surroundings_ok env" "uuid_ok uuid"
  shows "length (reply_frame env uuid k) < 710"
  using result_text_length [OF assms, of k]
  by (simp add: reply_frame_def Let_def ws_frame_def length_ws_head)

lemma reply_sends:
  assumes env: "surroundings_ok env" "uuid_ok (s_uuid s)" and p: "packet_ok (s_write s)"
    and w: "willing (s_writes s)" "710 \<le> progress (s_writes s)"
  obtains q ws where "reply env k s = Some (0, s\<lparr>s_write := q, s_sent := s_sent s @ reply_frame env (s_uuid s) k, s_writes := ws\<rparr>)"
    "packet_ok q" "willing ws" "progress (s_writes s) \<le> progress ws + 710"
proof -
  let ?t = "result_text env (s_uuid s) k"
  have "length ?t < 65535"
    using result_text_length [OF env, of k] by simp
  from sendResult_frame [OF p this] obtain q where q: "sendResult_packet ?t (s_write s) = Some q" "packet_ok q"
      "packet_out q = reply_frame env (s_uuid s) k"
    by (auto simp: reply_frame_def Let_def)
  have "length (packet_out q) \<le> progress (s_writes (s\<lparr>s_write := q\<rparr>))"
    using reply_frame_length [OF env, of k] w(2) q(3) by simp
  then obtain ws where "writeData (packet_out q) (s\<lparr>s_write := q\<rparr>) = Some (0, s\<lparr>s_write := q\<rparr>
      \<lparr>s_sent := s_sent (s\<lparr>s_write := q\<rparr>) @ packet_out q, s_writes := ws\<rparr>)" "willing ws"
      "progress (s_writes (s\<lparr>s_write := q\<rparr>)) \<le> progress ws + length (packet_out q)"
    using writeData_completes [of "s\<lparr>s_write := q\<rparr>" "packet_out q"] w(1) by auto
  then show thesis
    using q formatJson_text [OF env, of k] reply_frame_length [OF env, of k]
    by (intro that [where q = q and ws = ws]) (simp_all add: reply_def sendResult_def)
qed

section \<open>The service\<close>

text \<open>What a client sees of a session after the handshake, and what one message does to it.\<close>

record service =
  sv_open :: bool
  sv_file :: bytes
  sv_sent :: bytes

definition ends_stream :: "byte \<Rightarrow> bytes \<Rightarrow> bool" where
  "ends_stream b xs \<longleftrightarrow> b AND 0x0f = WEBSOCKET_CONNECT_CLOSE \<or> b AND 0x0f = WEBSOCKET_TEXT_DATA \<and> xs = s2b ''EOS''"

definition ignored :: "byte \<Rightarrow> bytes \<Rightarrow> bool" where
  "ignored b xs \<longleftrightarrow> b AND 0x0f = WEBSOCKET_TEXT_DATA \<and> length xs = 3 \<and> xs \<noteq> s2b ''EOS''"

definition serve :: "(int \<Rightarrow> bytes) \<Rightarrow> byte \<Rightarrow> bytes \<Rightarrow> service \<Rightarrow> service" where
  "serve answer b xs v =
     (if \<not> sv_open v then v
      else if ends_stream b xs then v\<lparr>sv_open := False, sv_sent := sv_sent v @ answer 1\<rparr>
      else if ignored b xs then v
      else v\<lparr>sv_file := sv_file v @ xs, sv_sent := sv_sent v @ answer 0\<rparr>)"

definition view :: "Session \<Rightarrow> service" where
  "view s = \<lparr>sv_open = (s_state s = STATE_DATA), sv_file = s_file s, sv_sent = s_sent s\<rparr>"

text \<open>Each piece that arrives makes the socket readable once, while the channel is on the poller.\<close>

fun receive_all :: "('d, 'e) surroundings_scheme \<Rightarrow> bytes list \<Rightarrow> Session \<Rightarrow> Session option" where
  "receive_all env [] s = Some s"
| "receive_all env (c # cs) s = do {
     let s = s\<lparr>s_sock := arrive c (s_sock s)\<rparr>;
     s \<leftarrow> (if s_state s = STATE_DATA then handleRead env s else Some s);
     receive_all env cs s }"

lemma receive_all_closed:
  "s_state s \<noteq> STATE_DATA \<Longrightarrow> \<exists>so. receive_all env cs s = Some (s\<lparr>s_sock := so\<rparr>)"
proof (induction cs arbitrary: s)
  case Nil
  then show ?case
    by (auto intro: exI [of _ "s_sock s"])
next
  case (Cons c cs)
  from Cons.IH [of "s\<lparr>s_sock := arrive c (s_sock s)\<rparr>"] Cons.prems show ?case
    by (auto simp: Let_def)
qed

definition quiet :: "Session \<Rightarrow> bool" where
  "quiet s \<longleftrightarrow> s_state s = STATE_DATA \<and> \<not> s_final s \<and> packet_ok (s_write s) \<and> s_opens s = [] \<and> willing (s_writes s)"

lemma handleRead_data:
  assumes "s_state s = STATE_DATA" "read_packet s = Some (0, s1)" "processPacket env s1 = Some (0, s2)" "s_state s2 = STATE_DATA"
  shows "handleRead env s = (if s_final s2 then map_option (\<lambda>(r, s). s\<lparr>s_state := STATE_CLOSE\<rparr>) (reply env 1 (s2\<lparr>s_state := STATE_FINISH\<rparr>))
    else Some s2)"
proof -
  have od: "on_data env s = Some (if s_final s2 then s2\<lparr>s_state := STATE_FINISH\<rparr> else s2)"
    using assms(2,3) by (simp add: on_data_def)
  show ?thesis
  proof (cases "s_final s2")
    case False
    then show ?thesis
      using od assms by (simp add: handleRead_def)
  next
    case True
    have "ret = 0" if "reply env 1 (s2\<lparr>s_state := STATE_FINISH\<rparr>) = Some (ret, s3)" for ret s3
      using that by (rule reply_same)
    then show ?thesis
      using od assms True
      by (cases "reply env 1 (s2\<lparr>s_state := STATE_FINISH\<rparr>)")
        (auto simp: handleRead_def set_state_def processEnd_def)
  qed
qed

text \<open>The end of the stream.\<close>

lemma handle_final:
  assumes env: "surroundings_ok env" "uuid_ok (s_uuid s)" and q: "quiet s" "710 \<le> progress (s_writes s)"
    and r: "read_packet s = Some (0, s1)" "s1 = s\<lparr>s_read := p, s_sock := so\<rparr>"
    and fin: "processPacket env s1 = Some (0, s1\<lparr>s_final := True\<rparr>)"
  obtains s' where "handleRead env s = Some s'" "s_state s' = STATE_CLOSE" "s_file s' = s_file s"
    "s_sent s' = s_sent s @ reply_frame env (s_uuid s) 1" "s_uuid s' = s_uuid s" "s_bytes s' = s_bytes s"
    "willing (s_writes s')" "progress (s_writes s) \<le> progress (s_writes s') + 710"
proof -
  let ?s2 = "s1\<lparr>s_final := True\<rparr>\<lparr>s_state := STATE_FINISH\<rparr>"
  have "surroundings_ok env" "uuid_ok (s_uuid ?s2)" "packet_ok (s_write ?s2)" "willing (s_writes ?s2)" "710 \<le> progress (s_writes ?s2)"
    using env q r(2) by (simp_all add: quiet_def)
  from reply_sends [OF this, of 1] obtain k ws where
    "reply env 1 ?s2 = Some (0, ?s2\<lparr>s_write := k, s_sent := s_sent ?s2 @ reply_frame env (s_uuid ?s2) 1, s_writes := ws\<rparr>)"
    "willing ws" "progress (s_writes ?s2) \<le> progress ws + 710"
    by blast
  then show thesis
    using handleRead_data [OF _ r(1) fin] q(1) r(2)
    by (intro that [of "?s2\<lparr>s_write := k, s_sent := s_sent ?s2 @ reply_frame env (s_uuid ?s2) 1, s_writes := ws\<rparr>\<lparr>s_state := STATE_CLOSE\<rparr>"])
      (simp_all add: quiet_def)
qed

text \<open>A complete message.\<close>

definition served :: "('d, 'e) surroundings_scheme \<Rightarrow> byte \<Rightarrow> bytes \<Rightarrow> Session \<Rightarrow> Session \<Rightarrow> bool" where
  "served env b xs s s' \<longleftrightarrow> view s' = serve (reply_frame env (s_uuid s)) b xs (view s) \<and>
     s_state s' \<in> {STATE_DATA, STATE_CLOSE} \<and> s_uuid s' = s_uuid s \<and> s_bytes s \<le> s_bytes s' \<and> s_bytes s' \<le> s_bytes s + int (length xs) \<and>
     willing (s_writes s') \<and> progress (s_writes s) \<le> progress (s_writes s') + 710"

lemma handle_message:
  assumes env: "surroundings_ok env" "uuid_ok (s_uuid s)" and q: "quiet s" "710 \<le> progress (s_writes s)"
    and r: "readAndParsePacket (s_read s) (s_sock s) = Some (0, None, p, so)"
    and p: "p_state p = PACKET_INIT" "payload p = xs" "p_len p = length xs" "p_opcode p = b AND 0x0f"
    and n: "s_bytes s + int (length xs) \<le> INT_MAX"
  obtains s' where "handleRead env s = Some s'" "served env b xs s s'"
    "s_state s' = STATE_DATA \<longrightarrow> quiet s' \<and> s_read s' = p \<and> s_sock s' = so"
proof -
  let ?s1 = "s\<lparr>s_read := p, s_sock := so\<rparr>"
  have rp: "read_packet s = Some (0, ?s1)"
    using r by (simp add: read_packet_def Let_def)
  have out: "packet_out p = xs"
    using p(2) by (simp add: packet_out_def payload_def)
  have st: "s_state s = STATE_DATA"
    using q(1) by (simp add: quiet_def)
  consider "ends_stream b xs" | "\<not> ends_stream b xs" "ignored b xs" | "\<not> ends_stream b xs" "\<not> ignored b xs"
    by blast
  then show thesis
  proof cases
    case 1
    have "processPacket env ?s1 = Some (0, ?s1\<lparr>s_final := True\<rparr>)"
      using 1 p out by (auto simp: processPacket_def ends_stream_def Let_def)
    from handle_final [OF env q rp refl this] obtain s' where "handleRead env s = Some s'" "s_state s' = STATE_CLOSE"
      "s_file s' = s_file s" "s_sent s' = s_sent s @ reply_frame env (s_uuid s) 1" "s_uuid s' = s_uuid s"
      "s_bytes s' = s_bytes s" "willing (s_writes s')" "progress (s_writes s) \<le> progress (s_writes s') + 710" .
    then show thesis
      using 1 st n by (intro that [of s']) (simp_all add: served_def view_def serve_def)
  next
    case 2
    have pp: "processPacket env ?s1 = Some (0, ?s1)"
      using 2 p out by (auto simp: processPacket_def ends_stream_def ignored_def Let_def)
    have "handleRead env s = Some ?s1"
      using handleRead_data [OF st rp pp] q(1) by (simp add: quiet_def)
    then show thesis
      using 2 st q by (intro that [of ?s1]) (simp_all add: served_def view_def serve_def quiet_def)
  next
    case 3
    let ?s2 = "?s1\<lparr>s_bytes := s_bytes s + int (length xs), s_opens := [], s_file := s_file s @ xs\<rparr>"
    have sv: "save xs (?s1\<lparr>s_bytes := s_bytes s + int (length xs)\<rparr>) = Some ?s2"
      using q(1) by (simp add: save_def quiet_def)
    have "surroundings_ok env" "uuid_ok (s_uuid ?s2)" "packet_ok (s_write ?s2)" "willing (s_writes ?s2)" "710 \<le> progress (s_writes ?s2)"
      using env q by (simp_all add: quiet_def)
    from reply_sends [OF this, of 0] obtain k ws where rep:
      "reply env 0 ?s2 = Some (0, ?s2\<lparr>s_write := k, s_sent := s_sent ?s2 @ reply_frame env (s_uuid ?s2) 0, s_writes := ws\<rparr>)"
      "packet_ok k" "willing ws" "progress (s_writes ?s2) \<le> progress ws + 710"
      by blast
    define s3 where "s3 = ?s2\<lparr>s_write := k, s_sent := s_sent ?s2 @ reply_frame env (s_uuid ?s2) 0, s_writes := ws\<rparr>"
    have "\<not> (p_opcode p = WEBSOCKET_CONNECT_CLOSE \<or> p_opcode p = WEBSOCKET_TEXT_DATA \<and> p_state p = PACKET_INIT \<and> p_len p = 3)"
      using 3 p by (auto simp: ends_stream_def ignored_def)
    then have pp: "processPacket env ?s1 = Some (0, s3)"
      using p out n sv rep(1) by (auto simp: processPacket_def Let_def s3_def)
    have "handleRead env s = Some s3"
      using handleRead_data [OF st rp pp] q(1) st by (simp add: quiet_def s3_def)
    then show thesis
      using 3 st q rep by (intro that [of s3]) (simp_all add: served_def view_def serve_def quiet_def s3_def)
  qed
qed

text \<open>A piece that does not complete the frame.\<close>

lemma parsing_middle:
  assumes "parsing b0 form key xs rest g p so" "2 \<le> g" "g < length (ws_frame b0 form (Some key) xs)" "length key = 4"
  shows "p_state p \<noteq> PACKET_INIT" "p_opcode p = b0 AND 0x0f"
  using assms by (auto simp: parsing_def Let_def head_read_def hdr_def ws_frame_def length_ws_head split: if_splits len_form.splits)

lemma handle_piece:
  assumes env: "surroundings_ok env" "uuid_ok (s_uuid s)" and q: "quiet s" "710 \<le> progress (s_writes s)"
    and r: "readAndParsePacket (s_read s) (s_sock s) = Some (0, None, p, so)"
    and p: "p_state p \<noteq> PACKET_INIT" "p_opcode p = b AND 0x0f" and n: "0 \<le> s_bytes s"
  obtains s' where "handleRead env s = Some s'"
    "s_state s' = STATE_DATA \<longrightarrow> s' = s\<lparr>s_read := p, s_sock := so\<rparr>" "s_state s' \<noteq> STATE_DATA \<longrightarrow> served env b xs s s'"
proof -
  let ?s1 = "s\<lparr>s_read := p, s_sock := so\<rparr>"
  have rp: "read_packet s = Some (0, ?s1)"
    using r by (simp add: read_packet_def Let_def)
  have st: "s_state s = STATE_DATA"
    using q(1) by (simp add: quiet_def)
  show thesis
  proof (cases "b AND 0x0f = WEBSOCKET_CONNECT_CLOSE")
    case True
    have "processPacket env ?s1 = Some (0, ?s1\<lparr>s_final := True\<rparr>)"
      using True p by (auto simp: processPacket_def Let_def)
    from handle_final [OF env q rp refl this] obtain s' where "handleRead env s = Some s'" "s_state s' = STATE_CLOSE"
      "s_file s' = s_file s" "s_sent s' = s_sent s @ reply_frame env (s_uuid s) 1" "s_uuid s' = s_uuid s"
      "s_bytes s' = s_bytes s" "willing (s_writes s')" "progress (s_writes s) \<le> progress (s_writes s') + 710" .
    then show thesis
      using True st by (intro that [of s']) (simp_all add: served_def view_def serve_def ends_stream_def)
  next
    case False
    have pp: "processPacket env ?s1 = Some (0, ?s1)"
      using False p by (auto simp: processPacket_def Let_def)
    have "handleRead env s = Some ?s1"
      using handleRead_data [OF st rp pp] q(1) by (simp add: quiet_def)
    then show thesis
      using st by (intro that [of ?s1]) simp_all
  qed
qed

section \<open>A session refines the service\<close>

definition idle :: "Session \<Rightarrow> bool" where
  "idle s \<longleftrightarrow> quiet s \<and> packet_ok (s_read s) \<and> p_state (s_read s) = PACKET_INIT \<and>
     avail (s_sock s) = [] \<and> faults (s_sock s) = []"

lemma served_sock [simp]:
  "served env b xs (s\<lparr>s_sock := so\<rparr>) s' = served env b xs s s'"
  "served env b xs s (s'\<lparr>s_sock := so\<rparr>) = served env b xs s s'"
  "served env b xs (s\<lparr>s_read := p\<rparr>) s' = served env b xs s s'"
  by (simp_all add: served_def view_def)

lemma quiet_sock [simp]: "quiet (s\<lparr>s_sock := so\<rparr>) = quiet s" "quiet (s\<lparr>s_read := p\<rparr>) = quiet s"
  by (simp_all add: quiet_def)

lemma served_closed: "served env b xs s s' \<Longrightarrow> s_state s' \<noteq> STATE_DATA \<Longrightarrow>
    \<exists>t. receive_all env cs s' = Some t \<and> served env b xs s t \<and> s_state t \<noteq> STATE_DATA"
  using receive_all_closed [of s' env cs] by auto

text \<open>
  The stream is \<open>concat (map d_frame ms)\<close>.  A read event finds what has come of the frames not yet
  served; the handler takes at most one of them, and the rest waits for the next event (the poller
  is level-triggered, so an event may bring no new bytes).
\<close>

record message =
  d_first :: byte
  d_form :: len_form
  d_key :: bytes
  d_data :: bytes

definition d_frame :: "'a message_scheme \<Rightarrow> bytes" where
  "d_frame m = ws_frame (d_first m) (d_form m) (Some (d_key m)) (d_data m)"

definition message_ok :: "'a message_scheme \<Rightarrow> bool" where
  "message_ok m \<longleftrightarrow> length (d_key m) = 4 \<and> frame_ok (d_form m) (Some (d_key m)) (d_data m) \<and> length (d_frame m) < 2 ^ 31"

fun next_frame :: "'a message_scheme list \<Rightarrow> nat \<Rightarrow> 'a message_scheme list \<times> nat" where
  "next_frame [] k = ([], k)"
| "next_frame (m # ms) k = (if length (d_frame m) \<le> k then (ms, k - length (d_frame m)) else (m # ms, k))"

text \<open>What is at hand at each event, when \<open>ns\<close> bytes come before the events, and what is left unserved.\<close>

fun at_hand :: "'a message_scheme list \<Rightarrow> nat \<Rightarrow> nat list \<Rightarrow> nat list" where
  "at_hand ms g [] = []"
| "at_hand ms g (n # ns) = (g + n) # (case next_frame ms (g + n) of (ms, g) \<Rightarrow> at_hand ms g ns)"

fun unserved :: "'a message_scheme list \<Rightarrow> nat \<Rightarrow> nat list \<Rightarrow> 'a message_scheme list" where
  "unserved ms g [] = ms"
| "unserved ms g (n # ns) = (case next_frame ms (g + n) of (ms, g) \<Rightarrow> unserved ms g ns)"

text \<open>
  An event with less than two bytes is answered like a message of no bytes, a complete frame is
  served, and a frame of the closing type closes the connection with its second byte.
\<close>

fun read_event :: "(int \<Rightarrow> bytes) \<Rightarrow> 'a message_scheme list \<Rightarrow> nat \<Rightarrow> service \<Rightarrow> service" where
  "read_event answer [] k v = serve answer 0 [] v"
| "read_event answer (m # ms) k v =
     (if k < 2 then serve answer 0 [] v
      else if length (d_frame m) \<le> k \<or> d_first m AND 0x0f = WEBSOCKET_CONNECT_CLOSE then serve answer (d_first m) (d_data m) v
      else v)"

fun respond :: "(int \<Rightarrow> bytes) \<Rightarrow> 'a message_scheme list \<Rightarrow> nat \<Rightarrow> nat list \<Rightarrow> service \<Rightarrow> service" where
  "respond answer ms g [] v = v"
| "respond answer ms g (n # ns) v =
     (case next_frame ms (g + n) of (ms', g') \<Rightarrow> respond answer ms' g' ns (read_event answer ms (g + n) v))"

definition serve_all :: "(int \<Rightarrow> bytes) \<Rightarrow> 'a message_scheme list \<Rightarrow> service \<Rightarrow> service" where
  "serve_all answer ms = fold (\<lambda>m. serve answer (d_first m) (d_data m)) ms"

lemma serve_all_closed: "\<not> sv_open v \<Longrightarrow> serve_all answer ms v = v"
  by (induction ms) (simp_all add: serve_all_def serve_def)

lemma read_event_closed: "\<not> sv_open v \<Longrightarrow> read_event answer ms k v = v"
  by (cases ms) (simp_all add: serve_def)

lemma respond_closed: "\<not> sv_open v \<Longrightarrow> respond answer ms g ns v = v"
  by (induction ns arbitrary: ms g) (simp_all add: read_event_closed split: prod.split)

lemma serve_close: "b AND 0x0f = WEBSOCKET_CONNECT_CLOSE \<Longrightarrow> \<not> sv_open (serve answer b xs v)"
  by (simp add: serve_def ends_stream_def)

lemma read_event_twice:
  "\<not> length (d_frame m) \<le> k \<Longrightarrow> 2 \<le> k \<Longrightarrow> serve_all answer (m # ms) (read_event answer (m # ms) k v) = serve_all answer (m # ms) v"
  using serve_close [of "d_first m" answer "d_data m" v]
  by (auto simp: serve_all_def) (simp add: serve_def)

text \<open>When every event finds two bytes, nothing but the messages is answered.\<close>

lemma respond_serves:
  "\<forall>n\<in>set (at_hand ms g ns). 2 \<le> n \<Longrightarrow> unserved ms g ns = [] \<Longrightarrow> g + sum_list ns = length (concat (map d_frame ms)) \<Longrightarrow>
   respond answer ms g ns v = serve_all answer ms v"
proof (induction ns arbitrary: ms g v)
  case Nil
  then show ?case
    by (simp add: serve_all_def)
next
  case (Cons n ns)
  show ?case
  proof (cases ms)
    case Nil
    then show ?thesis
      using Cons.prems by simp
  next
    case (Cons m ms')
    let ?k = "g + n"
    show ?thesis
    proof (cases "length (d_frame m) \<le> ?k")
      case True
      have "respond answer ms' (?k - length (d_frame m)) ns (read_event answer ms ?k v) = serve_all answer ms' (read_event answer ms ?k v)"
        using Cons.prems Cons True by (intro Cons.IH) simp_all
      then show ?thesis
        using Cons True Cons.prems(1) by (simp add: serve_all_def)
    next
      case False
      have "respond answer ms ?k ns (read_event answer ms ?k v) = serve_all answer ms (read_event answer ms ?k v)"
        using Cons.prems Cons False by (intro Cons.IH) simp_all
      then show ?thesis
        using Cons False read_event_twice [of m ?k answer ms' v] Cons.prems(1) by simp
    qed
  qed
qed

lemma unserved_none: "unserved ms g ns = [] \<Longrightarrow> length (concat (map d_frame ms)) \<le> g + sum_list ns"
proof (induction ns arbitrary: ms g)
  case (Cons n ns)
  obtain ms' g' where adv: "next_frame ms (g + n) = (ms', g')"
    by fastforce
  then have "length (concat (map d_frame ms')) \<le> g' + sum_list ns"
    using Cons by simp
  then show ?case
    using adv by (cases ms) (auto split: if_splits)
qed simp

text \<open>Where the parser is: amid the first frame, or before it with some of the stream in the socket.\<close>

definition position :: "'a message_scheme list \<Rightarrow> nat \<Rightarrow> Session \<Rightarrow> bool" where
  "position ms g s \<longleftrightarrow>
     packet_ok (s_read s) \<and> p_state (s_read s) = PACKET_INIT \<and> faults (s_sock s) = [] \<and>
       avail (s_sock s) = take g (concat (map d_frame ms)) \<and> g \<le> length (concat (map d_frame ms)) \<or>
     (\<exists>m ms'. ms = m # ms' \<and> 2 \<le> g \<and> g < length (d_frame m) \<and>
       parsing (d_first m) (d_form m) (d_key m) (d_data m) (concat (map d_frame ms')) g (s_read s) (s_sock s))"

lemma d_frame_2: "2 \<le> length (d_frame m)"
  by (simp add: d_frame_def ws_frame_def ws_head_def)

lemma position_start: "idle s \<Longrightarrow> position ms 0 s"
  by (simp add: position_def idle_def)

lemma position_idle: "position [] g s \<Longrightarrow> quiet s \<Longrightarrow> idle s"
  by (simp add: position_def idle_def)

lemma position_parsed:
  assumes m: "message_ok m" and p: "position (m # ms) g s"
    and c: "drop g (concat (map d_frame (m # ms))) = c @ later" "g + length c < 2 ^ 31" "2 \<le> g + length c"
  obtains p so where "readAndParsePacket (s_read s) (arrive c (s_sock s)) = Some (0, None, p, so)"
    "parsing (d_first m) (d_form m) (d_key m) (d_data m) (concat (map d_frame ms)) (g + length c) p so"
proof -
  let ?S = "srv_stream (d_first m) (d_form m) (d_key m) (d_data m) (concat (map d_frame ms))"
  let ?parsing = "parsing (d_first m) (d_form m) (d_key m) (d_data m) (concat (map d_frame ms))"
  have S: "?S = concat (map d_frame (m # ms))"
    by (simp add: srv_stream_def d_frame_def)
  have len: "length (d_data m) \<le> length (d_frame m)"
    by (simp add: d_frame_def ws_frame_def)
  then have n: "length (d_key m) = 4" "length (d_data m) < 2 ^ 31" "form_ok (d_form m) (length (d_data m))"
    using m by (simp_all add: message_ok_def frame_ok_def)
  have g: "g \<le> length ?S"
    using p frame_in_stream [of "d_first m" "d_form m" "d_key m" "d_data m" "concat (map d_frame ms)"]
    unfolding S by (auto simp: position_def)
  note piece = take_piece [OF c(1) [folded S] g]
  have F: "0 < length (ws_frame (d_first m) (d_form m) (Some (d_key m)) (d_data m))"
    by (simp add: ws_frame_def ws_head_def)
  have "parsed (d_first m) (d_form m) (d_key m) (d_data m) (concat (map d_frame ms)) (g + length c)
      (readAndParsePacket (s_read s) (arrive c (s_sock s)))"
    using p unfolding position_def
  proof
    assume w: "packet_ok (s_read s) \<and> p_state (s_read s) = PACKET_INIT \<and> faults (s_sock s) = [] \<and>
      avail (s_sock s) = take g (concat (map d_frame (m # ms))) \<and> g \<le> length (concat (map d_frame (m # ms)))"
    then have start: "?parsing 0 (s_read s) (s_sock s\<lparr>avail := []\<rparr>)"
      by (intro parsing_start) simp_all
    have "take (g + length c) ?S = take g ?S @ c"
      using piece(1) g by (metis append_take_drop_id drop_take length_take min.absorb2 take_add add_diff_cancel_left')
    then have "arrive (drop 0 (take (g + length c) ?S)) (s_sock s\<lparr>avail := []\<rparr>) = arrive c (s_sock s)"
      using w by (simp add: arrive_def S)
    then show ?thesis
      using parse_step [OF n refl start F, of "g + length c"] piece(2) c(2) by simp
  next
    assume "\<exists>m' ms'. m # ms = m' # ms' \<and> 2 \<le> g \<and> g < length (d_frame m') \<and>
       parsing (d_first m') (d_form m') (d_key m') (d_data m') (concat (map d_frame ms')) g (s_read s) (s_sock s)"
    then have "?parsing g (s_read s) (s_sock s)" "g < length (d_frame m)"
      by auto
    then show ?thesis
      using parse_step [OF n refl, of "d_first m" "concat (map d_frame ms)" g "s_read s" "s_sock s" "g + length c"] piece(1,2) c(2)
      by (simp add: d_frame_def)
  qed
  then show thesis
    using that by (auto simp: parsed_def)
qed

lemma receive_all_append:
  "receive_all env (cs @ ds) s = do { s \<leftarrow> receive_all env cs s; receive_all env ds s }"
proof (induction cs arbitrary: s)
  case (Cons c cs)
  then show ?case
    by (cases "handleRead env (s\<lparr>s_sock := arrive c (s_sock s)\<rparr>)") (simp_all add: Let_def)
qed simp


text \<open>One read event.\<close>

definition within :: "'a message_scheme list \<Rightarrow> Session \<Rightarrow> bool" where
  "within ms s \<longleftrightarrow> uuid_ok (s_uuid s) \<and> quiet s \<and> 0 \<le> s_bytes s \<and> s_bytes s + int (sum_list (map (length \<circ> d_data) ms)) \<le> INT_MAX"

lemma short_parsed:
  assumes "position ms g s" "drop g (concat (map d_frame ms)) = c @ later" "g + length c < 2"
  shows "readAndParsePacket (s_read s) (arrive c (s_sock s)) = Some (0, None, reset (s_read s), arrive c (s_sock s))"
    "position ms (g + length c) (s\<lparr>s_read := reset (s_read s), s_sock := arrive c (s_sock s)\<rparr>)"
proof -
  have w: "packet_ok (s_read s)" "p_state (s_read s) = PACKET_INIT" "faults (s_sock s) = []"
      "avail (s_sock s) = take g (concat (map d_frame ms))" "g \<le> length (concat (map d_frame ms))"
    using assms(1,3) by (auto simp: position_def)
  note piece = take_piece [OF assms(2) w(5)]
  have av: "avail (arrive c (s_sock s)) = take (g + length c) (concat (map d_frame ms))"
    using assms(2) w(4) by (simp add: arrive_def take_add)
  then have "length (avail (arrive c (s_sock s))) < 2"
    using assms(3) by simp
  then show "readAndParsePacket (s_read s) (arrive c (s_sock s)) = Some (0, None, reset (s_read s), arrive c (s_sock s))"
    using w(2) by (simp add: readAndParsePacket_def parse_init_def FIONREAD_def Let_def)
  show "position ms (g + length c) (s\<lparr>s_read := reset (s_read s), s_sock := arrive c (s_sock s)\<rparr>)"
    using w av piece(2) by (simp add: position_def reset_def packet_ok_def arrive_def)
qed

lemma handle_close_piece:
  assumes q: "quiet s" and r: "readAndParsePacket (s_read s) (s_sock s) = Some (0, None, p, so)"
    and p: "p_state p \<noteq> PACKET_INIT" "p_opcode p = b AND 0x0f" and h: "handleRead env s = Some s'"
  shows "s_state s' = STATE_DATA \<longleftrightarrow> b AND 0x0f \<noteq> WEBSOCKET_CONNECT_CLOSE"
proof -
  let ?s1 = "s\<lparr>s_read := p, s_sock := so\<rparr>"
  have rp: "read_packet s = Some (0, ?s1)" and st: "s_state s = STATE_DATA"
    using r q by (simp_all add: read_packet_def Let_def quiet_def)
  have pp: "processPacket env ?s1 = Some (0, if b AND 0x0f = WEBSOCKET_CONNECT_CLOSE then ?s1\<lparr>s_final := True\<rparr> else ?s1)"
    using p by (auto simp: processPacket_def Let_def)
  show ?thesis
    using trans [OF handleRead_data [OF st rp pp, symmetric] h] q st by (auto simp: quiet_def split: if_splits)
qed

lemma position_cong: "s_read s = s_read t \<Longrightarrow> s_sock s = s_sock t \<Longrightarrow> position ms g s = position ms g t"
  by (simp add: position_def)

lemma session_event:
  assumes env: "surroundings_ok env" and ms: "list_all message_ok ms" and p: "position ms g s" and w: "within ms s"
    and c: "drop g (concat (map d_frame ms)) = c @ later" "g + length c < 2 ^ 31"
    and n: "710 \<le> progress (s_writes s)" and adv: "next_frame ms (g + length c) = (ms', g')"
  obtains s' where "handleRead env (s\<lparr>s_sock := arrive c (s_sock s)\<rparr>) = Some s'"
    "view s' = read_event (reply_frame env (s_uuid s)) ms (g + length c) (view s)" "s_uuid s' = s_uuid s"
    "s_state s' = STATE_DATA \<longrightarrow> position ms' g' s' \<and> within ms' s' \<and>
       drop g' (concat (map d_frame ms')) = later \<and>
       (if g + length c < 2 \<or> length ms' < length ms then progress (s_writes s) \<le> progress (s_writes s') + 710
        else progress (s_writes s) = progress (s_writes s'))"
proof -
  let ?k = "g + length c" and ?s = "s\<lparr>s_sock := arrive c (s_sock s)\<rparr>"
  have q: "uuid_ok (s_uuid ?s)" "quiet ?s" "710 \<le> progress (s_writes ?s)" "0 \<le> s_bytes ?s"
    using w n by (simp_all add: within_def)
  note sizes = w [unfolded within_def]
  consider (short) "?k < 2" | (empty) "2 \<le> ?k" "ms = []"
    | (whole) m ms1 where "2 \<le> ?k" "ms = m # ms1" "length (d_frame m) \<le> ?k"
    | (part) m ms1 where "2 \<le> ?k" "ms = m # ms1" "?k < length (d_frame m)"
    by (metis list.exhaust not_le)
  then show thesis
  proof cases
    case short
    have adv': "ms' = ms" "g' = ?k"
      using adv short d_frame_2 [of "hd ms"] by (cases ms; simp)+
    have ev: "read_event (reply_frame env (s_uuid s)) ms ?k (view s) = serve (reply_frame env (s_uuid s)) 0 [] (view s)"
      using short by (cases ms) simp_all
    have g: "g \<le> length (concat (map d_frame ms))"
      using p short by (auto simp: position_def)
    have "s_bytes ?s + int (length []) \<le> INT_MAX" "p_state (reset (s_read s)) = PACKET_INIT"
      "payload (reset (s_read s)) = []" "p_len (reset (s_read s)) = length []" "p_opcode (reset (s_read s)) = 0 AND 0x0f"
      using sizes by (simp_all add: reset_def payload_def)
    from handle_message [OF env q(1-3) _ this(2-5) this(1)] short_parsed(1) [OF p c(1) short]
    obtain s' where s': "handleRead env ?s = Some s'" "served env 0 [] ?s s'"
        "s_state s' = STATE_DATA \<longrightarrow> quiet s' \<and> s_read s' = reset (s_read s) \<and> s_sock s' = arrive c (s_sock s)"
      by auto
    have "position ms ?k s'" if "s_state s' = STATE_DATA"
      using short_parsed(2) [OF p c(1) short] s'(3) that by (subst position_cong [of s']) auto
    moreover have "within ms s'" if "s_state s' = STATE_DATA"
      using s'(2,3) that sizes by (auto simp: served_def within_def)
    moreover have "drop ?k (concat (map d_frame ms)) = later"
      using take_piece(3) [OF c(1) g] .
    ultimately show thesis
      using s' ev adv' short by (intro that [of s']) (auto simp: served_def view_def)
  next
    case empty
    then show thesis
      using p c(1) by (auto simp: position_def)
  next
    case whole
    have m: "message_ok m"
      using ms whole(2) by simp
    from position_parsed [OF m p [unfolded whole(2)] c(1) [unfolded whole(2)] c(2) whole(1)] obtain pk so where
      pk: "readAndParsePacket (s_read ?s) (s_sock ?s) = Some (0, None, pk, so)"
        "parsing (d_first m) (d_form m) (d_key m) (d_data m) (concat (map d_frame ms1)) ?k pk so"
      by auto
    have key: "length (d_key m) = 4"
      using m by (simp add: message_ok_def)
    note fin = parsing_done [OF key pk(2) whole(3) [unfolded d_frame_def]]
    have "s_bytes ?s + int (length (d_data m)) \<le> INT_MAX"
      using sizes whole(2) by simp
    from handle_message [OF env q(1-3) pk(1) fin(1,2,3,5) this] obtain s' where s': "handleRead env ?s = Some s'"
        "served env (d_first m) (d_data m) ?s s'" "s_state s' = STATE_DATA \<longrightarrow> quiet s' \<and> s_read s' = pk \<and> s_sock s' = so" .
    have adv': "ms' = ms1" "g' = ?k - length (d_frame m)"
      using adv whole by simp_all
    have g: "g \<le> length (concat (map d_frame ms))"
      using p whole(2) by (auto simp: position_def)
    have d: "drop g' (concat (map d_frame ms1)) = later"
      using take_piece(3) [OF c(1) g] whole adv' by simp
    have "avail so = take g' (concat (map d_frame ms1))"
      using fin(8) adv'(2) whole(3) by (simp add: srv_stream_def d_frame_def)
    moreover have "g' \<le> length (concat (map d_frame ms1))"
      using take_piece(2) [OF c(1) g] whole adv'(2) by simp
    ultimately have "position ms1 g' s'" if "s_state s' = STATE_DATA"
      using s'(3) that fin by (simp add: position_def)
    moreover have "within ms1 s'" if "s_state s' = STATE_DATA"
      using s'(2,3) that sizes whole(2) by (auto simp: served_def within_def)
    ultimately show thesis
      using s' adv' d whole by (intro that [of s']) (auto simp: served_def view_def)
  next
    case part
    have m: "message_ok m"
      using ms part(2) by simp
    from position_parsed [OF m p [unfolded part(2)] c(1) [unfolded part(2)] c(2) part(1)] obtain pk so where
      pk: "readAndParsePacket (s_read ?s) (s_sock ?s) = Some (0, None, pk, so)"
        "parsing (d_first m) (d_form m) (d_key m) (d_data m) (concat (map d_frame ms1)) ?k pk so"
      by auto
    have key: "length (d_key m) = 4"
      using m by (simp add: message_ok_def)
    note mid = parsing_middle [OF pk(2) part(1) part(3) [unfolded d_frame_def] key]
    from handle_piece [OF env q(1-3) pk(1) mid q(4), of "d_data m"] obtain s' where s': "handleRead env ?s = Some s'"
        "s_state s' = STATE_DATA \<longrightarrow> s' = ?s\<lparr>s_read := pk, s_sock := so\<rparr>"
        "s_state s' \<noteq> STATE_DATA \<longrightarrow> served env (d_first m) (d_data m) ?s s'" .
    have adv': "ms' = ms" "g' = ?k"
      using adv part by simp_all
    have g: "g \<le> length (concat (map d_frame ms))"
      using p part(2) by (auto simp: position_def)
    have d: "drop ?k (concat (map d_frame ms)) = later"
      using take_piece(3) [OF c(1) g] .
    show thesis
    proof (cases "s_state s' = STATE_DATA")
      case True
      then have t: "s' = ?s\<lparr>s_read := pk, s_sock := so\<rparr>"
        using s'(2) by simp
      have "d_first m AND 0x0f \<noteq> WEBSOCKET_CONNECT_CLOSE"
        using handle_close_piece [OF q(2) pk(1) mid s'(1)] True by auto
      then have "read_event (reply_frame env (s_uuid s)) ms ?k (view s) = view s"
        using part by simp
      moreover have "position ms ?k s'"
        using t part pk(2) by (auto simp: position_def)
      ultimately show thesis
        using s'(1) t adv' d part w by (intro that [of s']) (simp_all add: view_def within_def)
    next
      case False
      have "d_first m AND 0x0f = WEBSOCKET_CONNECT_CLOSE"
        using handle_close_piece [OF q(2) pk(1) mid s'(1)] False by auto
      then show thesis
        using s' False part by (intro that [of s']) (auto simp: served_def view_def)
    qed
  qed
qed

lemma session_responds:
  assumes env: "surroundings_ok env"
  shows "list_all message_ok ms \<Longrightarrow> position ms g s \<Longrightarrow> within ms s \<Longrightarrow>
    concat cs @ later = drop g (concat (map d_frame ms)) \<Longrightarrow> \<forall>n\<in>set (at_hand ms g (map length cs)). n < 2 ^ 31 \<Longrightarrow>
    710 * (length ms + length (filter (\<lambda>n. n < 2) (at_hand ms g (map length cs)))) \<le> progress (s_writes s) \<Longrightarrow>
    \<exists>s'. receive_all env cs s = Some s' \<and> view s' = respond (reply_frame env (s_uuid s)) ms g (map length cs) (view s) \<and>
      (sv_open (view s') \<longrightarrow> quiet s' \<and> (unserved ms g (map length cs) = [] \<longrightarrow> idle s'))"
proof (induction cs arbitrary: ms g s)
  case Nil
  then show ?case
    using position_idle [of g s] by (auto simp: within_def)
next
  case (Cons c cs)
  obtain ms' g' where adv: "next_frame ms (g + length c) = (ms', g')"
    by fastforce
  have ms': "list_all message_ok ms'" "length ms' \<le> length ms"
    using adv Cons.prems(1) by (cases ms; auto split: if_splits)+
  have st: "s_state s = STATE_DATA"
    using Cons.prems(3) by (simp add: within_def quiet_def)
  let ?k = "g + length c"
  have budget: "710 \<le> progress (s_writes s)"
    using Cons.prems(2,4,6) by (cases ms) (auto simp: position_def)
  have c: "drop g (concat (map d_frame ms)) = c @ concat cs @ later" "?k < 2 ^ 31"
    using Cons.prems(4,5) by simp_all
  obtain s' where s': "handleRead env (s\<lparr>s_sock := arrive c (s_sock s)\<rparr>) = Some s'"
      "view s' = read_event (reply_frame env (s_uuid s)) ms ?k (view s)" "s_uuid s' = s_uuid s"
      "s_state s' = STATE_DATA \<longrightarrow> position ms' g' s' \<and> within ms' s' \<and> drop g' (concat (map d_frame ms')) = concat cs @ later \<and>
       (if ?k < 2 \<or> length ms' < length ms then progress (s_writes s) \<le> progress (s_writes s') + 710
        else progress (s_writes s) = progress (s_writes s'))"
    by (rule session_event [OF env Cons.prems(1-3) c budget adv])
  have run: "receive_all env (c # cs) s = receive_all env cs s'"
    using s'(1) st by simp
  show ?case
  proof (cases "s_state s' = STATE_DATA")
    case True
    note live = s'(4) [rule_format, OF True]
    have "\<forall>n\<in>set (at_hand ms' g' (map length cs)). n < 2 ^ 31"
      using Cons.prems(5) adv by simp
    moreover have "710 * (length ms' + length (filter (\<lambda>n. n < 2) (at_hand ms' g' (map length cs)))) \<le> progress (s_writes s')"
      using Cons.prems(6) adv ms'(2) live by (auto split: if_splits)
    ultimately have "\<exists>t. receive_all env cs s' = Some t \<and> view t = respond (reply_frame env (s_uuid s')) ms' g' (map length cs) (view s') \<and>
      (sv_open (view t) \<longrightarrow> quiet t \<and> (unserved ms' g' (map length cs) = [] \<longrightarrow> idle t))"
      using ms'(1) live by (intro Cons.IH) simp_all
    then show ?thesis
      using run adv s'(2,3) by simp
  next
    case False
    then have closed: "\<not> sv_open (view s')"
      by (simp add: view_def)
    obtain so where t: "receive_all env cs s' = Some (s'\<lparr>s_sock := so\<rparr>)"
      using receive_all_closed [OF False] by blast
    moreover have "view (s'\<lparr>s_sock := so\<rparr>) = view s'"
      by (simp add: view_def)
    ultimately show ?thesis
      using run adv closed by (simp add: s'(2) [symmetric] respond_closed)
  qed
qed

section \<open>Frames in pieces of their own\<close>

text \<open>The pieces of a frame, the first of at least two bytes: every read event then finds two bytes.\<close>

definition cut :: "bytes list \<Rightarrow> bytes \<Rightarrow> bool" where
  "cut cs xs \<longleftrightarrow> cs \<noteq> [] \<and> concat cs = xs \<and> (\<forall>c\<in>set cs. c \<noteq> []) \<and> 2 \<le> length (hd cs)"

record delivery = message +
  d_pieces :: "bytes list"

definition delivery_ok :: "delivery \<Rightarrow> bool" where
  "delivery_ok m \<longleftrightarrow> message_ok m \<and> cut (d_pieces m) (d_frame m)"

lemma cut_at_hand:
  "ns \<noteq> [] \<Longrightarrow> g + sum_list ns = length (d_frame m) \<Longrightarrow> \<forall>n\<in>set ns. 0 < n \<Longrightarrow> 2 \<le> g + hd ns \<Longrightarrow>
   set (at_hand (m # ms) g (ns @ ks)) \<subseteq> {2..length (d_frame m)} \<union> set (at_hand ms 0 ks) \<and>
   unserved (m # ms) g (ns @ ks) = unserved ms 0 ks"
proof (induction ns arbitrary: g)
  case (Cons n ns)
  show ?case
  proof (cases "ns = []")
    case True
    then show ?thesis
      using Cons.prems by simp
  next
    case False
    then have "0 < sum_list ns"
      using Cons.prems(3) by (cases ns) auto
    then have "g + n < length (d_frame m)"
      using Cons.prems(2) by simp
    then show ?thesis
      using Cons.IH [of "g + n"] Cons.prems False by auto
  qed
qed simp

lemma deliveries_at_hand:
  assumes "list_all delivery_ok ms"
  shows "set (at_hand ms 0 (map length (concat (map d_pieces ms)))) \<subseteq> {2..<2 ^ 31}" (is ?A)
    and "unserved ms 0 (map length (concat (map d_pieces ms))) = []" (is ?B)
proof -
  have "?A \<and> ?B"
    using assms
  proof (induction ms)
    case (Cons m ms)
    have m: "message_ok m" "cut (d_pieces m) (d_frame m)"
      using Cons.prems by (simp_all add: delivery_ok_def)
    have "set (at_hand (m # ms) 0 (map length (d_pieces m) @ map length (concat (map d_pieces ms)))) \<subseteq>
        {2..length (d_frame m)} \<union> set (at_hand ms 0 (map length (concat (map d_pieces ms)))) \<and>
      unserved (m # ms) 0 (map length (d_pieces m) @ map length (concat (map d_pieces ms))) =
        unserved ms 0 (map length (concat (map d_pieces ms)))"
      using m(2) by (intro cut_at_hand) (auto simp: cut_def hd_map length_concat [symmetric])
    then show ?case
      using Cons m(1) by (force simp: message_ok_def)
  qed simp
  then show ?A ?B
    by simp_all
qed

lemma deliveries_stream: "list_all delivery_ok ms \<Longrightarrow> concat (concat (map d_pieces ms)) = concat (map d_frame ms)"
  by (induction ms) (simp_all add: delivery_ok_def cut_def)

lemma session_serves_all:
  assumes env: "surroundings_ok env" and s: "idle s" "uuid_ok (s_uuid s)" and ms: "list_all delivery_ok ms"
    and w: "710 * length ms \<le> progress (s_writes s)" "0 \<le> s_bytes s"
    and n: "s_bytes s + int (sum_list (map (length \<circ> d_data) ms)) \<le> INT_MAX"
  shows "\<exists>s'. receive_all env (concat (map d_pieces ms)) s = Some s' \<and>
      view s' = serve_all (reply_frame env (s_uuid s)) ms (view s) \<and> (sv_open (view s') \<longrightarrow> idle s')"
proof -
  note hand = deliveries_at_hand [OF ms]
  have pos: "position ms 0 s" "within ms s" "list_all message_ok ms"
    using s w n ms by (simp_all add: position_start within_def idle_def delivery_ok_def list_all_iff)
  have "filter (\<lambda>n. n < 2) (at_hand ms 0 (map length (concat (map d_pieces ms)))) = []"
    using hand(1) by (force simp: filter_empty_conv)
  then obtain s' where s': "receive_all env (concat (map d_pieces ms)) s = Some s'"
      "view s' = respond (reply_frame env (s_uuid s)) ms 0 (map length (concat (map d_pieces ms))) (view s)"
      "sv_open (view s') \<longrightarrow> idle s'"
    using session_responds [OF env pos(3,1,2), of "concat (map d_pieces ms)" "[]"] hand(2) w(1) deliveries_stream [OF ms]
      subsetD [OF hand(1)] by auto
  moreover have "respond (reply_frame env (s_uuid s)) ms 0 (map length (concat (map d_pieces ms))) (view s) =
      serve_all (reply_frame env (s_uuid s)) ms (view s)"
    using hand by (intro respond_serves) (auto simp: length_concat [symmetric] deliveries_stream [OF ms])
  ultimately show ?thesis
    by simp
qed

section \<open>The handshake\<close>

lemma read_head_drained:
  "set rs \<subseteq> {None, Some EINTR} \<Longrightarrow> \<exists>rs'. read_head rs False av buf = (Drained, buf @ av, [], rs')"
proof (induction rs "False" av buf rule: read_head.induct)
  case (1 rs av buf)
  show ?case
  proof (cases rs)
    case Nil
    then show ?thesis
      using 1 by (subst read_head.simps) auto
  next
    case (Cons r rs')
    then show ?thesis
      using 1 by (subst read_head.simps) (cases r, auto split: errno.splits)
  qed
qed

text \<open>A connection that was just accepted.\<close>

definition fresh :: "Session \<Rightarrow> bool" where
  "fresh s \<longleftrightarrow> s_state s = STATE_HEAD \<and> \<not> s_final s \<and> \<not> s_closed s \<and> set (s_reads s) \<subseteq> {None, Some EINTR} \<and>
     packet_ok (s_read s) \<and> packet_ok (s_write s) \<and> p_state (s_read s) = PACKET_INIT \<and> s_file s = [] \<and> s_sent s = [] \<and>
     avail (s_sock s) = [] \<and> faults (s_sock s) = [] \<and> s_opens s = [] \<and> willing (s_writes s)"

lemma handle_head:
  assumes f: "fresh s" and h: "parseHead head (s_headers s) = Some (Inr hs)" "sendRespond (e_stack env) hs = Some answer"
    and w: "length answer \<le> progress (s_writes s)"
  obtains s' where "handleRead env (s\<lparr>s_sock := arrive head (s_sock s)\<rparr>) = Some s'" "idle s'" "s_uuid s' = s_uuid s"
    "view s' = \<lparr>sv_open = True, sv_file = [], sv_sent = answer\<rparr>" "s_bytes s' = 0"
    "progress (s_writes s) \<le> progress (s_writes s') + length answer"
proof -
  let ?s = "s\<lparr>s_sock := arrive head (s_sock s)\<rparr>"
  obtain rs where rs: "read_head (s_reads ?s) False head [] = (Drained, head, [], rs)"
    using read_head_drained [of "s_reads ?s" head "[]"] f by (auto simp: fresh_def)
  let ?s1 = "s\<lparr>s_sock := s_sock s, s_reads := rs, s_headers := hs\<rparr>"
  have r: "readAndParseHead ?s = Some (0, ?s1)"
    using f rs h(1) by (simp add: readAndParseHead_def Let_def fresh_def arrive_def)
  obtain ws where w': "writeData answer ?s1 = Some (0, ?s1\<lparr>s_sent := s_sent ?s1 @ answer, s_writes := ws\<rparr>)" "willing ws"
      "progress (s_writes ?s1) \<le> progress ws + length answer"
    using writeData_completes [of ?s1 answer] f w by (auto simp: fresh_def)
  then have "on_head env ?s = Some (?s1\<lparr>s_sent := s_sent ?s1 @ answer, s_writes := ws, s_state := STATE_START\<rparr>)"
    using r h(2) by (simp add: on_head_def set_state_def send_respond_def)
  then have "handleRead env ?s = Some (?s1\<lparr>s_sent := s_sent ?s1 @ answer, s_writes := ws, s_bytes := 0, s_state := STATE_DATA\<rparr>)"
    using f by (simp add: handleRead_def set_state_def processStart_def fresh_def)
  then show thesis
    using f w' by (intro that [of "?s1\<lparr>s_sent := s_sent ?s1 @ answer, s_writes := ws, s_bytes := 0, s_state := STATE_DATA\<rparr>"]) (simp_all add: idle_def quiet_def view_def fresh_def)
qed

text \<open>
  C2: the handshake over the connection: when the request of \<open>webSocket_buildHttpHead\<close> arrives on a
  new connection, one run of the handler answers it with what the client's check accepts, and the
  connection waits for messages with nothing saved.
\<close>

theorem handshake_opens_session:
  assumes "fresh s" "raw_SHA1 (e_stack env)" "raw_SHA1 (sha_of sha)" "LF \<notin> set ip" "LF \<notin> set path" "0 < n"
    and "129 \<le> progress (s_writes s)"
  shows "\<exists>key answer s'. webSocket_buildShakeKey rand = Some key \<and>
    handleRead env (s\<lparr>s_sock := arrive (webSocket_buildHttpHead ip port path key) (s_sock s)\<rparr>) = Some s' \<and>
    view s' = \<lparr>sv_open = True, sv_file = [], sv_sent = answer\<rparr> \<and> idle s' \<and> s_bytes s' = 0 \<and>
    login_answer sha (key @ [NUL]) (answer @ replicate n NUL) = Some 0"
proof -
  obtain key where key: "webSocket_buildShakeKey rand = Some key" "key_text key" "LF \<notin> set key"
    by (rule shakeKey [of rand]) blast
  obtain hs where hs: "parseHead (webSocket_buildHttpHead ip port path key) (s_headers s) = Some (Inr hs)"
      "header_of hs (s2b ''Sec-WebSocket-Key'') = key"
    using request_parsed [OF assms(4,5) key(3)] by blast
  obtain answer where a: "sendRespond (e_stack env) hs = Some answer" "length answer = 129"
      "login_answer sha (key @ [NUL]) (answer @ replicate n NUL) = Some 0"
    using answer_matches [OF assms(2,3) key(2) hs(2) assms(6)] by blast
  have "length answer \<le> progress (s_writes s)"
    using a(2) assms(7) by simp
  from handle_head [OF assms(1) hs(1) a(1) this] key(1) a(3) show ?thesis
    by metis
qed

definition ready_Session :: "nat \<Rightarrow> Session" where
  "ready_Session n = (new_Session [65] [0, 0, 0, 0] [0, 0, 0, 0] 0 \<lparr>avail = [], faults = []\<rparr>)\<lparr>s_writes := replicate n (1, Other_errno)\<rparr>"

definition plain_env :: "int surroundings" where
  "plain_env = \<lparr>e_dbl = int_double, e_alloc = (\<lambda>_. True), e_hooks = plenty, e_stack = some_SHA1\<rparr>"

lemma progress_replicate [simp]: "0 < n \<Longrightarrow> progress (replicate m (n, e)) = m"
  by (simp add: progress_def)

lemma ready_fresh: "fresh (ready_Session n)"
  by (simp add: fresh_def ready_Session_def new_Session_def new_Packet_def packet_ok_def willing_def)

theorem handshake_opens_session_witness:
  "\<exists>key answer s'. webSocket_buildShakeKey (\<lambda>i. i) = Some key \<and>
    handleRead plain_env ((ready_Session 129)\<lparr>s_sock := arrive (webSocket_buildHttpHead [49] 80 [47] key) (s_sock (ready_Session 129))\<rparr>) = Some s' \<and>
    view s' = \<lparr>sv_open = True, sv_file = [], sv_sent = answer\<rparr> \<and> idle s' \<and> s_bytes s' = 0 \<and>
    login_answer some_SHA1Context (key @ [NUL]) (answer @ replicate 383 NUL) = Some 0"
  by (rule handshake_opens_session [OF ready_fresh _ raw_some(2)]) (simp_all add: plain_env_def raw_some ready_Session_def)


lemma plain_env_ok: "surroundings_ok plain_env"
  by (simp add: surroundings_ok_def plain_env_def int_libc_g plenty_ok raw_some)


text \<open>
  C1: a connection that has shaken hands implements the service over messages for whatever part of
  their stream has come and however it is cut into pieces, several frames in one piece and
  events without new bytes among them: at each read event the next message is saved and answered when
  its frame is complete (a text of three bytes is neither, the end of the stream is answered last and
  closes the connection, a closing frame does so with its second byte), and an event with less than two
  bytes is answered like an empty message.  So when each event finds two bytes and there are events
  enough, exactly the messages are served, each once and in order.
\<close>

theorem session_refines_service:
  assumes "surroundings_ok env" "idle s" "uuid_ok (s_uuid s)" "list_all message_ok ms"
    and "concat cs @ later = concat (map d_frame ms)" "\<forall>n\<in>set (at_hand ms 0 (map length cs)). n < 2 ^ 31"
    and "710 * (length ms + length (filter (\<lambda>n. n < 2) (at_hand ms 0 (map length cs)))) \<le> progress (s_writes s)"
    and "0 \<le> s_bytes s" "s_bytes s + int (sum_list (map (length \<circ> d_data) ms)) \<le> INT_MAX"
  shows "\<exists>s'. receive_all env cs s = Some s' \<and>
    view s' = respond (reply_frame env (s_uuid s)) ms 0 (map length cs) (view s) \<and>
    ((\<forall>n\<in>set (at_hand ms 0 (map length cs)). 2 \<le> n) \<and> unserved ms 0 (map length cs) = [] \<longrightarrow>
      view s' = serve_all (reply_frame env (s_uuid s)) ms (view s) \<and> (sv_open (view s') \<longrightarrow> idle s'))"
proof -
  have pos: "position ms 0 s" "within ms s"
    using assms by (simp_all add: position_start within_def idle_def)
  have all: "respond (reply_frame env (s_uuid s)) ms 0 (map length cs) (view s) = serve_all (reply_frame env (s_uuid s)) ms (view s)"
    if "\<forall>n\<in>set (at_hand ms 0 (map length cs)). 2 \<le> n" "unserved ms 0 (map length cs) = []"
  proof (rule respond_serves [OF that])
    have "length (concat (map d_frame ms)) \<le> length (concat cs)"
      using unserved_none [OF that(2)] by (simp add: length_concat)
    then have "concat cs = concat (map d_frame ms)"
      using assms(5) by (metis append_Nil2 append_eq_append_conv2 length_append le_add1 le_antisym length_0_conv add_cancel_left_right)
    then show "0 + sum_list (map length cs) = length (concat (map d_frame ms))"
      by (metis add_0 length_concat)
  qed
  show ?thesis
    using session_responds [OF assms(1,4) pos _ assms(6,7), of later] assms(5) all by auto
qed

text \<open>Two bytes of audio and the end of the stream; the second piece ends one frame and begins the next.\<close>

definition sample_messages :: "message list" where
  "sample_messages =
     [\<lparr>d_first = 0x82, d_form = Short, d_key = [1, 2, 3, 4], d_data = [104, 105]\<rparr>,
      \<lparr>d_first = 0x81, d_form = Short, d_key = [0, 0, 0, 0], d_data = s2b ''EOS''\<rparr>]"

definition sample_pieces :: "bytes list" where
  "sample_pieces = [[0x82, 0x82], [1, 2, 3], [4, 105, 107, 0x81, 0x83, 0], [], [0, 0, 0, 69], s2b ''OS'']"

lemma sample_frames:
  "map d_frame sample_messages = [[0x82, 0x82, 1, 2, 3, 4, 105, 107], [0x81, 0x83, 0, 0, 0, 0] @ s2b ''EOS'']"
  by (simp add: sample_messages_def d_frame_def ws_frame_def ws_head_def mask_code_def xor_mask_def upt_rec)

lemma sample_messages_ok: "list_all message_ok sample_messages"
  using sample_frames by (simp add: sample_messages_def message_ok_def frame_ok_def)

definition open_Session :: "nat \<Rightarrow> Session" where
  "open_Session n = (ready_Session n)\<lparr>s_state := STATE_DATA\<rparr>"

lemma open_idle: "idle (open_Session n)" "uuid_ok (s_uuid (open_Session n))"
  by (simp_all add: open_Session_def ready_Session_def new_Session_def new_Packet_def packet_ok_def willing_def quiet_def
      uuid_ok_def idle_def)

lemma sample_at_hand:
  "at_hand sample_messages 0 (map length sample_pieces) = [2, 5, 11, 3, 7, 9]"
  "unserved sample_messages 0 (map length sample_pieces) = []"
  using sample_frames by (simp_all add: sample_messages_def sample_pieces_def)

theorem session_refines_service_witness:
  "\<exists>s'. receive_all plain_env sample_pieces (open_Session 1420) = Some s' \<and>
    view s' = serve_all (reply_frame plain_env (s_uuid (open_Session 1420))) sample_messages (view (open_Session 1420))"
proof -
  have "concat sample_pieces @ [] = concat (map d_frame sample_messages)"
    unfolding sample_frames by (simp add: sample_pieces_def)
  moreover have "progress (s_writes (open_Session 1420)) = 1420" "s_bytes (open_Session 1420) = 0"
    by (simp_all add: open_Session_def ready_Session_def new_Session_def)
  moreover have "length sample_messages = 2" "sum_list (map (length \<circ> d_data) sample_messages) = 5"
    by (simp_all add: sample_messages_def)
  ultimately show ?thesis
    using session_refines_service [OF plain_env_ok open_idle sample_messages_ok, of sample_pieces "[]" 1420]
    by (auto simp: sample_at_hand INT_MAX_def)
qed

end
