(* ===== verification/Upload.thy ===== *)
theory Upload
  imports Connection_Serve Client_Send
begin

text \<open>
  The upload of the client program (\<^verbatim>\<open>src/bin/dog-client.cc\<close>) against the server: the program
  sends a file in text messages of at most 1000 bytes and then the mark \<open>EOS\<close>.
\<close>

section \<open>The client's messages\<close>

definition UPLOAD_READ :: nat where "UPLOAD_READ = 1000"

text \<open>What the successive \<open>fread\<close> calls return.\<close>

function fread_all :: "bytes \<Rightarrow> bytes list" where
  "fread_all fp = (if fp = [] then [] else take UPLOAD_READ fp # fread_all (drop UPLOAD_READ fp))"
  by pat_completeness auto
termination
  by (relation "measure length") (auto simp: UPLOAD_READ_def)

declare fread_all.simps [simp del]

lemma fread_all_Nil [simp]: "fread_all [] = []"
  by (simp add: fread_all.simps)

definition EOS :: bytes where "EOS = s2b ''EOS''"

text \<open>The messages handed to \<open>send()\<close>; \<open>rand i\<close> are the random numbers of the \<open>i\<close>th call.\<close>

definition upload :: "(nat \<Rightarrow> nat \<Rightarrow> nat) \<Rightarrow> bytes \<Rightarrow> bytes list option" where
  "upload rand fp = those (map (\<lambda>(i, buf). Option.bind (webSocket_send (rand i) buf True WDT_TXTDATA) id)
     (enumerate 0 (fread_all fp @ [EOS])))"

section \<open>What the server makes of them\<close>

lemma fread_all_length: "buf \<in> set (fread_all fp) \<Longrightarrow> length buf \<le> UPLOAD_READ"
  by (induction fp rule: fread_all.induct) (subst (asm) (2) fread_all.simps, auto split: if_splits)

lemma fread_all_concat: "concat (fread_all fp) = fp"
  by (induction fp rule: fread_all.induct) (subst fread_all.simps, auto)

definition upload_frame :: "(nat \<Rightarrow> nat \<Rightarrow> nat) \<Rightarrow> nat \<Rightarrow> bytes \<Rightarrow> bytes" where
  "upload_frame rand i buf = ws_frame 0x81 (enc_form (length buf)) (Some (webSocket_getRandomString (rand i) 4)) buf"

lemma upload_message:
  assumes "length buf \<le> UPLOAD_READ"
  shows "Option.bind (webSocket_send (rand i) buf True WDT_TXTDATA) id = Some (upload_frame rand i buf)"
  using assms webSocket_send_frame [where data = buf and type = WDT_TXTDATA and ?b0.0 = "0x81"
    and rand = "rand i" and isMask = True]
  by (simp add: sendable_def UPLOAD_READ_def upload_frame_def enc_key_def)

lemma upload_frames:
  "upload rand fp = Some (map (\<lambda>(i, buf). upload_frame rand i buf) (enumerate 0 (fread_all fp @ [EOS])))"
proof -
  have "length buf \<le> UPLOAD_READ" if "(i, buf) \<in> set (enumerate 0 (fread_all fp @ [EOS]))" for i buf
    using that fread_all_length [of buf fp] by (auto simp: in_set_enumerate_eq nth_append EOS_def UPLOAD_READ_def split: if_splits)
  then have "map (\<lambda>(i, buf). Option.bind (webSocket_send (rand i) buf True WDT_TXTDATA) id) (enumerate 0 (fread_all fp @ [EOS]))
    = map (\<lambda>m. Some (case m of (i, buf) \<Rightarrow> upload_frame rand i buf)) (enumerate 0 (fread_all fp @ [EOS]))"
    by (intro map_cong [OF refl]) (auto simp: upload_message)
  then show ?thesis
    unfolding upload_def by (simp only: those_Some)
qed

text \<open>The part of the file that is saved, and the number of messages it is saved in.\<close>

definition kept :: "bytes \<Rightarrow> bytes" where
  "kept fp = (if length fp mod UPLOAD_READ = 3 then take (length fp - 3) fp else fp)"

definition kept_messages :: "bytes \<Rightarrow> nat" where
  "kept_messages fp = length fp div UPLOAD_READ + (if length fp mod UPLOAD_READ \<in> {0, 3} then 0 else 1)"

lemma serve_text:
  "sv_open v \<Longrightarrow> length xs \<noteq> 3 \<Longrightarrow>
   serve answer 0x81 xs v = v\<lparr>sv_file := sv_file v @ xs, sv_sent := sv_sent v @ answer 0\<rparr>"
  by (auto simp: serve_def ends_stream_def ignored_def WEBSOCKET_TEXT_DATA_def WEBSOCKET_CONNECT_CLOSE_def)

lemma serve_EOS:
  "serve answer 0x81 EOS v = (if sv_open v then v\<lparr>sv_open := False, sv_sent := sv_sent v @ answer 1\<rparr> else v)"
  by (simp add: serve_def ends_stream_def WEBSOCKET_TEXT_DATA_def EOS_def)

lemma serve_three:
  "sv_open v \<Longrightarrow> length xs = 3 \<Longrightarrow> serve answer 0x81 EOS (serve answer 0x81 xs v) = serve answer 0x81 EOS v"
  by (auto simp: serve_def ends_stream_def ignored_def WEBSOCKET_TEXT_DATA_def WEBSOCKET_CONNECT_CLOSE_def EOS_def)

lemma kept_step:
  assumes "UPLOAD_READ \<le> length fp"
  shows "kept fp = take UPLOAD_READ fp @ kept (drop UPLOAD_READ fp)"
    "kept_messages fp = Suc (kept_messages (drop UPLOAD_READ fp))"
proof -
  define rest where "rest = drop UPLOAD_READ fp"
  have fp: "fp = take UPLOAD_READ fp @ rest" "length fp = UPLOAD_READ + length rest"
    using assms by (simp_all add: rest_def)
  have m: "length fp mod UPLOAD_READ = length rest mod UPLOAD_READ" "length fp div UPLOAD_READ = Suc (length rest div UPLOAD_READ)"
    unfolding fp(2) by (simp_all add: UPLOAD_READ_def)
  show "kept_messages fp = Suc (kept_messages rest)"
    by (simp add: kept_messages_def m)
  have "3 \<le> length rest" if "length rest mod UPLOAD_READ = 3"
    using that by (metis mod_less_eq_dividend)
  then have "take (length fp - 3) fp = take UPLOAD_READ fp @ take (length rest - 3) rest" if "length rest mod UPLOAD_READ = 3"
    using that fp(2) by (subst fp(1), subst take_append) simp
  then show "kept fp = take UPLOAD_READ fp @ kept rest"
    using fp(1) by (simp add: kept_def m)
qed

lemma serve_upload:
  "sv_open v \<Longrightarrow> fold (serve answer 0x81) (fread_all fp @ [EOS]) v =
     \<lparr>sv_open = False, sv_file = sv_file v @ kept fp,
      sv_sent = sv_sent v @ concat (replicate (kept_messages fp) (answer 0)) @ answer 1\<rparr>"
proof (induction fp arbitrary: v rule: fread_all.induct)
  case (1 fp)
  consider "fp = []" | "fp \<noteq> []" "length fp < UPLOAD_READ" | "UPLOAD_READ \<le> length fp" "fp \<noteq> []"
    by linarith
  then show ?case
  proof cases
    case 1
    then show ?thesis
      using \<open>sv_open v\<close> by (simp add: serve_EOS kept_def kept_messages_def UPLOAD_READ_def)
  next
    case 2
    then have one: "fread_all fp = [fp]"
      by (subst fread_all.simps) simp
    show ?thesis
    proof (cases "length fp = 3")
      case True
      then show ?thesis
        using one \<open>sv_open v\<close> serve_three [of v fp answer]
        by (simp add: serve_EOS [of answer v] kept_def kept_messages_def UPLOAD_READ_def)
    next
      case False
      then show ?thesis
        using 2 one \<open>sv_open v\<close> by (simp add: serve_text serve_EOS kept_def kept_messages_def UPLOAD_READ_def)
    qed
  next
    case 3
    let ?v = "v\<lparr>sv_file := sv_file v @ take UPLOAD_READ fp, sv_sent := sv_sent v @ answer 0\<rparr>"
    have all: "fread_all fp = take UPLOAD_READ fp # fread_all (drop UPLOAD_READ fp)"
      using 3 by (subst fread_all.simps) simp
    have s: "serve answer 0x81 (take UPLOAD_READ fp) v = ?v"
      using 3 \<open>sv_open v\<close> by (intro serve_text) (simp_all add: UPLOAD_READ_def)
    have "fold (serve answer 0x81) (fread_all (drop UPLOAD_READ fp) @ [EOS]) ?v =
      \<lparr>sv_open = False, sv_file = sv_file ?v @ kept (drop UPLOAD_READ fp),
      sv_sent = sv_sent ?v @ concat (replicate (kept_messages (drop UPLOAD_READ fp)) (answer 0)) @ answer 1\<rparr>"
      using 3 \<open>sv_open v\<close> by (intro "1.IH") simp_all
    then show ?thesis
      unfolding all append_Cons fold_Cons o_apply s kept_step [OF 3(1)] by simp
  qed
qed

section \<open>The upload through the connection\<close>

definition delivery_of :: "(nat \<Rightarrow> nat \<Rightarrow> nat) \<Rightarrow> nat \<Rightarrow> bytes \<Rightarrow> bytes list \<Rightarrow> delivery" where
  "delivery_of rand i buf cs = \<lparr>d_first = 0x81, d_form = enc_form (length buf), d_key = webSocket_getRandomString (rand i) 4,
     d_data = buf, d_pieces = cs\<rparr>"

lemma delivery_of_ok:
  assumes "length buf \<le> UPLOAD_READ" "cut cs (upload_frame rand i buf)"
  shows "delivery_ok (delivery_of rand i buf cs)"
proof -
  have "length (upload_frame rand i buf) \<le> length buf + 14"
    by (simp add: upload_frame_def ws_frame_def length_ws_head) (cases "enc_form (length buf)"; simp)
  then show ?thesis
    using assms by (simp add: delivery_ok_def message_ok_def d_frame_def delivery_of_def frame_ok_def enc_form_ok UPLOAD_READ_def upload_frame_def)
qed

lemma deliveries:
  "list_all2 cut css (map (\<lambda>(i, buf). upload_frame rand i buf) (enumerate k bufs)) \<Longrightarrow>
   \<forall>buf\<in>set bufs. length buf \<le> UPLOAD_READ \<Longrightarrow>
   \<exists>ms. list_all delivery_ok ms \<and> map d_pieces ms = css \<and> map d_data ms = bufs \<and> (\<forall>m\<in>set ms. d_first m = 0x81)"
proof (induction bufs arbitrary: css k)
  case Nil
  then show ?case
    by (intro exI [of _ "[]"]) simp
next
  case (Cons buf bufs)
  then obtain cs css' where css: "css = cs # css'" "cut cs (upload_frame rand k buf)"
      "list_all2 cut css' (map (\<lambda>(i, buf). upload_frame rand i buf) (enumerate (Suc k) bufs))"
    by (auto simp: list_all2_Cons2)
  with Cons.IH [OF css(3)] Cons.prems(2) obtain ms where ms: "list_all delivery_ok ms" "map d_pieces ms = css'"
      "map d_data ms = bufs" "\<forall>m\<in>set ms. d_first m = 0x81"
    by auto
  then show ?case
    using css delivery_of_ok [OF _ css(2)] Cons.prems(2)
    by (intro exI [of _ "delivery_of rand k buf cs # ms"]) (simp add: delivery_of_def)
qed

lemma serve_all_texts:
  "\<forall>m\<in>set ms. d_first m = 0x81 \<Longrightarrow> serve_all answer ms v = fold (serve answer 0x81) (map d_data ms) v"
  by (induction ms arbitrary: v) (simp_all add: serve_all_def)

text \<open>
  C3: the program's upload of a file ends with the file saved by the server, every message answered,
  the end answered last and the connection closed, when each frame comes in pieces of its own, the
  first of at least two bytes, each its own read event; only a last message of exactly three bytes
  is not saved.
\<close>

theorem upload_saved:
  assumes "surroundings_ok env" "uuid_ok (s_uuid s)" "idle s" "s_bytes s = 0" "length fp < 2 ^ 31 - 4"
    and "710 * (length (fread_all fp) + 1) \<le> progress (s_writes s)"
  shows "\<exists>frames. upload rand fp = Some frames \<and> (\<forall>css. list_all2 cut css frames \<longrightarrow>
    (\<exists>s'. receive_all env (concat css) s = Some s' \<and> view s' = \<lparr>sv_open = False, sv_file = s_file s @ kept fp,
       sv_sent = s_sent s @ concat (replicate (kept_messages fp) (reply_frame env (s_uuid s) 0)) @
         reply_frame env (s_uuid s) 1\<rparr>))"
proof (intro exI [of _ "map (\<lambda>(i, buf). upload_frame rand i buf) (enumerate 0 (fread_all fp @ [EOS]))"] conjI allI impI)
  let ?bufs = "fread_all fp @ [EOS]"
  show "upload rand fp = Some (map (\<lambda>(i, buf). upload_frame rand i buf) (enumerate 0 ?bufs))"
    by (rule upload_frames)
  fix css
  assume "list_all2 cut css (map (\<lambda>(i, buf). upload_frame rand i buf) (enumerate 0 ?bufs))"
  then have "\<exists>ms. list_all delivery_ok ms \<and> map d_pieces ms = css \<and> map d_data ms = ?bufs \<and> (\<forall>m\<in>set ms. d_first m = 0x81)"
    by (rule deliveries) (auto dest: fread_all_length simp: EOS_def UPLOAD_READ_def)
  then obtain ms where ms: "list_all delivery_ok ms" "map d_pieces ms = css" "map d_data ms = ?bufs"
      "\<forall>m\<in>set ms. d_first m = 0x81"
    by blast
  have "length (concat ?bufs) = sum_list (map (length \<circ> d_data) ms)"
    by (simp only: length_concat ms(3) [symmetric] map_map)
  then have sum: "sum_list (map (length \<circ> d_data) ms) = length fp + 3"
    by (simp add: fread_all_concat EOS_def)
  have "length ms = length (fread_all fp) + 1"
    using arg_cong [OF ms(3), of length] by simp
  then have "\<exists>s'. receive_all env (concat (map d_pieces ms)) s = Some s' \<and>
      view s' = serve_all (reply_frame env (s_uuid s)) ms (view s) \<and> (sv_open (view s') \<longrightarrow> idle s')"
    using assms sum by (intro session_serves_all [OF assms(1,3,2) ms(1)]) (simp_all add: INT_MAX_def)
  moreover have "sv_open (view s)"
    using assms(3) by (simp add: view_def idle_def quiet_def)
  ultimately show "\<exists>s'. receive_all env (concat css) s = Some s' \<and> view s' = \<lparr>sv_open = False, sv_file = s_file s @ kept fp,
       sv_sent = s_sent s @ concat (replicate (kept_messages fp) (reply_frame env (s_uuid s) 0)) @
         reply_frame env (s_uuid s) 1\<rparr>"
    using serve_upload [of "view s" "reply_frame env (s_uuid s)" fp]
    by (auto simp: serve_all_texts [OF ms(4)] ms(2,3) view_def simp del: fold_append)
qed

lemma whole_frames:
  assumes "upload rand fp = Some frames"
  shows "list_all2 cut (map (\<lambda>f. [f]) frames) frames"
proof -
  have "2 \<le> length (upload_frame rand i buf)" for i buf
    by (simp add: upload_frame_def ws_frame_def length_ws_head)
  moreover from this have "upload_frame rand i buf \<noteq> []" for i buf
    by (metis list.size(3) not_numeral_le_zero)
  ultimately show ?thesis
    using assms by (auto simp: upload_frames list_all2_conv_all_nth cut_def split: prod.splits)
qed

theorem upload_saved_witness:
  "\<exists>frames s'. upload (\<lambda>i j. i + j) [104, 105] = Some frames \<and>
     receive_all plain_env (concat (map (\<lambda>f. [f]) frames)) (open_Session 1420) = Some s' \<and>
     sv_file (view s') = [104, 105] \<and>
     sv_sent (view s') = reply_frame plain_env [65] 0 @ reply_frame plain_env [65] 1"
proof -
  have s: "s_bytes (open_Session 1420) = 0" "s_uuid (open_Session 1420) = [65]" "s_file (open_Session 1420) = []"
      "s_sent (open_Session 1420) = []" "progress (s_writes (open_Session 1420)) = 1420"
    by (simp_all add: open_Session_def ready_Session_def new_Session_def)
  have one: "fread_all [104, 105] = [[104, 105]]"
    by (simp add: fread_all.simps UPLOAD_READ_def)
  obtain frames where f: "upload (\<lambda>i j. i + j) [104, 105] = Some frames"
      "\<forall>css. list_all2 cut css frames \<longrightarrow> (\<exists>s'. receive_all plain_env (concat css) (open_Session 1420) = Some s' \<and>
        view s' = \<lparr>sv_open = False, sv_file = s_file (open_Session 1420) @ kept [104, 105],
        sv_sent = s_sent (open_Session 1420) @ concat (replicate (kept_messages [104, 105])
          (reply_frame plain_env (s_uuid (open_Session 1420)) 0)) @ reply_frame plain_env (s_uuid (open_Session 1420)) 1\<rparr>)"
    using upload_saved [OF plain_env_ok open_idle(2,1) s(1), where fp = "[104, 105]" and rand = "\<lambda>i j. i + j"] s(5) one by auto
  show ?thesis
    using f(1) mp [OF spec [OF f(2)] whole_frames [OF f(1)]] s
    by (auto simp: kept_def kept_messages_def UPLOAD_READ_def)
qed

end
