(* ===== verification/Client_Program.thy ===== *)
theory Client_Program
  imports Upload "HOL-Library.Multiset"
begin

text \<open>
  The client program (\<^verbatim>\<open>src/bin/dog-client.cc\<close>): the list of files, the sending threads that take
  files from it under a mutex, and the main thread that polls their connections and wakes a thread
  when the server has closed its own.  The threads are steps that interleave.
\<close>

section \<open>The list of files\<close>

record FileItem =
  fi_id :: bytes
  fi_path :: bytes

text \<open>What the successive \<open>fgets(line, 2013, fp)\<close> return.\<close>

definition LINE_MAX :: nat where "LINE_MAX = 2012"

definition next_line :: "bytes \<Rightarrow> bytes" where
  "next_line fp = take LINE_MAX (takeWhile (\<lambda>c. c \<noteq> LF) fp @ (if LF \<in> set fp then [LF] else []))"

lemma next_line_Nil [simp]: "next_line fp = [] \<longleftrightarrow> fp = []"
  by (cases fp) (auto simp: next_line_def LINE_MAX_def)

function fgets_all :: "bytes \<Rightarrow> bytes list" where
  "fgets_all fp = (if fp = [] then [] else next_line fp # fgets_all (drop (length (next_line fp)) fp))"
  by pat_completeness auto
termination
  by (relation "measure length") (auto intro!: diff_less)

declare fgets_all.simps [simp del]

text \<open>
  \<open>sscanf(line, "%s\t%s\n", id, path)\<close>: two words, of which one that is missing stays empty; a word that
  does not fit its array with the terminator is written past it.
\<close>

definition scan_item :: "bytes \<Rightarrow> FileItem option" where
  "scan_item line =
     (let s = c_str line;
          id = token s;
          path = token (dropWhile (\<lambda>c. \<not> isspace c) (dropWhile isspace s)) in
      if 256 \<le> length id \<or> 1024 \<le> length path then None else Some \<lparr>fi_id = id, fi_path = path\<rparr>)"

text \<open>\<open>None\<close> for \<open>fp\<close> is a list that cannot be opened, whose null pointer \<open>fgets\<close> follows.\<close>

definition load_list :: "bytes option \<Rightarrow> FileItem list option" where
  "load_list fp = (case fp of None \<Rightarrow> None | Some fp \<Rightarrow> those (map scan_item (fgets_all fp)))"

section \<open>State\<close>

text \<open>
  Where a sending thread is; the number is the \<open>thread_id\<close> it read from the shared \<open>Param\<close> when it
  started.  \<open>Connected\<close> and \<open>Waiting\<close> have a connection, and the flag says whether the server has
  closed it.
\<close>

datatype sender =
    Created
  | Taking nat
  | Sending nat FileItem
  | Connected nat FileItem bool
  | Waiting nat FileItem bool
  | Ending nat
  | Ended nat

datatype main_phase = Creating nat | Polling

text \<open>
  \<open>Done\<close> is the end of the loop of the main thread by its test, \<open>Interrupted\<close> the end of the loop by
  a failure of \<open>epoll_wait\<close>, after which the program returns 0 as well; \<open>Exited\<close> is \<open>exit(-1)\<close> or a signal.
\<close>

datatype fate = Running | Exited | Crashed | Interrupted | Done

text \<open>
  \<open>cl_ids\<close> is the array \<open>thread_ids\<close>, \<open>cl_hups\<close> the threads for whose connections an \<open>EPOLLRDHUP\<close> is
  reported and not yet handled, \<open>cl_log\<close> the files sent, each with the frames given to \<open>send\<close> and what
  the calls took of them (the program does not look at their results).
\<close>

record Client =
  cl_list :: "FileItem list"
  cl_pos :: nat
  cl_threadNum :: nat
  cl_param_id :: nat
  cl_ids :: "int list"
  cl_threads :: "sender list"
  cl_main :: main_phase
  cl_hups :: "nat list"
  cl_log :: "(FileItem \<times> bytes list \<times> bytes list) list"
  cl_fate :: fate

text \<open>The array is not initialised: \<open>garbage\<close> is what it holds.\<close>

definition client_start :: "FileItem list \<Rightarrow> int list \<Rightarrow> Client" where
  "client_start items garbage = \<lparr>cl_list = items, cl_pos = 0, cl_threadNum = length garbage, cl_param_id = 0,
     cl_ids = garbage, cl_threads = [], cl_main = Creating 0, cl_hups = [], cl_log = [], cl_fate = Running\<rparr>"

section \<open>Steps\<close>

definition set_thread :: "nat \<Rightarrow> sender \<Rightarrow> Client \<Rightarrow> Client" where
  "set_thread k t S = S\<lparr>cl_threads := (cl_threads S)[k := t]\<rparr>"

definition set_id :: "nat \<Rightarrow> int \<Rightarrow> Client \<Rightarrow> Client" where
  "set_id i v S = S\<lparr>cl_ids := (cl_ids S)[i := v]\<rparr>"

definition is_thread :: "Client \<Rightarrow> nat \<Rightarrow> sender \<Rightarrow> bool" where
  "is_thread S k t \<longleftrightarrow> cl_fate S = Running \<and> k < length (cl_threads S) \<and> cl_threads S ! k = t"

text \<open>The critical section at the head of the loop of \<open>SendThread\<close>.\<close>

definition take_item :: "nat \<Rightarrow> nat \<Rightarrow> Client \<Rightarrow> Client" where
  "take_item k tid S =
     (if length (cl_list S) \<le> cl_pos S then set_id tid (-1) (set_thread k (Ending tid) S)
      else set_id tid (-1) (set_thread k (Sending tid (cl_list S ! cl_pos S)) (S\<lparr>cl_pos := cl_pos S + 1\<rparr>)))"

text \<open>
  The \<open>UserData\<close> a thread has registered with the poller is its local variable: an event for a thread
  that has no connection any more finds no valid one.
\<close>

fun user_id :: "sender \<Rightarrow> nat option" where
  "user_id (Connected tid item hup) = Some tid"
| "user_id (Waiting tid item hup) = Some tid"
| "user_id _ = None"

definition handle_hup :: "nat \<Rightarrow> nat list \<Rightarrow> Client \<Rightarrow> Client" where
  "handle_hup k hups S = (case user_id (cl_threads S ! k) of
     None \<Rightarrow> S\<lparr>cl_fate := Crashed\<rparr>
   | Some tid \<Rightarrow> set_id tid 1 (S\<lparr>cl_hups := hups\<rparr>))"

definition create_thread :: "nat \<Rightarrow> Client \<Rightarrow> Client" where
  "create_thread i S = S\<lparr>cl_param_id := i, cl_threads := cl_threads S @ [Created], cl_main := Creating (i + 1)\<rparr>"

text \<open>What the main thread looks at when \<open>epoll_wait\<close> has run out of time.\<close>

definition timeout_ends :: "Client \<Rightarrow> bool" where
  "timeout_ends S \<longleftrightarrow> list_all (\<lambda>v. v = 2) (cl_ids S)"

declare create_thread_def [simp] timeout_ends_def [simp]

text \<open>
  \<open>files\<close> is what \<open>fopen\<close> finds.  Two flags name conditions on the run that the program relies on:
  \<open>slept\<close> says that the pause after the creation of a thread was long enough for it to read its
  number, \<open>single\<close> that a connection is reported as closed once (a reset after the end of the
  stream is a second report).  A connection may fail, and a message to a connection that is
  gone ends the program by a signal; \<open>epoll_wait\<close> may fail.  A step outside the array \<open>thread_ids\<close> does not arise: a number
  is below \<open>cl_threadNum\<close>.
\<close>

definition taken_of :: "bytes \<Rightarrow> bytes \<Rightarrow> bool" where
  "taken_of out frame \<longleftrightarrow> (\<exists>n. out = take n frame)"

lemma taken_whole: "list_all2 taken_of frames frames"
  by (rule list.rel_refl) (metis taken_of_def take_all order_refl)

inductive client_step :: "bool \<Rightarrow> bool \<Rightarrow> (bytes \<Rightarrow> bytes option) \<Rightarrow> Client \<Rightarrow> Client \<Rightarrow> bool" for slept single files where
  create: "cl_fate S = Running \<Longrightarrow> cl_main S = Creating i \<Longrightarrow> i < cl_threadNum S \<Longrightarrow>
    (slept \<Longrightarrow> Created \<notin> set (cl_threads S)) \<Longrightarrow>
    client_step slept single files S (create_thread i S)"
| created: "cl_fate S = Running \<Longrightarrow> cl_main S = Creating i \<Longrightarrow> \<not> i < cl_threadNum S \<Longrightarrow>
    client_step slept single files S (S\<lparr>cl_main := Polling\<rparr>)"
| start: "is_thread S k Created \<Longrightarrow> client_step slept single files S (set_thread k (Taking (cl_param_id S)) S)"
| take_one: "is_thread S k (Taking tid) \<Longrightarrow> client_step slept single files S (take_item k tid S)"
| connect: "is_thread S k (Sending tid item) \<Longrightarrow> client_step slept single files S (set_thread k (Connected tid item False) S)"
| no_connection: "is_thread S k (Sending tid item) \<Longrightarrow> client_step slept single files S (S\<lparr>cl_fate := Exited\<rparr>)"
| send_file: "is_thread S k (Connected tid item hup) \<Longrightarrow> files (fi_path item) = Some fp \<Longrightarrow> upload rand fp = Some frames \<Longrightarrow>
    list_all2 taken_of outs frames \<Longrightarrow>
    client_step slept single files S (set_thread k (Waiting tid item hup) (S\<lparr>cl_log := cl_log S @ [(item, frames, outs)]\<rparr>))"
| broken_pipe: "is_thread S k (Connected tid item hup) \<Longrightarrow> client_step slept single files S (S\<lparr>cl_fate := Exited\<rparr>)"
| no_file: "is_thread S k (Connected tid item hup) \<Longrightarrow> files (fi_path item) = None \<Longrightarrow>
    client_step slept single files S (S\<lparr>cl_fate := Crashed\<rparr>)"
| closed_early: "is_thread S k (Connected tid item False) \<Longrightarrow>
    client_step slept single files S (set_thread k (Connected tid item True) (S\<lparr>cl_hups := cl_hups S @ [k]\<rparr>))"
| closed: "is_thread S k (Waiting tid item False) \<Longrightarrow>
    client_step slept single files S (set_thread k (Waiting tid item True) (S\<lparr>cl_hups := cl_hups S @ [k]\<rparr>))"
| closed_again: "\<not> single \<Longrightarrow> is_thread S k t \<Longrightarrow> t = Connected tid item True \<or> t = Waiting tid item True \<Longrightarrow>
    client_step slept single files S (S\<lparr>cl_hups := cl_hups S @ [k]\<rparr>)"
| hup: "cl_fate S = Running \<Longrightarrow> cl_main S = Polling \<Longrightarrow> cl_hups S = k # hups \<Longrightarrow>
    client_step slept single files S (handle_hup k hups S)"
| woken: "is_thread S k (Waiting tid item hup) \<Longrightarrow> cl_ids S ! tid = 1 \<Longrightarrow>
    client_step slept single files S (set_id tid (-1) (set_thread k (Taking tid) S))"
| stop: "is_thread S k (Ending tid) \<Longrightarrow> client_step slept single files S (set_id tid 2 (set_thread k (Ended tid) S))"
| poll_fails: "cl_fate S = Running \<Longrightarrow> cl_main S = Polling \<Longrightarrow> client_step slept single files S (S\<lparr>cl_fate := Interrupted\<rparr>)"
| all_done: "cl_fate S = Running \<Longrightarrow> cl_main S = Polling \<Longrightarrow> cl_hups S = [] \<Longrightarrow> timeout_ends S \<Longrightarrow>
    client_step slept single files S (S\<lparr>cl_fate := Done\<rparr>)"

inductive client_run :: "bool \<Rightarrow> bool \<Rightarrow> (bytes \<Rightarrow> bytes option) \<Rightarrow> Client \<Rightarrow> Client \<Rightarrow> bool" for slept single files where
  stay: "client_run slept single files S S"
| step: "client_run slept single files S T \<Longrightarrow> client_step slept single files T U \<Longrightarrow> client_run slept single files S U"

section \<open>The invariant\<close>

text \<open>
  A thread has its own number, and its entry of \<open>thread_ids\<close> tells where it is: 1 from the handling
  of the event to the wake-up, 2 at the end.  Here \<open>v\<close> is that entry, and \<open>h\<close> whether an event is
  reported for the thread.
\<close>

fun thread_ok :: "nat \<Rightarrow> int \<Rightarrow> bool \<Rightarrow> nat \<Rightarrow> sender \<Rightarrow> bool" where
  "thread_ok param v h k Created \<longleftrightarrow> k = param \<and> \<not> h \<and> v \<noteq> 2"
| "thread_ok param v h k (Taking tid) \<longleftrightarrow> tid = k \<and> \<not> h \<and> v \<noteq> 2"
| "thread_ok param v h k (Sending tid item) \<longleftrightarrow> tid = k \<and> \<not> h \<and> v = -1"
| "thread_ok param v h k (Connected tid item hup) \<longleftrightarrow> tid = k \<and> (if h then hup \<and> v = -1 else v = (if hup then 1 else -1))"
| "thread_ok param v h k (Waiting tid item hup) \<longleftrightarrow> tid = k \<and> (if h then hup \<and> v = -1 else v = (if hup then 1 else -1))"
| "thread_ok param v h k (Ending tid) \<longleftrightarrow> tid = k \<and> \<not> h \<and> v = -1"
| "thread_ok param v h k (Ended tid) \<longleftrightarrow> tid = k \<and> \<not> h \<and> v = 2"

fun in_flight :: "sender \<Rightarrow> FileItem list" where
  "in_flight (Sending tid item) = [item]"
| "in_flight (Connected tid item hup) = [item]"
| "in_flight _ = []"

fun leaving :: "sender \<Rightarrow> bool" where
  "leaving (Ending tid) = True"
| "leaving (Ended tid) = True"
| "leaving _ = False"

definition threads_ok :: "Client \<Rightarrow> bool" where
  "threads_ok S \<longleftrightarrow> (\<forall>k < length (cl_threads S).
     thread_ok (cl_param_id S) (cl_ids S ! k) (k \<in> set (cl_hups S)) k (cl_threads S ! k) \<and>
     (leaving (cl_threads S ! k) \<longrightarrow> cl_pos S = length (cl_list S)))"

definition sizes_ok :: "Client \<Rightarrow> bool" where
  "sizes_ok S \<longleftrightarrow> length (cl_ids S) = cl_threadNum S \<and> length (cl_threads S) \<le> cl_threadNum S \<and>
     (\<forall>i. cl_main S = Creating i \<longrightarrow> length (cl_threads S) = i) \<and>
     (cl_main S = Polling \<longrightarrow> length (cl_threads S) = cl_threadNum S) \<and>
     cl_pos S \<le> length (cl_list S) \<and> distinct (cl_hups S) \<and> (\<forall>k \<in> set (cl_hups S). k < length (cl_threads S)) \<and>
     (\<forall>k < cl_threadNum S. length (cl_threads S) \<le> k \<longrightarrow> cl_ids S ! k \<noteq> 2)"

text \<open>The files taken from the list are those sent and those under way, each once.\<close>

definition sent_ok :: "(bytes \<Rightarrow> bytes option) \<Rightarrow> FileItem \<times> bytes list \<times> bytes list \<Rightarrow> bool" where
  "sent_ok files = (\<lambda>(item, frames, outs). \<exists>fp rand. files (fi_path item) = Some fp \<and> upload rand fp = Some frames \<and>
     list_all2 taken_of outs frames)"

definition files_ok :: "(bytes \<Rightarrow> bytes option) \<Rightarrow> Client \<Rightarrow> bool" where
  "files_ok files S \<longleftrightarrow>
     mset (map fst (cl_log S)) + mset (concat (map in_flight (cl_threads S))) = mset (take (cl_pos S) (cl_list S)) \<and>
     (\<forall>e \<in> set (cl_log S). sent_ok files e)"

lemma in_flight_update:
  assumes "k < length ts"
  shows "mset (concat (map in_flight (ts[k := t]))) + mset (in_flight (ts ! k))
    = mset (concat (map in_flight ts)) + mset (in_flight t)"
proof -
  have "ts = take k ts @ ts ! k # drop (Suc k) ts"
    using assms by (rule id_take_nth_drop)
  then have "mset (concat (map in_flight ts))
      = mset (concat (map in_flight (take k ts))) + mset (in_flight (ts ! k)) + mset (concat (map in_flight (drop (Suc k) ts)))"
    by (metis (no_types, opaque_lifting) add.assoc concat.simps(2) concat_append list.simps(9) map_append mset_append)
  moreover have "mset (concat (map in_flight (ts[k := t])))
      = mset (concat (map in_flight (take k ts))) + mset (in_flight t) + mset (concat (map in_flight (drop (Suc k) ts)))"
    using assms by (simp add: upd_conv_take_nth_drop)
  ultimately show ?thesis
    by simp
qed

lemma in_flight_kept:
  "k < length ts \<Longrightarrow> in_flight t = in_flight (ts ! k) \<Longrightarrow> mset (concat (map in_flight (ts[k := t]))) = mset (concat (map in_flight ts))"
  using in_flight_update [of k ts t] by simp

lemmas step_simps = is_thread_def set_thread_def set_id_def take_item_def handle_hup_def

text \<open>A step of thread \<open>k\<close>, or of the main thread on its behalf, changes what belongs to \<open>k\<close> alone.\<close>

definition changes :: "nat \<Rightarrow> sender \<Rightarrow> int \<Rightarrow> Client \<Rightarrow> Client \<Rightarrow> bool" where
  "changes k t v S T \<longleftrightarrow> k < length (cl_threads S) \<and> cl_threads T = (cl_threads S)[k := t] \<and>
     cl_ids T = (cl_ids S)[k := v] \<and> distinct (cl_hups T) \<and> (\<forall>j. j \<noteq> k \<longrightarrow> j \<in> set (cl_hups T) \<longleftrightarrow> j \<in> set (cl_hups S)) \<and>
     cl_param_id T = cl_param_id S \<and> cl_main T = cl_main S \<and> cl_threadNum T = cl_threadNum S \<and>
     cl_list T = cl_list S \<and> cl_pos S \<le> cl_pos T \<and> cl_pos T \<le> length (cl_list S) \<and>
     thread_ok (cl_param_id S) v (k \<in> set (cl_hups T)) k t \<and> (leaving t \<longrightarrow> cl_pos T = length (cl_list S))"

lemma changes_ok:
  assumes "changes k t v S T" "threads_ok S" "sizes_ok S"
  shows "threads_ok T \<and> sizes_ok T"
proof
  have k: "k < length (cl_ids S)" "\<forall>j \<in> set (cl_hups S). j < length (cl_threads S)"
    using assms(1,3) unfolding changes_def sizes_ok_def by (metis order_less_le_trans, blast)
  show "threads_ok T"
    unfolding threads_ok_def
  proof (intro allI impI)
    fix j
    assume "j < length (cl_threads T)"
    with assms(1,2) k show "thread_ok (cl_param_id T) (cl_ids T ! j) (j \<in> set (cl_hups T)) j (cl_threads T ! j) \<and>
        (leaving (cl_threads T ! j) \<longrightarrow> cl_pos T = length (cl_list T))"
      by (cases "j = k") (auto simp: changes_def threads_ok_def)
  qed
  have "j < length (cl_threads S)" if "j \<in> set (cl_hups T)" for j
    using that assms(1) k(2) by (cases "j = k") (auto simp: changes_def)
  then show "sizes_ok T"
    using assms(1,3) by (auto simp: changes_def sizes_ok_def nth_list_update)
qed

lemma thread_facts:
  assumes "is_thread S k t" "threads_ok S" "sizes_ok S"
  shows "k < length (cl_threads S)" "k < length (cl_ids S)" "cl_threads S ! k = t" "cl_pos S \<le> length (cl_list S)"
    "distinct (cl_hups S)" "thread_ok (cl_param_id S) (cl_ids S ! k) (k \<in> set (cl_hups S)) k t"
    "leaving t \<Longrightarrow> cl_pos S = length (cl_list S)"
  using assms by (auto simp: is_thread_def threads_ok_def sizes_ok_def)

lemma thread_step_changes:
  assumes "client_step slept True files S T" "threads_ok S" "sizes_ok S"
  shows "(\<exists>k t v. changes k t v S T) \<or> (\<exists>i. cl_fate S = Running \<and> cl_main S = Creating i \<and>
      (if i < cl_threadNum S then (slept \<longrightarrow> Created \<notin> set (cl_threads S)) \<and>
          T = S\<lparr>cl_param_id := i, cl_threads := cl_threads S @ [Created], cl_main := Creating (i + 1)\<rparr>
       else T = S\<lparr>cl_main := Polling\<rparr>)) \<or> (\<exists>f. T = S\<lparr>cl_fate := f\<rparr>)"
  using assms(1)
proof cases
  case (create i)
  then show ?thesis by auto
next
  case (created i)
  then show ?thesis by auto
next
  case (start k)
  note th = thread_facts [OF start(2) assms(2,3)]
  have "changes k (Taking (cl_param_id S)) (cl_ids S ! k) S T"
    using th start(1) by (auto simp: changes_def set_thread_def)
  then show ?thesis by blast
next
  case (take_one k tid)
  note th = thread_facts [OF take_one(2) assms(2,3)]
  have "changes k (if length (cl_list S) \<le> cl_pos S then Ending k else Sending k (cl_list S ! cl_pos S)) (-1) S T"
    using th take_one(1) by (auto simp: changes_def set_thread_def set_id_def take_item_def)
  then show ?thesis by blast
next
  case (connect k tid item)
  note th = thread_facts [OF connect(2) assms(2,3)]
  have "changes k (Connected k item False) (cl_ids S ! k) S T"
    using th connect(1) list_update_id [of "cl_ids S" k] by (auto simp: changes_def set_thread_def)
  then show ?thesis by blast
next
  case (send_file k tid item hup fp rand frames outs)
  note th = thread_facts [OF send_file(2) assms(2,3)]
  have "changes k (Waiting k item hup) (cl_ids S ! k) S T"
    using th send_file(1) by (auto simp: changes_def set_thread_def)
  then show ?thesis by blast
next
  case (closed_early k tid item)
  note th = thread_facts [OF closed_early(2) assms(2,3)]
  have "changes k (Connected k item True) (cl_ids S ! k) S T"
    using th closed_early(1) by (auto simp: changes_def set_thread_def split: if_splits)
  then show ?thesis by blast
next
  case (closed k tid item)
  note th = thread_facts [OF closed(2) assms(2,3)]
  have "changes k (Waiting k item True) (cl_ids S ! k) S T"
    using th closed(1) by (auto simp: changes_def set_thread_def split: if_splits)
  then show ?thesis by blast
next
  case (hup k hups)
  have k: "k < length (cl_threads S)" "k \<in> set (cl_hups S)"
    using hup assms(3) by (auto simp: sizes_ok_def)
  then have "is_thread S k (cl_threads S ! k)"
    using hup by (simp add: is_thread_def)
  note th = thread_facts [OF this assms(2,3)]
  have "changes k (cl_threads S ! k) 1 S T"
    using th hup k list_update_id [of "cl_threads S" k] by (cases "cl_threads S ! k") (auto simp: changes_def handle_hup_def set_id_def split: if_splits)
  then show ?thesis by blast
next
  case (woken k tid item h)
  note th = thread_facts [OF woken(2) assms(2,3)]
  have "changes k (Taking k) (-1) S T"
    using th woken(1,3) by (auto simp: changes_def set_thread_def set_id_def split: if_splits)
  then show ?thesis by blast
next
  case (stop k tid)
  note th = thread_facts [OF stop(2) assms(2,3)]
  have "changes k (Ended k) 2 S T"
    using th stop(1) by (auto simp: changes_def set_thread_def set_id_def)
  then show ?thesis by blast
qed auto

lemma step_ok:
  assumes "client_step True True files S T" "threads_ok S" "sizes_ok S"
  shows "threads_ok T \<and> sizes_ok T"
  using thread_step_changes [OF assms]
proof (elim disjE exE conjE)
  fix k t v
  assume "changes k t v S T"
  then show ?thesis
    using changes_ok assms(2,3) by blast
next
  fix i
  assume S: "cl_main S = Creating i" "if i < cl_threadNum S then (True \<longrightarrow> Created \<notin> set (cl_threads S)) \<and>
      T = S\<lparr>cl_param_id := i, cl_threads := cl_threads S @ [Created], cl_main := Creating (i + 1)\<rparr>
    else T = S\<lparr>cl_main := Polling\<rparr>"
  have i: "length (cl_threads S) = i" "i \<le> cl_threadNum S"
    using assms(3) S(1) by (auto simp: sizes_ok_def)
  show ?thesis
  proof (cases "i < cl_threadNum S")
    case True
    have "cl_threads S ! k \<noteq> Created" if "k < i" for k
      using S(2) True that i(1) nth_mem by fastforce
    then have created: "thread_ok i v h k (cl_threads S ! k) \<longleftrightarrow> thread_ok (cl_param_id S) v h k (cl_threads S ! k)"
      if "k < i" for v h k
      using that by (cases "cl_threads S ! k") auto
    have "cl_ids S ! i \<noteq> 2" "i \<notin> set (cl_hups S)"
      using assms(3) i(1) True by (auto simp: sizes_ok_def)
    then have "threads_ok T"
      using S True assms(2) i(1) created
      by (auto simp: threads_ok_def nth_append less_Suc_eq)
    moreover have "sizes_ok T"
      using S True assms(3) i(1) by (auto simp: sizes_ok_def less_Suc_eq)
    ultimately show ?thesis ..
  next
    case False
    then show ?thesis
      using S assms(2,3) i by (auto simp: threads_ok_def sizes_ok_def)
  qed
next
  fix f
  assume "T = S\<lparr>cl_fate := f\<rparr>"
  then show ?thesis
    using assms(2,3) by (simp add: threads_ok_def sizes_ok_def)
qed

lemma step_files_ok:
  assumes "client_step slept single files S T" "files_ok files S"
  shows "files_ok files T"
  using assms(1)
proof cases
  case (take_one k tid)
  then show ?thesis
    using assms(2) in_flight_update [of k "cl_threads S" "Sending tid (cl_list S ! cl_pos S)"] in_flight_kept [of k "cl_threads S" "Ending tid"]
    by (auto simp: step_simps files_ok_def take_Suc_conv_app_nth)
next
  case (send_file k tid item hup fp rand frames outs)
  then have "sent_ok files (item, frames, outs)"
    by (auto simp: sent_ok_def)
  moreover have "mset (concat (map in_flight (cl_threads S))) =
      add_mset item (mset (concat (map in_flight ((cl_threads S)[k := Waiting tid item hup]))))"
    using send_file(2) in_flight_update [of k "cl_threads S" "Waiting tid item hup"] by (simp add: is_thread_def)
  ultimately show ?thesis
    using assms(2) send_file(1) by (auto simp: set_thread_def files_ok_def)
next
  case (hup k hups)
  then show ?thesis
    using assms(2) by (simp add: step_simps files_ok_def split: option.split)
qed (use assms(2) in \<open>simp_all add: step_simps files_ok_def in_flight_kept\<close>)

lemma step_static:
  assumes "client_step slept single files S T"
  shows "cl_list T = cl_list S \<and> cl_threadNum T = cl_threadNum S"
  using assms by cases (simp_all add: step_simps split: option.split)

lemma run_files_ok:
  "client_run slept single files S T \<Longrightarrow> files_ok files S \<Longrightarrow> files_ok files T \<and> cl_list T = cl_list S"
proof (induction rule: client_run.induct)
  case (step S T U)
  then show ?case
    using step_files_ok step_static by metis
qed simp

section \<open>What has been sent at the end\<close>

definition fate_ok :: "(bytes \<Rightarrow> bytes option) \<Rightarrow> Client \<Rightarrow> bool" where
  "fate_ok files S \<longleftrightarrow>
     (cl_fate S = Crashed \<longrightarrow> (\<exists>item \<in> set (cl_list S). files (fi_path item) = None)) \<and>
     (cl_fate S = Done \<longrightarrow> cl_threadNum S = 0 \<or> mset (map fst (cl_log S)) = mset (cl_list S))"

lemma event_has_user:
  assumes "k \<in> set (cl_hups S)" "threads_ok S" "sizes_ok S"
  shows "user_id (cl_threads S ! k) = Some k"
proof -
  have "thread_ok (cl_param_id S) (cl_ids S ! k) True k (cl_threads S ! k)"
    using assms by (auto simp: threads_ok_def sizes_ok_def)
  then show ?thesis
    by (cases "cl_threads S ! k") simp_all
qed

lemma in_flight_listed:
  assumes "k < length (cl_threads S)" "item \<in> set (in_flight (cl_threads S ! k))" "files_ok files S"
  shows "item \<in> set (cl_list S)"
proof -
  have "item \<in># mset (concat (map in_flight (cl_threads S)))"
    using assms(1,2) nth_mem [OF assms(1)] by auto
  then have "item \<in># mset (take (cl_pos S) (cl_list S))"
    using assms(3) by (metis files_ok_def union_iff)
  then show ?thesis
    using in_set_takeD by fastforce
qed

lemma all_ended:
  assumes "list_all (\<lambda>v. v = 2) (cl_ids S)" "cl_main S = Polling" "threads_ok S" "sizes_ok S" "k < length (cl_threads S)"
  shows "cl_threads S ! k = Ended k" "cl_pos S = length (cl_list S)"
proof -
  have "cl_ids S ! k = 2"
    using assms by (simp add: sizes_ok_def list_all_length)
  then have t: "thread_ok (cl_param_id S) 2 (k \<in> set (cl_hups S)) k (cl_threads S ! k)"
      "leaving (cl_threads S ! k) \<longrightarrow> cl_pos S = length (cl_list S)"
    using assms(3,5) by (auto simp: threads_ok_def)
  then show "cl_threads S ! k = Ended k"
    by (cases "cl_threads S ! k") (auto split: if_splits)
  with t show "cl_pos S = length (cl_list S)"
    by simp
qed

lemma step_fate_ok:
  assumes "client_step True True files S T" "fate_ok files S" "threads_ok S" "sizes_ok S" "files_ok files S"
  shows "fate_ok files T"
  using assms(1)
proof cases
  case (no_file k tid item h)
  then show ?thesis
    using in_flight_listed [of k S item files] assms(5) by (auto simp: is_thread_def fate_ok_def)
next
  case (hup k hups)
  then show ?thesis
    using event_has_user [of k S] assms(2-4) by (simp add: handle_hup_def set_id_def fate_ok_def)
next
  case all_done
  have "mset (map fst (cl_log S)) = mset (cl_list S)" if "cl_threadNum S \<noteq> 0"
  proof -
    note ended = all_ended [OF all_done(5) [unfolded timeout_ends_def] all_done(3) assms(3,4)]
    have "length (cl_threads S) = cl_threadNum S"
      using all_done(3) assms(4) by (simp add: sizes_ok_def)
    then have pos: "cl_pos S = length (cl_list S)"
      using ended(2) [of 0] that by simp
    have "in_flight t = []" if t: "t \<in> set (cl_threads S)" for t
    proof -
      obtain k where "k < length (cl_threads S)" "t = cl_threads S ! k"
        using t by (auto simp: in_set_conv_nth)
      then show ?thesis
        using ended(1) [of k] by simp
    qed
    then have none: "mset (concat (map in_flight (cl_threads S))) = {#}"
      by simp
    have "mset (map fst (cl_log S)) + mset (concat (map in_flight (cl_threads S))) = mset (take (cl_pos S) (cl_list S))"
      using assms(5) by (simp only: files_ok_def)
    then show ?thesis
      unfolding none by (simp add: pos)
  qed
  then show ?thesis
    using all_done by (auto simp: fate_ok_def)
qed (use assms(2) in \<open>simp_all add: step_simps fate_ok_def\<close>)

definition client_inv :: "(bytes \<Rightarrow> bytes option) \<Rightarrow> Client \<Rightarrow> bool" where
  "client_inv files S \<longleftrightarrow> threads_ok S \<and> sizes_ok S \<and> files_ok files S \<and> fate_ok files S"

lemma client_step_inv: "client_step True True files S T \<Longrightarrow> client_inv files S \<Longrightarrow> client_inv files T"
  using step_ok step_files_ok step_fate_ok by (simp add: client_inv_def)

lemma start_client_inv:
  assumes "2 \<notin> set garbage"
  shows "client_inv files (client_start items garbage)"
  using assms nth_mem by (fastforce simp: client_inv_def client_start_def threads_ok_def sizes_ok_def files_ok_def fate_ok_def)

lemma run_client_inv:
  assumes "client_run True True files S T" "client_inv files S"
  shows "client_inv files T \<and> cl_list T = cl_list S \<and> cl_threadNum T = cl_threadNum S"
  using assms by induction (auto dest: client_step_inv step_static)

section \<open>The end is always in reach\<close>

fun weight :: "sender \<Rightarrow> nat" where
  "weight Created = 3"
| "weight (Taking tid) = 2"
| "weight (Sending tid item) = 9"
| "weight (Connected tid item hup) = (if hup then 6 else 8)"
| "weight (Waiting tid item hup) = (if hup then 5 else 7)"
| "weight (Ending tid) = 1"
| "weight (Ended tid) = 0"

definition to_do :: "Client \<Rightarrow> nat" where
  "to_do S = 10 * (length (cl_list S) - cl_pos S) + sum_list (map weight (cl_threads S)) +
     4 * (cl_threadNum S - length (cl_threads S)) + length (cl_hups S) + (if cl_main S = Polling then 0 else 1)"

lemma weight_update:
  assumes "k < length ts"
  shows "sum_list (map weight (ts[k := t])) + weight (ts ! k) = sum_list (map weight ts) + weight t"
  using assms elem_le_sum_list [of k "map weight ts"] by (simp add: map_update sum_list_update)

lemma progress_possible:
  assumes inv: "client_inv files S" and run: "cl_fate S = Running"
    and files: "\<forall>item \<in> set (cl_list S). files (fi_path item) \<noteq> None"
  shows "\<exists>T. client_step True True files S T \<and> (cl_fate T = Done \<or> cl_fate T = Running \<and> to_do T < to_do S)"
proof -
  have ok: "threads_ok S" "sizes_ok S" "files_ok files S"
    using inv by (simp_all add: client_inv_def)
  have thread: "\<exists>T. client_step True True files S T \<and> cl_fate T = Running \<and> to_do T < to_do S"
    if k: "k < length (cl_threads S)" "cl_threads S ! k \<noteq> Ended k" "cl_hups S = []" for k
  proof -
    define t where "t = cl_threads S ! k"
    have t: "is_thread S k t"
      using k(1) run by (simp add: is_thread_def t_def)
    note th = thread_facts [OF this ok(1,2)]
    note w = weight_update [OF th(1), unfolded th(3)]
    show ?thesis
    proof (cases t)
      case Created
      then show ?thesis
        using client_step.start [of S k True True files] t w [of "Taking (cl_param_id S)"] run
        by (intro exI [of _ "set_thread k (Taking (cl_param_id S)) S"]) (simp add: set_thread_def to_do_def)
    next
      case (Taking tid)
      then show ?thesis
        using client_step.take_one [of S k tid True True files] t run
          w [of "Ending tid"] w [of "Sending tid (cl_list S ! cl_pos S)"]
        by (intro exI [of _ "take_item k tid S"]) (simp add: take_item_def set_thread_def set_id_def to_do_def, arith)
    next
      case (Sending tid item)
      then show ?thesis
        using client_step.connect [of S k tid item True True files] t w [of "Connected tid item False"] run
        by (intro exI [of _ "set_thread k (Connected tid item False) S"]) (simp add: set_thread_def to_do_def)
    next
      case (Connected tid item h)
      have "item \<in> set (cl_list S)"
        using in_flight_listed [OF k(1) _ ok(3)] Connected by (simp add: t_def)
      then obtain fp where fp: "files (fi_path item) = Some fp"
        using files by fastforce
      obtain frames where "upload (\<lambda>_ _. 0) fp = Some frames"
        using upload_frames by blast
      then show ?thesis
        using client_step.send_file [of S k tid item h files fp "\<lambda>_ _. 0" frames frames True True] t w [of "Waiting tid item h"] run Connected fp
        by (intro exI [of _ "set_thread k (Waiting tid item h) (S\<lparr>cl_log := cl_log S @ [(item, frames, frames)]\<rparr>)"])
          (simp add: taken_whole set_thread_def to_do_def split: if_splits)
    next
      case (Waiting tid item h)
      show ?thesis
      proof (cases h)
        case True
        have "cl_ids S ! tid = 1"
          using th(6) k(3) Waiting True by simp
        then show ?thesis
          using client_step.woken [of S k tid item h True True files] t w [of "Taking tid"] run Waiting True
          by (intro exI [of _ "set_id tid (-1) (set_thread k (Taking tid) S)"]) (simp add: set_thread_def set_id_def to_do_def)
      next
        case False
        then show ?thesis
          using client_step.closed [of S k tid item True True files] t w [of "Waiting tid item True"] run Waiting
          by (intro exI [of _ "set_thread k (Waiting tid item True) (S\<lparr>cl_hups := cl_hups S @ [k]\<rparr>)"])
            (simp add: set_thread_def to_do_def)
      qed
    next
      case (Ending tid)
      then show ?thesis
        using client_step.stop [of S k tid True True files] t w [of "Ended tid"] run
        by (intro exI [of _ "set_id tid 2 (set_thread k (Ended tid) S)"]) (simp add: set_thread_def set_id_def to_do_def)
    next
      case (Ended tid)
      then show ?thesis
        using th(6) k(2) t_def by simp
    qed
  qed
  show ?thesis
  proof (cases "cl_main S")
    case (Creating i)
    then have i: "length (cl_threads S) = i" "i \<le> cl_threadNum S"
      using ok(2) by (auto simp: sizes_ok_def)
    consider (start) k where "is_thread S k Created" | (create) "Created \<notin> set (cl_threads S)" "i < cl_threadNum S"
      | (created) "\<not> i < cl_threadNum S"
      using run by (auto simp: is_thread_def in_set_conv_nth)
    then show ?thesis
    proof cases
      case start
      note w = weight_update [of k "cl_threads S" "Taking (cl_param_id S)"]
      show ?thesis
        using client_step.start [OF start, of True True files] start w
        by (intro exI [of _ "set_thread k (Taking (cl_param_id S)) S"]) (simp add: is_thread_def set_thread_def to_do_def)
    next
      case create
      then show ?thesis
        using client_step.create [of S i True True files] run Creating i
        by (intro exI [of _ "S\<lparr>cl_param_id := i, cl_threads := cl_threads S @ [Created], cl_main := Creating (i + 1)\<rparr>"])
          (simp add: to_do_def)
    next
      case created
      then show ?thesis
        using client_step.created [of S i True True files] run Creating
        by (intro exI [of _ "S\<lparr>cl_main := Polling\<rparr>"]) (simp add: to_do_def)
    qed
  next
    case Polling
    show ?thesis
    proof (cases "cl_hups S")
      case (Cons k hups)
      then have "handle_hup k hups S = set_id k 1 (S\<lparr>cl_hups := hups\<rparr>)"
        using event_has_user [of k S] ok(1,2) by (simp add: handle_hup_def)
      then show ?thesis
        using client_step.hup [OF run Polling Cons, of True True files] run Polling Cons
        by (intro exI [of _ "handle_hup k hups S"]) (simp add: set_id_def to_do_def)
    next
      case Nil
      show ?thesis
      proof (cases "\<exists>k < length (cl_threads S). cl_threads S ! k \<noteq> Ended k")
        case True
        then show ?thesis
          using thread Nil by blast
      next
        case False
        have "cl_ids S ! k = 2" if "k < length (cl_threads S)" for k
        proof -
          have "thread_ok (cl_param_id S) (cl_ids S ! k) (k \<in> set (cl_hups S)) k (Ended k)"
            using False that ok(1) by (metis threads_ok_def)
          then show ?thesis
            by simp
        qed
        then have "list_all (\<lambda>v. v = 2) (cl_ids S)"
          using ok(2) Polling by (simp add: sizes_ok_def list_all_length)
        then show ?thesis
          using client_step.all_done [OF run Polling Nil, of True True files]
          by (intro exI [of _ "S\<lparr>cl_fate := Done\<rparr>"]) simp
      qed
    qed
  qed
qed

lemma client_run_trans: "client_run slept single files T U \<Longrightarrow> client_run slept single files S T \<Longrightarrow> client_run slept single files S U"
  by (induction rule: client_run.induct) (auto intro: client_run.step)

lemma done_reachable:
  assumes "client_inv files S" "cl_fate S = Running" "\<forall>item \<in> set (cl_list S). files (fi_path item) \<noteq> None"
  shows "\<exists>T. client_run True True files S T \<and> cl_fate T = Done"
  using assms
proof (induction "to_do S" arbitrary: S rule: less_induct)
  case less
  from progress_possible [OF less.prems] obtain T
    where T: "client_step True True files S T" "cl_fate T = Done \<or> cl_fate T = Running \<and> to_do T < to_do S"
    by blast
  have one: "client_run True True files S T"
    using T(1) client_run.stay client_run.step by blast
  from T(2) show ?case
  proof
    assume "cl_fate T = Done"
    with one show ?case by blast
  next
    assume "cl_fate T = Running \<and> to_do T < to_do S"
    moreover have "\<forall>item \<in> set (cl_list T). files (fi_path item) \<noteq> None"
      using step_static [OF T(1)] less.prems(3) by simp
    ultimately obtain U where "client_run True True files T U" "cl_fate U = Done"
      using less.hyps [of T] client_step_inv [OF T(1) less.prems(1)] by blast
    then show ?case
      using client_run_trans [OF _ one] by blast
  qed
qed

section \<open>A number read too late\<close>

text \<open>
  Without the pause two threads may read the same number.  The entry of the other is then never
  written, and the program does not end (the entry 2 left in memory by chance apart).
\<close>

fun sender_id :: "sender \<Rightarrow> nat option" where
  "sender_id Created = None"
| "sender_id (Taking tid) = Some tid"
| "sender_id (Sending tid item) = Some tid"
| "sender_id (Connected tid item hup) = Some tid"
| "sender_id (Waiting tid item hup) = Some tid"
| "sender_id (Ending tid) = Some tid"
| "sender_id (Ended tid) = Some tid"

lemma user_sender: "user_id t = Some tid \<Longrightarrow> sender_id t = Some tid"
  by (cases t) simp_all

definition lost :: "int \<Rightarrow> Client \<Rightarrow> bool" where
  "lost g S \<longleftrightarrow> length (cl_ids S) = 2 \<and> cl_ids S ! 0 = g \<and> cl_threadNum S = 2 \<and> (cl_main S = Creating 2 \<or> cl_main S = Polling) \<and>
     (\<forall>t \<in> set (cl_threads S). sender_id t = Some 1) \<and> (\<forall>k \<in> set (cl_hups S). k < length (cl_threads S)) \<and> cl_fate S \<noteq> Done"

lemma lost_thread: "lost g S \<Longrightarrow> is_thread S k t \<Longrightarrow> sender_id t = Some 1"
  by (auto simp: lost_def is_thread_def)

lemma lost_set_thread:
  "lost g S \<Longrightarrow> sender_id t = Some 1 \<Longrightarrow> lost g (set_thread k t S)"
  using set_update_subset_insert [of "cl_threads S" k t] by (auto simp: lost_def set_thread_def)

lemma lost_set_id: "lost g S \<Longrightarrow> lost g (set_id (Suc 0) v S)"
  by (simp add: lost_def set_id_def)

lemma lost_kept:
  assumes "client_step slept single files S T" "lost g S" "g \<noteq> 2"
  shows "lost g T"
  using assms(1)
proof cases
  case (take_one k tid)
  have tid: "tid = 1"
    using lost_thread [OF assms(2) take_one(2)] by simp
  have "lost g (S\<lparr>cl_pos := cl_pos S + 1\<rparr>)"
    using assms(2) by (simp add: lost_def)
  then show ?thesis
    using take_one(1) assms(2) by (simp add: take_item_def tid lost_set_id lost_set_thread)
next
  case (send_file k tid item h fp rand frames outs)
  have "lost g (S\<lparr>cl_log := cl_log S @ [(item, frames, outs)]\<rparr>)"
    using assms(2) by (simp add: lost_def)
  then show ?thesis
    using send_file(1) lost_thread [OF assms(2) send_file(2)] by (simp add: lost_set_thread)
next
  case (closed_early k tid item)
  have "lost g (S\<lparr>cl_hups := cl_hups S @ [k]\<rparr>)"
    using assms(2) closed_early(2) by (auto simp: lost_def is_thread_def)
  then show ?thesis
    using closed_early(1) lost_thread [OF assms(2) closed_early(2)] by (simp add: lost_set_thread)
next
  case (closed k tid item)
  have "lost g (S\<lparr>cl_hups := cl_hups S @ [k]\<rparr>)"
    using assms(2) closed(2) by (auto simp: lost_def is_thread_def)
  then show ?thesis
    using closed(1) lost_thread [OF assms(2) closed(2)] by (simp add: lost_set_thread)
next
  case (hup k hups)
  have "cl_threads S ! k \<in> set (cl_threads S)"
    using hup(4) assms(2) by (simp add: lost_def)
  then have "user_id (cl_threads S ! k) = None \<or> user_id (cl_threads S ! k) = Some 1"
    using assms(2) user_sender [of "cl_threads S ! k"] by (cases "user_id (cl_threads S ! k)") (auto simp: lost_def)
  moreover have "lost g (S\<lparr>cl_hups := hups\<rparr>)"
    using assms(2) hup(4) by (simp add: lost_def)
  ultimately show ?thesis
    using hup(1) assms(2) by (auto simp: handle_hup_def lost_set_id) (simp add: lost_def)
next
  case (woken k tid item h)
  have "tid = 1"
    using lost_thread [OF assms(2) woken(2)] by simp
  then show ?thesis
    using woken(1) assms(2) by (simp add: lost_set_id lost_set_thread)
next
  case (stop k tid)
  have "tid = 1"
    using lost_thread [OF assms(2) stop(2)] by simp
  then show ?thesis
    using stop(1) assms(2) by (simp add: lost_set_id lost_set_thread)
next
  case (start k)
  then show ?thesis
    using lost_thread [OF assms(2) start(2)] by simp
next
  case (connect k tid item)
  then show ?thesis
    using lost_thread [OF assms(2) connect(2)] assms(2) by (simp add: lost_set_thread)
next
  case all_done
  then show ?thesis
    using assms(2,3) by (simp add: lost_def list_all_length)
qed (use assms(2) in \<open>auto simp: lost_def is_thread_def\<close>)

lemma lost_run: "client_run slept single files S T \<Longrightarrow> lost g S \<Longrightarrow> g \<noteq> 2 \<Longrightarrow> lost g T"
  by (induction rule: client_run.induct) (auto intro: lost_kept)

lemma race_hangs:
  assumes "g \<noteq> 2"
  shows "\<exists>S. client_run False single files (client_start items [g, h]) S \<and> (\<forall>T. client_run False single files S T \<longrightarrow> cl_fate T \<noteq> Done)"
proof -
  let ?S0 = "client_start items [g, h]"
  let ?S1 = "?S0\<lparr>cl_param_id := 0, cl_threads := [Created], cl_main := Creating 1\<rparr>"
  let ?S2 = "?S1\<lparr>cl_param_id := 1, cl_threads := [Created, Created], cl_main := Creating 2\<rparr>"
  let ?S3 = "set_thread 0 (Taking 1) ?S2"
  let ?S4 = "set_thread 1 (Taking 1) ?S3"
  have s1: "client_step False single files ?S0 ?S1"
    using client_step.create [of ?S0 0 False single files] by (simp add: client_start_def)
  have s2: "client_step False single files ?S1 ?S2"
    using client_step.create [of ?S1 1 False single files] by (simp add: client_start_def numeral_2_eq_2)
  have s3: "client_step False single files ?S2 ?S3"
    using client_step.start [of ?S2 0 False single files] by (simp add: client_start_def is_thread_def)
  have s4: "client_step False single files ?S3 ?S4"
    using client_step.start [of ?S3 1 False single files] by (simp add: client_start_def is_thread_def set_thread_def)
  have run: "client_run False single files ?S0 ?S4"
    by (rule client_run.step [OF client_run.step [OF client_run.step [OF client_run.step [OF client_run.stay s1] s2] s3] s4])
  have "lost g ?S4"
    by (simp add: lost_def client_start_def set_thread_def)
  then have "lost g T" if "client_run False single files ?S4 T" for T
    using lost_run [OF that _ assms] by blast
  with run show ?thesis
    by (auto simp: lost_def)
qed

section \<open>A second report\<close>

text \<open>A report that is handled when its thread has closed the connection follows a dead pointer.\<close>

lemma second_report_crashes:
  assumes "files (fi_path item) = Some fp"
  shows "\<exists>S. client_run True False files (client_start [item] [v]) S \<and> cl_fate S = Crashed"
proof -
  obtain frames where f: "upload (\<lambda>_ _. 0) fp = Some frames"
    using upload_frames by blast
  let ?start = "client_start [item] [v]" and ?step = "client_step True False files"
  let ?at = "\<lambda>ids pos t hups log. ?start\<lparr>cl_main := Polling, cl_ids := ids, cl_pos := pos, cl_threads := [t], cl_hups := hups, cl_log := log\<rparr>"
  let ?log = "[(item, frames, frames)]"
  have "?step ?start (?start\<lparr>cl_threads := [Created], cl_main := Creating 1\<rparr>)"
    using client_step.create [of ?start 0 True False files] by (simp add: client_start_def)
  moreover have "?step (?start\<lparr>cl_threads := [Created], cl_main := Creating 1\<rparr>) (?at [v] 0 Created [] [])"
    using client_step.created [of "?start\<lparr>cl_threads := [Created], cl_main := Creating 1\<rparr>" 1 True False files]
    by (simp add: client_start_def)
  moreover have "?step (?at [v] 0 Created [] []) (?at [v] 0 (Taking 0) [] [])"
    using client_step.start [of "?at [v] 0 Created [] []" 0 True False files] by (simp add: step_simps client_start_def)
  moreover have "?step (?at [v] 0 (Taking 0) [] []) (?at [-1] 1 (Sending 0 item) [] [])"
    using client_step.take_one [of "?at [v] 0 (Taking 0) [] []" 0 0 True False files] by (simp add: step_simps client_start_def)
  moreover have "?step (?at [-1] 1 (Sending 0 item) [] []) (?at [-1] 1 (Connected 0 item False) [] [])"
    using client_step.connect [of "?at [-1] 1 (Sending 0 item) [] []" 0 0 item True False files] by (simp add: step_simps client_start_def)
  moreover have "?step (?at [-1] 1 (Connected 0 item False) [] []) (?at [-1] 1 (Waiting 0 item False) [] ?log)"
    using client_step.send_file [of "?at [-1] 1 (Connected 0 item False) [] []" 0 0 item False files fp _ frames frames True False] assms f
    by (simp add: step_simps client_start_def taken_whole)
  moreover have "?step (?at [-1] 1 (Waiting 0 item False) [] ?log) (?at [-1] 1 (Waiting 0 item True) [0] ?log)"
    using client_step.closed [of "?at [-1] 1 (Waiting 0 item False) [] ?log" 0 0 item True False files] by (simp add: step_simps client_start_def)
  moreover have "?step (?at [-1] 1 (Waiting 0 item True) [0] ?log) (?at [1] 1 (Waiting 0 item True) [] ?log)"
    using client_step.hup [of "?at [-1] 1 (Waiting 0 item True) [0] ?log" 0 "[]" True False files] by (simp add: step_simps client_start_def)
  moreover have "?step (?at [1] 1 (Waiting 0 item True) [] ?log) (?at [1] 1 (Waiting 0 item True) [0] ?log)"
    using client_step.closed_again [of False "?at [1] 1 (Waiting 0 item True) [] ?log" 0 _ 0 item True files]
    by (simp add: step_simps client_start_def)
  moreover have "?step (?at [1] 1 (Waiting 0 item True) [0] ?log) (?at [-1] 1 (Taking 0) [0] ?log)"
    using client_step.woken [of "?at [1] 1 (Waiting 0 item True) [0] ?log" 0 0 item True True False files] by (simp add: step_simps client_start_def)
  moreover have "?step (?at [-1] 1 (Taking 0) [0] ?log) ((?at [-1] 1 (Taking 0) [0] ?log)\<lparr>cl_fate := Crashed\<rparr>)"
    using client_step.hup [of "?at [-1] 1 (Taking 0) [0] ?log" 0 "[]" True False files] by (simp add: step_simps client_start_def)
  ultimately have "client_run True False files ?start ((?at [-1] 1 (Taking 0) [0] ?log)\<lparr>cl_fate := Crashed\<rparr>)"
    by (meson client_run.stay client_run.step)
  then show ?thesis
    by (intro exI [of _ "(?at [-1] 1 (Taking 0) [0] ?log)\<lparr>cl_fate := Crashed\<rparr>"] conjI) simp_all
qed

section \<open>Reading the list\<close>

definition item_ok :: "FileItem \<Rightarrow> bool" where
  "item_ok item \<longleftrightarrow> fi_id item \<noteq> [] \<and> length (fi_id item) < 256 \<and> fi_path item \<noteq> [] \<and> length (fi_path item) < 1024 \<and>
     (\<forall>c \<in> set (fi_id item) \<union> set (fi_path item). c \<noteq> NUL \<and> \<not> isspace c)"

definition item_line :: "FileItem \<Rightarrow> bytes" where
  "item_line item = fi_id item @ 9 # fi_path item @ [LF]"

lemma scan_item_line:
  assumes "item_ok item"
  shows "scan_item (item_line item) = Some item"
proof -
  have sp: "isspace 9" "isspace LF" "\<not> isspace NUL"
    by (simp_all add: isspace_def)
  have "NUL \<notin> set (item_line item)"
    using assms by (auto simp: item_line_def item_ok_def)
  then have c: "c_str (item_line item) = item_line item"
    by (simp add: c_str_id)
  have "dropWhile isspace (item_line item) = item_line item"
    using assms by (cases "fi_id item") (auto simp: item_line_def item_ok_def)
  moreover have "dropWhile (\<lambda>c. \<not> isspace c) (item_line item) = 9 # fi_path item @ [LF]"
    using assms sp(1) by (simp add: item_line_def item_ok_def dropWhile_append2)
  moreover have "token (9 # fi_path item @ [LF]) = token (fi_path item @ [LF])"
    using sp(1) by (simp add: token_def)
  moreover have "token (fi_path item @ [LF]) = fi_path item" "token (item_line item) = fi_id item"
    using assms sp unfolding item_line_def by (auto simp: item_ok_def intro!: token_word)
  ultimately show ?thesis
    using assms by (simp add: scan_item_def c item_ok_def)
qed

lemma next_item_line:
  assumes "item_ok item"
  shows "next_line (item_line item @ rest) = item_line item"
proof -
  have "isspace LF"
    by (simp add: isspace_def)
  then have "LF \<notin> set (fi_id item @ 9 # fi_path item)"
    using assms by (auto simp: item_ok_def)
  then have "takeWhile (\<lambda>c. c \<noteq> LF) ((fi_id item @ 9 # fi_path item) @ LF # rest) = fi_id item @ 9 # fi_path item"
    by (subst takeWhile_append2) auto
  moreover have "item_line item @ rest = (fi_id item @ 9 # fi_path item) @ LF # rest"
    by (simp add: item_line_def)
  ultimately have "takeWhile (\<lambda>c. c \<noteq> LF) (item_line item @ rest) = fi_id item @ 9 # fi_path item"
    by (simp only:)
  then show ?thesis
    using assms by (auto simp: next_line_def item_line_def LINE_MAX_def item_ok_def)
qed

lemma load_list_reads: "list_all item_ok items \<Longrightarrow> load_list (Some (concat (map item_line items))) = Some items"
proof (induction items)
  case Nil
  show ?case
    by (simp add: load_list_def fgets_all.simps)
next
  case (Cons item items)
  have "item_line item \<noteq> []"
    by (simp add: item_line_def)
  then have "fgets_all (concat (map item_line (item # items))) = item_line item # fgets_all (concat (map item_line items))"
    using Cons.prems by (subst fgets_all.simps) (simp add: next_item_line)
  then show ?case
    using Cons by (simp add: load_list_def scan_item_line)
qed

section \<open>Properties\<close>

text \<open>
  C4: however the threads of the client program and the failures of the system interleave, the files
  it has sent are files of its list, each once, and for each the frames of the contents of the file
  were given to \<open>send\<close>, in order, of which each call took a part or all.  When moreover each
  thread reads its number in the pause after its creation, each connection is reported as closed
  once, and the array \<open>thread_ids\<close>, which is not initialised, does not hold the mark of an ended thread by
  chance, then the end by the test of the main thread means that all files were sent (an end by a
  failure of \<open>epoll_wait\<close> does not), and the program follows no dead pointer and no null one unless
  a file cannot be opened.
\<close>

theorem client_program_sends:
  assumes "client_run slept single files (client_start items garbage) S"
  shows "mset (map fst (cl_log S)) \<subseteq># mset items \<and>
    (\<forall>(item, frames, outs) \<in> set (cl_log S). \<exists>fp rand. files (fi_path item) = Some fp \<and> upload rand fp = Some frames \<and>
      list_all2 taken_of outs frames) \<and>
    (slept \<and> single \<and> garbage \<noteq> [] \<and> 2 \<notin> set garbage \<longrightarrow>
      (cl_fate S = Done \<longrightarrow> mset (map fst (cl_log S)) = mset items) \<and>
      (cl_fate S = Crashed \<longrightarrow> (\<exists>item \<in> set items. files (fi_path item) = None)))"
proof -
  have files: "files_ok files S \<and> cl_list S = items"
    using run_files_ok [OF assms] by (simp add: client_start_def files_ok_def)
  then have "mset (map fst (cl_log S)) + mset (concat (map in_flight (cl_threads S))) = mset (take (cl_pos S) items)"
    by (simp add: files_ok_def del: mset_map)
  then have "mset (map fst (cl_log S)) \<subseteq># mset (take (cl_pos S) items)"
    by (metis mset_subset_eq_add_left)
  moreover have "mset (take (cl_pos S) items) \<subseteq># mset items"
    by (metis append_take_drop_id mset_append mset_subset_eq_add_left)
  ultimately have "mset (map fst (cl_log S)) \<subseteq># mset items"
    by (rule subset_mset.order_trans)
  moreover have "fate_ok files S \<and> cl_list S = items \<and> cl_threadNum S = length garbage" if "slept" "single" "2 \<notin> set garbage"
  proof -
    have "client_run True True files (client_start items garbage) S"
      using assms that by simp
    from run_client_inv [OF this start_client_inv [OF that(3)]] show ?thesis
      by (simp add: client_inv_def client_start_def)
  qed
  moreover have "\<forall>(item, frames, outs) \<in> set (cl_log S). \<exists>fp rand. files (fi_path item) = Some fp \<and> upload rand fp = Some frames \<and>
      list_all2 taken_of outs frames"
    using files by (auto simp: files_ok_def sent_ok_def)
  ultimately show ?thesis
    unfolding fate_ok_def by auto
qed

theorem client_program_sends_witness:
  "\<exists>S. client_run True True (\<lambda>_. Some [104]) (client_start [\<lparr>fi_id = [97], fi_path = [98]\<rparr>] [0]) S \<and> cl_fate S = Done \<and>
    mset (map fst (cl_log S)) = mset [\<lparr>fi_id = [97], fi_path = [98]\<rparr>]"
proof -
  let ?items = "[\<lparr>fi_id = [97], fi_path = [98]\<rparr>]" and ?files = "\<lambda>_. Some [104] :: bytes option"
  have "client_inv ?files (client_start ?items [0])" "cl_fate (client_start ?items [0]) = Running"
    by (simp add: start_client_inv) (simp add: client_start_def)
  then obtain S where S: "client_run True True ?files (client_start ?items [0]) S" "cl_fate S = Done"
    using done_reachable [of ?files "client_start ?items [0]"] by auto
  have g: "[0 :: int] \<noteq> []" "2 \<notin> set [0 :: int]"
    by simp_all
  have "mset (map fst (cl_log S)) = mset ?items"
    using client_program_sends [OF S(1)] g S(2) by blast
  with S show ?thesis
    by blast
qed

text \<open>
  C5: no wake-up is lost, also when the server closes a connection before its thread waits: under
  the conditions of C4 (the pause suffices, one report for each connection, no stray mark in
  \<open>thread_ids\<close>), and if the files of the list can be opened, some order of steps leads from every
  state in which the program runs to the end by the test of the main thread, with every file sent.
  Without the pause it may not (\<open>race_hangs\<close>), with a second report it may crash
  (\<open>second_report_crashes\<close>).
\<close>

theorem client_program_can_end:
  assumes "client_run True True files (client_start items garbage) S" "cl_fate S = Running" "2 \<notin> set garbage"
    and "\<forall>item \<in> set items. files (fi_path item) \<noteq> None"
  shows "\<exists>T. client_run True True files S T \<and> cl_fate T = Done \<and> (garbage \<noteq> [] \<longrightarrow> mset (map fst (cl_log T)) = mset items)"
proof -
  have inv: "client_inv files S" "cl_list S = items" "cl_threadNum S = length garbage"
    using run_client_inv [OF assms(1) start_client_inv [OF assms(3)]] by (simp_all add: client_start_def)
  then obtain T where T: "client_run True True files S T" "cl_fate T = Done"
    using done_reachable [OF inv(1) assms(2)] assms(4) by auto
  then show ?thesis
    using run_client_inv [OF T(1) inv(1)] inv(2,3) by (auto simp: client_inv_def fate_ok_def)
qed

theorem client_program_can_end_witness:
  "\<exists>T. client_run True True (\<lambda>_. Some []) (client_start [\<lparr>fi_id = [97], fi_path = [98]\<rparr>] [0, 7]) T \<and> cl_fate T = Done"
  using client_program_can_end [OF client_run.stay, where items = "[\<lparr>fi_id = [97], fi_path = [98]\<rparr>]" and garbage = "[0, 7]"
    and files = "\<lambda>_. Some []"]
  by (auto simp: client_start_def)

end
