(* ===== verification/Channel.thy ===== *)
theory Channel
  imports Connection
begin

text \<open>
  The channel of a descriptor and the poller it is registered with (\<^verbatim>\<open>src/src/channel.h\<close>,
  \<^verbatim>\<open>src/src/cur-epoll.cc\<close>), and the loops that read and write the descriptor of the wake-up
  (\<^verbatim>\<open>src/src/event-loop.cc\<close>).
\<close>

section \<open>Events\<close>

type_synonym events = u32

definition EPOLLIN :: events where "EPOLLIN = 0x1"
definition EPOLLPRI :: events where "EPOLLPRI = 0x2"
definition EPOLLOUT :: events where "EPOLLOUT = 0x4"
definition EPOLLERR :: events where "EPOLLERR = 0x8"
definition EPOLLHUP :: events where "EPOLLHUP = 0x10"
definition EPOLLRDHUP :: events where "EPOLLRDHUP = 0x2000"
definition EPOLLET :: events where "EPOLLET = 0x80000000"

definition DEFAULT_EVENT :: events where "DEFAULT_EVENT = EPOLLIN"

lemmas epoll_bits = EPOLLIN_def EPOLLPRI_def EPOLLOUT_def EPOLLERR_def EPOLLHUP_def EPOLLRDHUP_def EPOLLET_def
  DEFAULT_EVENT_def

definition has :: "events \<Rightarrow> events \<Rightarrow> bool" where
  "has ev m \<longleftrightarrow> ev AND m \<noteq> 0"

section \<open>Channels\<close>

record Channel =
  ch_fd :: nat
  ch_events :: events
  ch_revents :: events
  ch_lastEvents :: events

text \<open>The constructor does not set \<open>revents_\<close>; the poller does before it is read.\<close>

definition new_Channel :: "nat \<Rightarrow> events \<Rightarrow> Channel" where
  "new_Channel fd raw = \<lparr>ch_fd = fd, ch_events = 0, ch_revents = raw, ch_lastEvents = 0\<rparr>"

definition EqualAndUpdateLastEvents :: "Channel \<Rightarrow> bool \<times> Channel" where
  "EqualAndUpdateLastEvents ch = (ch_lastEvents ch = ch_events ch, ch\<lparr>ch_lastEvents := ch_events ch\<rparr>)"

text \<open>
  The callbacks act on the channel and on what they are bound to; an unset \<open>std::function\<close> is \<open>None\<close>.
\<close>

type_synonym 'w callback = "Channel \<times> 'w \<Rightarrow> (Channel \<times> 'w) option"

record 'w handlers =
  readHandler :: "'w callback option"
  writeHandler :: "'w callback option"
  errorHandler :: "'w callback option"
  connHandler :: "'w callback option"

definition call :: "'w callback option \<Rightarrow> 'w callback" where
  "call h cw = (case h of None \<Rightarrow> Some cw | Some f \<Rightarrow> f cw)"

definition setEvents :: "events \<Rightarrow> Channel \<times> 'w \<Rightarrow> Channel \<times> 'w" where
  "setEvents ev cw = ((fst cw)\<lparr>ch_events := ev\<rparr>, snd cw)"

definition handleEvents :: "'w handlers \<Rightarrow> 'w callback" where
  "handleEvents hs cw = (let cw = setEvents 0 cw; revents = ch_revents (fst cw) in
     if has revents EPOLLHUP \<and> \<not> has revents EPOLLIN then Some (setEvents 0 cw)
     else if has revents EPOLLERR then map_option (setEvents 0) (call (errorHandler hs) cw)
     else do {
       cw \<leftarrow> (if has revents (EPOLLIN OR EPOLLPRI OR EPOLLRDHUP) then call (readHandler hs) cw else Some cw);
       cw \<leftarrow> (if has (ch_revents (fst cw)) EPOLLOUT then call (writeHandler hs) cw else Some cw);
       call (connHandler hs) cw })"

section \<open>The poller\<close>

text \<open>
  \<open>fd2chan\<close> keeps the channels by descriptor, as pointers; \<open>interest\<close> is the set the kernel keeps,
  and \<open>ctl_fails\<close> tells which of the coming \<open>epoll_ctl\<close> calls fail for a reason of their own.
\<close>

record 'p Epoll =
  fd2chan :: "nat \<Rightarrow> 'p option"
  interest :: "nat \<Rightarrow> events option"
  ctl_fails :: "bool list"

definition MAXFDS :: nat where "MAXFDS = 100000"

datatype ctl_op = EPOLL_CTL_ADD | EPOLL_CTL_MOD | EPOLL_CTL_DEL

text \<open>Adding a descriptor the kernel has, or changing one it does not have, is an error.\<close>

definition epoll_ctl :: "ctl_op \<Rightarrow> nat \<Rightarrow> events \<Rightarrow> 'p Epoll \<Rightarrow> bool \<times> 'p Epoll" where
  "epoll_ctl op fd ev ep =
     (let fails = ctl_fails ep \<noteq> [] \<and> hd (ctl_fails ep); ep = ep\<lparr>ctl_fails := tl (ctl_fails ep)\<rparr> in
      if fails \<or> (interest ep fd = None) \<noteq> (op = EPOLL_CTL_ADD) then (False, ep)
      else (True, ep\<lparr>interest := (interest ep)(fd := if op = EPOLL_CTL_DEL then None else Some ev)\<rparr>))"

text \<open>The table has \<open>MAXFDS\<close> places; past them the access is undefined.\<close>

definition epoll_add :: "'p \<Rightarrow> Channel \<Rightarrow> 'p Epoll \<Rightarrow> (Channel \<times> 'p Epoll) option" where
  "epoll_add request ch ep =
     (let fd = ch_fd ch; ev = ch_events ch; ch = snd (EqualAndUpdateLastEvents ch) in
      if MAXFDS \<le> fd then None
      else let ep = ep\<lparr>fd2chan := (fd2chan ep)(fd \<mapsto> request)\<rparr>; (ok, ep) = epoll_ctl EPOLL_CTL_ADD fd ev ep in
        Some (ch, if ok then ep else ep\<lparr>fd2chan := (fd2chan ep)(fd := None)\<rparr>))"

definition epoll_mod :: "Channel \<Rightarrow> 'p Epoll \<Rightarrow> (Channel \<times> 'p Epoll) option" where
  "epoll_mod ch ep =
     (let fd = ch_fd ch; (same, ch) = EqualAndUpdateLastEvents ch in
      if same then Some (ch, ep)
      else let (ok, ep) = epoll_ctl EPOLL_CTL_MOD fd (ch_events ch) ep in
        if ok then Some (ch, ep)
        else if MAXFDS \<le> fd then None
        else Some (ch, ep\<lparr>fd2chan := (fd2chan ep)(fd := None)\<rparr>))"

definition epoll_del :: "Channel \<Rightarrow> 'p Epoll \<Rightarrow> 'p Epoll option" where
  "epoll_del ch ep =
     (let fd = ch_fd ch; ep = snd (epoll_ctl EPOLL_CTL_DEL fd (ch_lastEvents ch) ep) in
      if MAXFDS \<le> fd then None
      else Some (ep\<lparr>fd2chan := (fd2chan ep)(fd := None)\<rparr>))"

section \<open>Reading and writing a number of bytes\<close>

text \<open>
  The outcomes of the coming calls: an error, or what is there to read; a number, and the error
  after a negative one.
\<close>

fun readn :: "(errno + bytes) list \<Rightarrow> nat \<Rightarrow> (int \<times> bytes \<times> (errno + bytes) list) option" where
  "readn rs 0 = Some (0, [], rs)"
| "readn [] (Suc nleft) = None"
| "readn (Inl e # rs) (Suc nleft) =
     (case e of EINTR \<Rightarrow> readn rs (Suc nleft) | EAGAIN \<Rightarrow> Some (0, [], rs) | Other_errno \<Rightarrow> Some (-1, [], rs))"
| "readn (Inr buf # rs) (Suc nleft) =
     (let got = take (Suc nleft) buf in
      if got = [] then Some (0, [], rs)
      else do {
        (readSum, more, rs) \<leftarrow> readn rs (Suc nleft - length got);
        Some (if readSum = -1 then -1 else int (length got) + readSum, got @ more, rs) })"

fun writen :: "(int \<times> errno) list \<Rightarrow> bytes \<Rightarrow> (int \<times> bytes \<times> (int \<times> errno) list) option" where
  "writen ws [] = Some (0, [], ws)"
| "writen [] (b # bs) = None"
| "writen ((nwritten, e) # ws) (b # bs) =
     (if nwritten < 0 then
        (case e of EINTR \<Rightarrow> writen ws (b # bs) | EAGAIN \<Rightarrow> Some (0, [], ws) | Other_errno \<Rightarrow> Some (-1, [], ws))
      else do {
        (writeSum, out, ws) \<leftarrow> writen ws (drop (nat nwritten) (b # bs));
        Some (if writeSum = -1 then -1 else int (length (take (nat nwritten) (b # bs))) + writeSum,
              take (nat nwritten) (b # bs) @ out, ws) })"

end
