(* ===== verification/Event_Loop.thy ===== *)
theory Event_Loop
  imports Channel Connection_Inv
begin

text \<open>
  An event loop with the connections it serves (\<^verbatim>\<open>src/src/event-loop.cc\<close>, and \<open>handleConn\<close>,
  \<open>handleClose\<close> and \<open>newEvent\<close> of \<^verbatim>\<open>src/src/websocket-data.cc\<close>), one iteration at a time.  An object
  of class \<open>WebSocketData\<close> is known by its descriptor, which is its own until the destructor closes it.
\<close>

section \<open>State\<close>

datatype chan = Wakeup | Ws nat

text \<open>
  \<open>el_counter\<close> is the counter of the \<open>eventfd\<close> behind the wake-up channel; \<open>el_pending\<close> are the queued
  functors, each the \<open>newEvent\<close> of a connection; \<open>el_closed\<close> the descriptors closed so far.
\<close>

record EventLoop =
  el_idle :: bool
  el_epoll :: "chan Epoll"
  el_wakeup :: Channel
  el_counter :: nat
  el_pending :: "nat list"
  el_calling :: bool
  el_conns :: "nat \<Rightarrow> (Channel \<times> Session) option"
  el_closed :: "nat list"

definition on_poller :: "(Channel \<times> chan Epoll) option \<Rightarrow> EventLoop \<Rightarrow> (Channel \<times> EventLoop) option" where
  "on_poller r l = map_option (\<lambda>(ch, ep). (ch, l\<lparr>el_epoll := ep\<rparr>)) r"

definition addToPoller :: "chan \<Rightarrow> Channel \<Rightarrow> EventLoop \<Rightarrow> (Channel \<times> EventLoop) option" where
  "addToPoller c ch l = on_poller (epoll_add c ch (el_epoll l)) l"

definition updatePoller :: "Channel \<Rightarrow> EventLoop \<Rightarrow> (Channel \<times> EventLoop) option" where
  "updatePoller ch l = on_poller (epoll_mod ch (el_epoll l)) l"

definition removeFromPoller :: "Channel \<Rightarrow> EventLoop \<Rightarrow> EventLoop option" where
  "removeFromPoller ch l = map_option (\<lambda>ep. l\<lparr>el_epoll := ep\<rparr>) (epoll_del ch (el_epoll l))"

definition new_EventLoop :: "nat \<Rightarrow> events \<Rightarrow> bool list \<Rightarrow> EventLoop option" where
  "new_EventLoop wakeupFd raw fails = do {
     let ch = (new_Channel wakeupFd raw)\<lparr>ch_events := EPOLLIN OR EPOLLET\<rparr>;
     let l = \<lparr>el_idle = True, el_epoll = \<lparr>fd2chan = Map.empty, interest = Map.empty, ctl_fails = fails\<rparr>,
         el_wakeup = ch, el_counter = 0, el_pending = [], el_calling = False, el_conns = Map.empty, el_closed = []\<rparr>;
     (ch, l) \<leftarrow> addToPoller Wakeup ch l;
     Some (l\<lparr>el_wakeup := ch\<rparr>) }"

section \<open>The wake-up\<close>

text \<open>The eight bytes written add one to the counter; the eight bytes read take it all.\<close>

definition wakeup :: "EventLoop \<Rightarrow> EventLoop" where
  "wakeup l = l\<lparr>el_counter := el_counter l + 1\<rparr>"

definition wakeup_handlers :: "EventLoop handlers" where
  "wakeup_handlers = \<lparr>
     readHandler = Some (\<lambda>(ch, l). Some (ch\<lparr>ch_events := EPOLLIN OR EPOLLET\<rparr>, l\<lparr>el_counter := 0\<rparr>)),
     writeHandler = None, errorHandler = None,
     connHandler = Some (\<lambda>(ch, l). updatePoller ch l)\<rparr>"

definition queueInLoop :: "bool \<Rightarrow> nat \<Rightarrow> EventLoop \<Rightarrow> EventLoop" where
  "queueInLoop isInLoopThread p l =
     (let l = l\<lparr>el_pending := el_pending l @ [p]\<rparr> in
      if \<not> isInLoopThread \<or> el_calling l then wakeup l else l)"

section \<open>Connections in the loop\<close>

text \<open>
  \<open>handleClose\<close> takes the last pointers to the object away; it ends with the functor that runs it,
  and its destructor closes the descriptor, which takes it out of the kernel's set.  The code marks
  the loop idle in between, when the descriptor is already off the poller and in no table; the
  accepting thread that sees the mark before the \<open>close\<close> differs from one that sees it after only in
  that the descriptor's number is not yet free, so the two are one step here.
\<close>

definition close_fd :: "nat \<Rightarrow> EventLoop \<Rightarrow> EventLoop" where
  "close_fd fd l = l\<lparr>el_closed := el_closed l @ [fd], el_epoll := (el_epoll l)\<lparr>interest := (interest (el_epoll l))(fd := None)\<rparr>\<rparr>"

definition handleClose :: "nat \<Rightarrow> (Session \<times> EventLoop) callback" where
  "handleClose p = (\<lambda>(ch, s, l). do {
     l \<leftarrow> removeFromPoller ch l;
     Some (ch, s, close_fd (ch_fd ch) (l\<lparr>el_conns := (el_conns l)(p := None), el_idle := True\<rparr>)) })"

definition handleConn :: "nat \<Rightarrow> (Session \<times> EventLoop) callback" where
  "handleConn p = (\<lambda>(ch, s, l).
     if s_state s \<noteq> STATE_ERROR \<and> s_state s \<noteq> STATE_CLOSE then do {
       (ch, l) \<leftarrow> updatePoller (ch\<lparr>ch_events := ch_events ch OR EPOLLIN\<rparr>) l;
       Some (ch, s, l) }
     else handleClose p (ch, s, l))"

definition ws_handlers :: "('d, 'e) surroundings_scheme \<Rightarrow> nat \<Rightarrow> (Session \<times> EventLoop) handlers" where
  "ws_handlers env p = \<lparr>
     readHandler = Some (\<lambda>(ch, s, l). map_option (\<lambda>s. (ch, s, l)) (handleRead env s)),
     writeHandler = None, errorHandler = None, connHandler = Some (handleConn p)\<rparr>"

definition newEvent :: "nat \<Rightarrow> EventLoop \<Rightarrow> EventLoop option" where
  "newEvent p l = do {
     (ch, s) \<leftarrow> el_conns l p;
     (ch, l) \<leftarrow> addToPoller (Ws p) (ch\<lparr>ch_events := DEFAULT_EVENT\<rparr>) l;
     Some (l\<lparr>el_conns := (el_conns l)(p \<mapsto> (ch, s))\<rparr>) }"

section \<open>An iteration\<close>

definition update_chan :: "chan \<Rightarrow> (Channel \<Rightarrow> Channel) \<Rightarrow> EventLoop \<Rightarrow> EventLoop" where
  "update_chan c f l = (case c of
     Wakeup \<Rightarrow> l\<lparr>el_wakeup := f (el_wakeup l)\<rparr>
   | Ws p \<Rightarrow> l\<lparr>el_conns := (el_conns l)(p := map_option (\<lambda>(ch, s). (f ch, s)) (el_conns l p))\<rparr>)"

text \<open>The channels of the reported descriptors; the poller sets what came and clears \<open>events_\<close>.\<close>

fun getEventsRequest :: "(nat \<times> events) list \<Rightarrow> EventLoop \<Rightarrow> (chan list \<times> EventLoop) option" where
  "getEventsRequest [] l = Some ([], l)"
| "getEventsRequest ((fd, ev) # evs) l =
     (if MAXFDS \<le> fd then None
      else case fd2chan (el_epoll l) fd of
        None \<Rightarrow> getEventsRequest evs l
      | Some cur_req \<Rightarrow> do {
          (req_data, l) \<leftarrow> getEventsRequest evs (update_chan cur_req (\<lambda>ch. ch\<lparr>ch_revents := ev, ch_events := 0\<rparr>) l);
          Some (cur_req # req_data, l) })"

text \<open>The callbacks are bound to the object by a plain pointer: a call after its end is undefined.\<close>

definition dispatch :: "('d, 'e) surroundings_scheme \<Rightarrow> chan \<Rightarrow> EventLoop \<Rightarrow> EventLoop option" where
  "dispatch env c l = (case c of
     Wakeup \<Rightarrow> do {
       (ch, l) \<leftarrow> handleEvents wakeup_handlers (el_wakeup l, l);
       Some (l\<lparr>el_wakeup := ch\<rparr>) }
   | Ws p \<Rightarrow> do {
       (ch, s) \<leftarrow> el_conns l p;
       (ch, s, l) \<leftarrow> handleEvents (ws_handlers env p) (ch, s, l);
       Some (if el_conns l p = None then l else l\<lparr>el_conns := (el_conns l)(p \<mapsto> (ch, s))\<rparr>) })"

fun each :: "('a \<Rightarrow> 's \<Rightarrow> 's option) \<Rightarrow> 'a list \<Rightarrow> 's \<Rightarrow> 's option" where
  "each f [] s = Some s"
| "each f (x # xs) s = do { s \<leftarrow> f x s; each f xs s }"

definition swapPending :: "EventLoop \<Rightarrow> nat list \<times> EventLoop" where
  "swapPending l = (el_pending l, l\<lparr>el_pending := [], el_calling := True\<rparr>)"

definition doPendingFunctors :: "EventLoop \<Rightarrow> EventLoop option" where
  "doPendingFunctors l = (case swapPending l of (functors, l) \<Rightarrow> do {
     l \<leftarrow> each newEvent functors l;
     Some (l\<lparr>el_calling := False\<rparr>) })"

definition iteration :: "('d, 'e) surroundings_scheme \<Rightarrow> (nat \<times> events) list \<Rightarrow> EventLoop \<Rightarrow> EventLoop option" where
  "iteration env evs l = do {
     (ret, l) \<leftarrow> getEventsRequest evs l;
     l \<leftarrow> each (dispatch env) ret l;
     doPendingFunctors l }"

end
