(* ===== verification/Event_Loop_Inv.thy ===== *)
theory Event_Loop_Inv
  imports Event_Loop
begin

text \<open>
  What holds of an event loop between any two of its operations: it serves at most one connection,
  none while it is idle, and no callback is run on an object that is gone.
\<close>

section \<open>The poller\<close>

lemma ctl_keeps:
  assumes "epoll_ctl op fd ev ep = (ok, ep')"
  shows "fd2chan ep' = fd2chan ep" "q \<noteq> fd \<Longrightarrow> interest ep' q = interest ep q"
    "ok \<Longrightarrow> interest ep' fd = (if op = EPOLL_CTL_DEL then None else Some ev)" "\<not> ok \<Longrightarrow> interest ep' = interest ep"
    "ctl_fails ep = [] \<Longrightarrow> ctl_fails ep' = [] \<and> (ok \<longleftrightarrow> (interest ep fd = None) = (op = EPOLL_CTL_ADD))"
  using assms by (auto simp: epoll_ctl_def Let_def split: if_splits)

lemma epoll_add_result:
  assumes "ch_fd ch < MAXFDS"
  obtains ep' where "epoll_add c ch ep = Some (ch\<lparr>ch_lastEvents := ch_events ch\<rparr>, ep')"
    "\<And>q. q \<noteq> ch_fd ch \<Longrightarrow> fd2chan ep' q = fd2chan ep q \<and> interest ep' q = interest ep q"
    "fd2chan ep' (ch_fd ch) = Some c \<and> interest ep' (ch_fd ch) = Some (ch_events ch) \<or>
     fd2chan ep' (ch_fd ch) = None \<and> interest ep' (ch_fd ch) = interest ep (ch_fd ch)"
    "ctl_fails ep = [] \<Longrightarrow> interest ep (ch_fd ch) = None \<Longrightarrow>
      ctl_fails ep' = [] \<and> fd2chan ep' (ch_fd ch) = Some c \<and> interest ep' (ch_fd ch) = Some (ch_events ch)"
proof -
  obtain ok ep1 where c: "epoll_ctl EPOLL_CTL_ADD (ch_fd ch) (ch_events ch) (ep\<lparr>fd2chan := (fd2chan ep)(ch_fd ch \<mapsto> c)\<rparr>) = (ok, ep1)"
    by fastforce
  show thesis
    using assms ctl_keeps [OF c]
    by (intro that [of "if ok then ep1 else ep1\<lparr>fd2chan := (fd2chan ep1)(ch_fd ch := None)\<rparr>"])
      (auto simp: epoll_add_def c EqualAndUpdateLastEvents_def)
qed

lemma epoll_mod_same [simp]:
  "ch_lastEvents ch = ch_events ch \<Longrightarrow> epoll_mod ch ep = Some (ch, ep)"
  by (cases ch) (simp add: epoll_mod_def EqualAndUpdateLastEvents_def)

lemma epoll_mod_result:
  assumes "ch_fd ch < MAXFDS"
  obtains ep' where "epoll_mod ch ep = Some (ch\<lparr>ch_lastEvents := ch_events ch\<rparr>, ep')"
    "\<And>q. q \<noteq> ch_fd ch \<Longrightarrow> fd2chan ep' q = fd2chan ep q \<and> interest ep' q = interest ep q"
    "fd2chan ep' (ch_fd ch) \<in> {None, fd2chan ep (ch_fd ch)}" "ch_lastEvents ch = ch_events ch \<Longrightarrow> ep' = ep"
proof (cases "ch_lastEvents ch = ch_events ch")
  case True
  then show thesis
    by (intro that [of ep]) auto
next
  case False
  obtain ok ep1 where c: "epoll_ctl EPOLL_CTL_MOD (ch_fd ch) (ch_events ch) ep = (ok, ep1)"
    by fastforce
  show thesis
    using assms False ctl_keeps [OF c]
    by (intro that [of "if ok then ep1 else ep1\<lparr>fd2chan := (fd2chan ep1)(ch_fd ch := None)\<rparr>"])
      (auto simp: epoll_mod_def c EqualAndUpdateLastEvents_def)
qed

lemma epoll_del_result:
  assumes "ch_fd ch < MAXFDS"
  obtains ep' where "epoll_del ch ep = Some ep'" "fd2chan ep' = (fd2chan ep)(ch_fd ch := None)"
    "\<And>q. q \<noteq> ch_fd ch \<Longrightarrow> interest ep' q = interest ep q"
proof -
  obtain ok ep1 where c: "epoll_ctl EPOLL_CTL_DEL (ch_fd ch) (ch_lastEvents ch) ep = (ok, ep1)"
    by fastforce
  show thesis
    using assms ctl_keeps [OF c]
    by (intro that [of "ep1\<lparr>fd2chan := (fd2chan ep1)(ch_fd ch := None)\<rparr>"]) (auto simp: epoll_del_def c)
qed

section \<open>The invariant\<close>

text \<open>
  \<open>hs\<close> are the channels of this iteration still to be handled, \<open>fs\<close> the functors still to be run.
  The wake-up channel is always armed.  A loop is vacant, or the functor of its connection is still
  to be run and the connection is on no poller, or it serves its connection.
\<close>

definition one_wakeup :: "EventLoop \<Rightarrow> bool" where
  "one_wakeup l \<longleftrightarrow> (\<forall>fd. fd2chan (el_epoll l) fd = Some Wakeup \<longrightarrow> fd = ch_fd (el_wakeup l))"

lemma one_wakeup_less:
  "one_wakeup l \<Longrightarrow> (\<And>fd. fd2chan (el_epoll l') fd = Some Wakeup \<Longrightarrow> fd2chan (el_epoll l) fd = Some Wakeup) \<Longrightarrow>
   ch_fd (el_wakeup l') = ch_fd (el_wakeup l) \<Longrightarrow> one_wakeup l'"
  unfolding one_wakeup_def by metis

definition wakeup_ok :: "chan list \<Rightarrow> EventLoop \<Rightarrow> bool" where
  "wakeup_ok hs l \<longleftrightarrow> one_wakeup l \<and> (let w = el_wakeup l in
     fd2chan (el_epoll l) (ch_fd w) = Some Wakeup \<and> interest (el_epoll l) (ch_fd w) = Some (EPOLLIN OR EPOLLET) \<and>
     ch_lastEvents w = EPOLLIN OR EPOLLET \<and> ch_fd w < MAXFDS \<and> el_conns l (ch_fd w) = None \<and>
     (Wakeup \<in> set hs \<longrightarrow> ch_revents w = EPOLLIN))"

definition ws_within :: "nat set \<Rightarrow> chan list \<Rightarrow> EventLoop \<Rightarrow> bool" where
  "ws_within P hs l \<longleftrightarrow> distinct hs \<and> (\<forall>q. Ws q \<in> set hs \<longrightarrow> q \<in> P) \<and>
     (\<forall>fd q. fd2chan (el_epoll l) fd = Some (Ws q) \<longrightarrow> fd = q \<and> q \<in> P)"

definition vacant :: "chan list \<Rightarrow> nat list \<Rightarrow> EventLoop \<Rightarrow> bool" where
  "vacant hs fs l \<longleftrightarrow> el_conns l = Map.empty \<and> fs @ el_pending l = [] \<and> ws_within {} hs l"

definition owns :: "nat \<Rightarrow> EventLoop \<Rightarrow> bool" where
  "owns p l \<longleftrightarrow> \<not> el_idle l \<and> p < MAXFDS \<and> (\<exists>ch s. el_conns l = [p \<mapsto> (ch, s)] \<and> ch_fd ch = p)"

lemma ownsI:
  "\<not> el_idle l \<Longrightarrow> p < MAXFDS \<Longrightarrow> el_conns l = [p \<mapsto> (ch, s)] \<Longrightarrow> ch_fd ch = p \<Longrightarrow> owns p l"
  unfolding owns_def by blast

definition queued :: "chan list \<Rightarrow> nat list \<Rightarrow> nat \<Rightarrow> EventLoop \<Rightarrow> bool" where
  "queued hs fs p l \<longleftrightarrow> owns p l \<and> fs @ el_pending l = [p] \<and> ws_within {} hs l \<and> interest (el_epoll l) p = None"

definition serving :: "chan list \<Rightarrow> nat list \<Rightarrow> nat \<Rightarrow> EventLoop \<Rightarrow> bool" where
  "serving hs fs p l \<longleftrightarrow> owns p l \<and> fs @ el_pending l = [] \<and> ws_within {p} hs l"

text \<open>The kernel knows the wake-up descriptor and those of connections only.\<close>

definition known :: "EventLoop \<Rightarrow> bool" where
  "known l \<longleftrightarrow> (\<forall>q. interest (el_epoll l) q \<noteq> None \<longrightarrow> q = ch_fd (el_wakeup l) \<or> q \<in> dom (el_conns l))"

lemma known_step:
  assumes "known l" "\<And>q. q \<noteq> p \<Longrightarrow> interest (el_epoll l') q = interest (el_epoll l) q"
    and "ch_fd (el_wakeup l') = ch_fd (el_wakeup l)" "dom (el_conns l) \<subseteq> insert p (dom (el_conns l'))"
    and "interest (el_epoll l') p = None \<or> p \<in> dom (el_conns l')"
  shows "known l'"
  unfolding known_def
proof (intro allI impI)
  fix q
  assume q: "interest (el_epoll l') q \<noteq> None"
  show "q = ch_fd (el_wakeup l') \<or> q \<in> dom (el_conns l')"
  proof (cases "q = p")
    case False
    then have "q = ch_fd (el_wakeup l) \<or> q \<in> dom (el_conns l)"
      using assms(1,2) q by (simp add: known_def)
    then show ?thesis
      using assms(3,4) False by auto
  qed (use assms(5) q in auto)
qed

definition loop_ok :: "chan list \<Rightarrow> nat list \<Rightarrow> EventLoop \<Rightarrow> bool" where
  "loop_ok hs fs l \<longleftrightarrow> wakeup_ok hs l \<and> known l \<and> (vacant hs fs l \<or> (\<exists>p. queued hs fs p l) \<or> (\<exists>p. serving hs fs p l))"

definition load :: "EventLoop \<Rightarrow> nat" where
  "load l = card (dom (el_conns l))"

lemma owns_dom: "owns p l \<Longrightarrow> dom (el_conns l) = {p} \<and> load l = 1 \<and> \<not> el_idle l"
  by (auto simp: owns_def load_def split: if_splits)

lemma loop_ok_load: "loop_ok hs fs l \<Longrightarrow> load l \<le> 1 \<and> (el_idle l \<longrightarrow> load l = 0 \<and> vacant hs fs l)"
  by (auto simp: loop_ok_def vacant_def queued_def serving_def load_def dest!: owns_dom)

lemma loop_ok_same:
  assumes "fd2chan (el_epoll l') = fd2chan (el_epoll l)" "interest (el_epoll l') = interest (el_epoll l)" "el_wakeup l' = el_wakeup l" "el_pending l' = el_pending l" "el_idle l' = el_idle l"
    "el_conns l' = el_conns l"
  shows "loop_ok hs fs l' = loop_ok hs fs l"
  by (simp add: assms loop_ok_def vacant_def queued_def serving_def wakeup_ok_def one_wakeup_def known_def ws_within_def owns_def)

text \<open>A new loop satisfies it.\<close>

lemma new_EventLoop_ok:
  assumes "w < MAXFDS"
  obtains l where "new_EventLoop w raw [] = Some l" "loop_ok [] [] l" "vacant [] [] l" "el_idle l"
    "ctl_fails (el_epoll l) = []" "el_counter l = 0" "el_closed l = []" "ch_fd (el_wakeup l) = w"
proof -
  let ?ch = "(new_Channel w raw)\<lparr>ch_events := EPOLLIN OR EPOLLET\<rparr>"
  let ?l = "\<lparr>el_idle = True, el_epoll = \<lparr>fd2chan = [w \<mapsto> Wakeup], interest = [w \<mapsto> EPOLLIN OR EPOLLET], ctl_fails = []\<rparr>,
    el_wakeup = ?ch\<lparr>ch_lastEvents := EPOLLIN OR EPOLLET\<rparr>, el_counter = 0, el_pending = [], el_calling = False,
    el_conns = Map.empty, el_closed = []\<rparr>"
  have "new_EventLoop w raw [] = Some ?l"
    using assms by (simp add: new_EventLoop_def Let_def addToPoller_def on_poller_def epoll_add_def
        EqualAndUpdateLastEvents_def new_Channel_def epoll_ctl_def)
  moreover have "wakeup_ok [] ?l" "vacant [] [] ?l" "known ?l"
    using assms by (simp_all add: known_def wakeup_ok_def one_wakeup_def new_Channel_def vacant_def ws_within_def)
  ultimately show thesis
    by (intro that [of ?l]) (simp_all add: loop_ok_def new_Channel_def)
qed

section \<open>What the operations keep\<close>

lemma newEvent_ok:
  assumes w: "wakeup_ok hs l" and q: "queued hs (p # fs) p' l"
  obtains l' where "newEvent p l = Some l'" "wakeup_ok hs l'" "serving hs fs p l'" "p' = p" "dom (el_conns l') = dom (el_conns l)"
    "known l \<Longrightarrow> known l'" "ch_fd (el_wakeup l') = ch_fd (el_wakeup l)"
    "\<And>ch s. el_conns l' p = Some (ch, s) \<Longrightarrow> ch_lastEvents ch = DEFAULT_EVENT"
    "ctl_fails (el_epoll l) = [] \<Longrightarrow> ctl_fails (el_epoll l') = [] \<and> fd2chan (el_epoll l') p = Some (Ws p) \<and>
       interest (el_epoll l') p = Some DEFAULT_EVENT"
proof -
  have p: "p' = p" "fs = []" "el_pending l = []" "\<not> el_idle l" "p < MAXFDS" "interest (el_epoll l) p = None" "ws_within {} hs l"
    using q by (auto simp: queued_def owns_def)
  obtain ch s where c: "el_conns l = [p \<mapsto> (ch, s)]" "ch_fd ch = p"
    using q p(1) by (auto simp: queued_def owns_def)
  let ?ch = "ch\<lparr>ch_events := DEFAULT_EVENT\<rparr>"
  obtain ep where ep: "epoll_add (Ws p) ?ch (el_epoll l) = Some (?ch\<lparr>ch_lastEvents := ch_events ?ch\<rparr>, ep)"
    "\<And>q. q \<noteq> p \<Longrightarrow> fd2chan ep q = fd2chan (el_epoll l) q \<and> interest ep q = interest (el_epoll l) q"
    "fd2chan ep p = Some (Ws p) \<and> interest ep p = Some DEFAULT_EVENT \<or> fd2chan ep p = None \<and> interest ep p = None"
    "ctl_fails (el_epoll l) = [] \<Longrightarrow> ctl_fails ep = [] \<and> fd2chan ep p = Some (Ws p) \<and> interest ep p = Some DEFAULT_EVENT"
    by (rule epoll_add_result [of ?ch "Ws p" "el_epoll l"]) (use p c in \<open>auto\<close>)
  let ?l = "l\<lparr>el_epoll := ep, el_conns := [p \<mapsto> (?ch\<lparr>ch_lastEvents := ch_events ?ch\<rparr>, s)]\<rparr>"
  have "newEvent p l = Some ?l"
    using c ep(1) by (simp add: newEvent_def addToPoller_def on_poller_def)
  moreover have "ws_within {p} hs ?l"
    unfolding ws_within_def
  proof (intro conjI allI impI)
    fix fd q
    assume f: "fd2chan (el_epoll ?l) fd = Some (Ws q)"
    show "fd = q" "q \<in> {p}"
      using f ep(2,3) p(7) by (cases "fd = p"; auto simp: ws_within_def)+
  qed (use p(7) in \<open>auto simp: ws_within_def\<close>)
  moreover have "wakeup_ok hs ?l"
  proof -
  have "ch_fd (el_wakeup l) \<noteq> p"
    using w c by (auto simp: wakeup_ok_def Let_def)
  moreover have "fd2chan (el_epoll l) fd = Some Wakeup" if "fd2chan ep fd = Some Wakeup" for fd
    using that ep(2,3) by (cases "fd = p") auto
  ultimately show ?thesis
    using w ep(2) c one_wakeup_less [of l ?l] by (auto simp: wakeup_ok_def Let_def)
  qed
  moreover have "known ?l" if "known l"
    by (rule known_step [OF that, of p]) (use c ep(2) in \<open>auto split: if_splits\<close>)
  ultimately show thesis
    using c ep(4) p by (intro that [of ?l]) (auto simp: serving_def owns_def)
qed

text \<open>The wake-up channel is drained and armed again.\<close>

lemma has_EPOLLIN [simp]:
  "has EPOLLIN EPOLLHUP = False" "has EPOLLIN EPOLLERR = False" "has EPOLLIN EPOLLOUT = False"
  "has EPOLLIN (EPOLLIN OR EPOLLPRI OR EPOLLRDHUP)" "has EPOLLIN EPOLLIN"
  by (simp_all add: has_def epoll_bits)

lemma dispatch_wakeup:
  assumes "wakeup_ok (Wakeup # hs) l"
  shows "dispatch env Wakeup l = Some (l\<lparr>el_counter := 0, el_wakeup := (el_wakeup l)\<lparr>ch_events := EPOLLIN OR EPOLLET\<rparr>\<rparr>)"
  using assms
  by (simp add: dispatch_def wakeup_ok_def Let_def handleEvents_def setEvents_def call_def wakeup_handlers_def
      updatePoller_def on_poller_def)

text \<open>A connection is on the poller, waiting for input.\<close>

definition armed :: "nat \<Rightarrow> EventLoop \<Rightarrow> bool" where
  "armed p l \<longleftrightarrow> fd2chan (el_epoll l) p = Some (Ws p) \<and> interest (el_epoll l) p = Some EPOLLIN \<and>
     (\<forall>ch s. el_conns l p = Some (ch, s) \<longrightarrow> ch_lastEvents ch = EPOLLIN)"

lemma handleConn_result:
  assumes fd: "ch_fd ch = p" "p < MAXFDS"
  obtains (kept) ep where "handleConn p (ch, s, l) = Some (ch\<lparr>ch_events := ch_events ch OR EPOLLIN, ch_lastEvents := ch_events ch OR EPOLLIN\<rparr>, s, l\<lparr>el_epoll := ep\<rparr>)"
    "s_state s \<notin> {STATE_ERROR, STATE_CLOSE}"
    "\<And>q. q \<noteq> p \<Longrightarrow> fd2chan ep q = fd2chan (el_epoll l) q \<and> interest ep q = interest (el_epoll l) q"
    "fd2chan ep p \<in> {None, fd2chan (el_epoll l) p}" "ch_lastEvents ch = ch_events ch OR EPOLLIN \<Longrightarrow> ep = el_epoll l"
  | (gone) ep where "handleConn p (ch, s, l) = Some (ch, s, l\<lparr>el_epoll := ep, el_conns := (el_conns l)(p := None), el_idle := True,
       el_closed := el_closed l @ [p]\<rparr>)" "s_state s \<in> {STATE_ERROR, STATE_CLOSE}"
    "fd2chan ep = (fd2chan (el_epoll l))(p := None)" "interest ep p = None"
    "\<And>q. q \<noteq> p \<Longrightarrow> interest ep q = interest (el_epoll l) q"
proof (cases "s_state s \<in> {STATE_ERROR, STATE_CLOSE}")
  case False
  let ?ch = "ch\<lparr>ch_events := ch_events ch OR EPOLLIN\<rparr>"
  have "ch_fd ?ch < MAXFDS"
    using fd by simp
  then obtain ep where "epoll_mod ?ch (el_epoll l) = Some (?ch\<lparr>ch_lastEvents := ch_events ?ch\<rparr>, ep)"
    "\<And>q. q \<noteq> ch_fd ?ch \<Longrightarrow> fd2chan ep q = fd2chan (el_epoll l) q \<and> interest ep q = interest (el_epoll l) q"
    "fd2chan ep (ch_fd ?ch) \<in> {None, fd2chan (el_epoll l) (ch_fd ?ch)}" "ch_lastEvents ?ch = ch_events ?ch \<Longrightarrow> ep = el_epoll l"
    by (rule epoll_mod_result) blast
  then show thesis
    using fd False by (intro kept [of ep]) (simp_all add: handleConn_def updatePoller_def on_poller_def)
next
  case True
  have "ch_fd ch < MAXFDS"
    using fd by simp
  then obtain ep where "epoll_del ch (el_epoll l) = Some ep" "fd2chan ep = (fd2chan (el_epoll l))(ch_fd ch := None)"
    "\<And>q. q \<noteq> ch_fd ch \<Longrightarrow> interest ep q = interest (el_epoll l) q"
    by (rule epoll_del_result) blast
  then show thesis
    using fd True by (intro gone [of "ep\<lparr>interest := (interest ep)(p := None)\<rparr>"])
      (auto simp: handleConn_def handleClose_def removeFromPoller_def close_fd_def)
qed

text \<open>What an event does to a connection and its loop.\<close>

lemma handleEvents_ws:
  "handleEvents (ws_handlers env p) (ch, s, l) =
     (let ev = ch_revents ch in
      if has ev EPOLLHUP \<and> \<not> has ev EPOLLIN \<or> has ev EPOLLERR then Some (ch\<lparr>ch_events := 0\<rparr>, s, l)
      else do {
        s \<leftarrow> (if has ev (EPOLLIN OR EPOLLPRI OR EPOLLRDHUP) then handleRead env s else Some s);
        handleConn p (ch\<lparr>ch_events := 0\<rparr>, s, l) })"
  by (cases "handleRead env s") (auto simp: handleEvents_def Let_def setEvents_def call_def ws_handlers_def)

lemma dispatch_ws:
  assumes w: "wakeup_ok (Ws p # hs) l" and sv: "serving (Ws p # hs) fs p' l"
    and h: "dispatch env (Ws p) l \<noteq> None"
  obtains l' where "dispatch env (Ws p) l = Some l'" "wakeup_ok hs l'" "el_pending l' = el_pending l"
    "el_counter l' = el_counter l" "known l \<Longrightarrow> known l'" "p' = p" "ch_fd (el_wakeup l') = ch_fd (el_wakeup l)"
    "serving hs fs p l' \<and> (armed p l \<longrightarrow> armed p l') \<or>
     vacant hs fs l' \<and> el_idle l' \<and> el_closed l' = el_closed l @ [p] \<and> interest (el_epoll l') p = None"
proof -
  note result = that
  have p: "p' = p" "\<not> el_idle l" "p < MAXFDS" "fs = []" "el_pending l = []"
      "ws_within {p} (Ws p # hs) l" "Ws p \<notin> set hs"
    using sv by (auto simp: serving_def owns_def ws_within_def)
  obtain ch s where c: "el_conns l = [p \<mapsto> (ch, s)]" "ch_fd ch = p"
    using sv p(1) by (auto simp: serving_def owns_def)
  have wp: "ch_fd (el_wakeup l) \<noteq> p"
    using w c by (auto simp: wakeup_ok_def Let_def)
  have hs: "distinct hs" "\<And>q. Ws q \<notin> set hs"
    using p(6,7) by (auto simp: ws_within_def)
  have fds: "fd = q \<and> q = p" if "fd2chan (el_epoll l) fd = Some (Ws q)" for fd q
    using that p(6) by (auto simp: ws_within_def)
  have stays: thesis
    if d: "dispatch env (Ws p) l = Some (l\<lparr>el_epoll := ep, el_conns := [p \<mapsto> (ch', s')]\<rparr>)" "ch_fd ch' = p"
      and e: "\<And>q. q \<noteq> p \<Longrightarrow> fd2chan ep q = fd2chan (el_epoll l) q \<and> interest ep q = interest (el_epoll l) q"
        "fd2chan ep p \<in> {None, fd2chan (el_epoll l) p}"
      and a: "ch_lastEvents ch = EPOLLIN \<Longrightarrow> ep = el_epoll l \<and> ch_lastEvents ch' = EPOLLIN" for ep ch' s'
  proof -
    have "fd = q \<and> q = p" if "fd2chan ep fd = Some (Ws q)" for fd q
      using that fds e by (cases "fd = p") auto
    then have "serving hs fs p (l\<lparr>el_epoll := ep, el_conns := [p \<mapsto> (ch', s')]\<rparr>)"
      using p hs d(2) by (auto simp: serving_def owns_def ws_within_def)
    moreover have "wakeup_ok hs (l\<lparr>el_epoll := ep, el_conns := [p \<mapsto> (ch', s')]\<rparr>)"
    proof -
      have "fd2chan (el_epoll l) fd = Some Wakeup" if "fd2chan ep fd = Some Wakeup" for fd
        using that e by (cases "fd = p") auto
      then show ?thesis
        using w wp e(1) [OF wp] one_wakeup_less [of l "l\<lparr>el_epoll := ep, el_conns := [p \<mapsto> (ch', s')]\<rparr>"]
        by (simp add: wakeup_ok_def Let_def)
    qed
    moreover have "armed p (l\<lparr>el_epoll := ep, el_conns := [p \<mapsto> (ch', s')]\<rparr>)" if "armed p l"
      using that a c by (simp add: armed_def)
    moreover have "known (l\<lparr>el_epoll := ep, el_conns := [p \<mapsto> (ch', s')]\<rparr>)" if "known l"
      by (rule known_step [OF that, of p]) (use c e(1) in \<open>auto split: if_splits\<close>)
    ultimately show thesis
      using p(1) by (intro result [OF d(1)]) simp_all
  qed
  have fd: "ch_fd (ch\<lparr>ch_events := 0\<rparr>) = p"
    using c by simp
  show thesis
  proof (cases "has (ch_revents ch) EPOLLHUP \<and> \<not> has (ch_revents ch) EPOLLIN \<or> has (ch_revents ch) EPOLLERR")
    case True
    then have "dispatch env (Ws p) l = Some (l\<lparr>el_epoll := el_epoll l, el_conns := [p \<mapsto> (ch\<lparr>ch_events := 0\<rparr>, s)]\<rparr>)"
      using c by (simp add: dispatch_def handleEvents_ws Let_def)
    then show thesis
      by (rule stays) (use c in auto)
  next
    case False
    then have "handleEvents (ws_handlers env p) (ch, s, l) = do {
        s \<leftarrow> (if has (ch_revents ch) (EPOLLIN OR EPOLLPRI OR EPOLLRDHUP) then handleRead env s else Some s);
        handleConn p (ch\<lparr>ch_events := 0\<rparr>, s, l) }"
      by (auto simp: handleEvents_ws Let_def)
    moreover from this h c obtain s1 where
      "(if has (ch_revents ch) (EPOLLIN OR EPOLLPRI OR EPOLLRDHUP) then handleRead env s else Some s) = Some s1"
      by (cases "if has (ch_revents ch) (EPOLLIN OR EPOLLPRI OR EPOLLRDHUP) then handleRead env s else Some s")
        (auto simp: dispatch_def)
    ultimately have he: "handleEvents (ws_handlers env p) (ch, s, l) = handleConn p (ch\<lparr>ch_events := 0\<rparr>, s1, l)"
      by simp
    from fd p(3) show thesis
    proof (cases rule: handleConn_result [of _ _ s1 l])
      case (kept ep)
      then have d: "dispatch env (Ws p) l = Some (l\<lparr>el_epoll := ep,
          el_conns := [p \<mapsto> (ch\<lparr>ch_events := EPOLLIN, ch_lastEvents := EPOLLIN\<rparr>, s1)]\<rparr>)"
        using c by (simp add: dispatch_def he)
      show thesis
        by (rule stays [OF d]) (use kept c in auto)
    next
      case (gone ep)
      then have d: "dispatch env (Ws p) l = Some (l\<lparr>el_epoll := ep, el_conns := (el_conns l)(p := None), el_idle := True,
          el_closed := el_closed l @ [p]\<rparr>)"
        using c by (simp add: dispatch_def he)
      let ?l = "l\<lparr>el_epoll := ep, el_conns := (el_conns l)(p := None), el_idle := True, el_closed := el_closed l @ [p]\<rparr>"
      have "fd2chan ep fd \<noteq> Some (Ws q)" for fd q
        using fds [of fd q] gone(3) by auto
      then have "vacant hs fs ?l"
        using c p hs by (simp add: vacant_def ws_within_def)
      moreover have "wakeup_ok hs ?l"
        using w wp gone(3) gone(5) [OF wp] by (simp add: wakeup_ok_def Let_def one_wakeup_def)
      moreover have "known ?l" if "known l"
        by (rule known_step [OF that, of p]) (use c gone(4,5) in auto)
      ultimately show thesis
        using p(1) gone(4) by (intro result [OF d]) simp_all
    qed
  qed
qed

text \<open>A connection handed over to an idle loop.\<close>

definition assign :: "nat \<times> Channel \<times> Session \<Rightarrow> EventLoop \<Rightarrow> EventLoop" where
  "assign c l = (case c of (p, ch, s) \<Rightarrow>
     l\<lparr>el_idle := False, el_conns := (el_conns l)(p \<mapsto> (ch, s)), el_pending := el_pending l @ [p]\<rparr>)"

text \<open>A descriptor the loop can take: its own, in the range of the table, and not known to the kernel.\<close>

definition new_fd :: "nat \<Rightarrow> EventLoop \<Rightarrow> bool" where
  "new_fd p l \<longleftrightarrow> p < MAXFDS \<and> interest (el_epoll l) p = None \<and> p \<noteq> ch_fd (el_wakeup l)"

lemma assign_ok:
  assumes "wakeup_ok hs l" "vacant hs fs l" "new_fd p l" "ch_fd ch = p"
  shows "wakeup_ok hs (assign (p, ch, s) l)" "queued hs fs p (assign (p, ch, s) l)"
proof -
  show "wakeup_ok hs (assign (p, ch, s) l)"
    using assms by (simp add: wakeup_ok_def one_wakeup_def Let_def assign_def new_fd_def)
  have "owns p (assign (p, ch, s) l)"
    using assms by (auto simp: owns_def assign_def vacant_def new_fd_def)
  then show "queued hs fs p (assign (p, ch, s) l)"
    using assms by (simp add: queued_def assign_def vacant_def new_fd_def ws_within_def)
qed

text \<open>
  What \<open>epoll_wait\<close> may report: descriptors of the set, each once, and the wake-up when its counter is
  not zero, as readable.
\<close>

definition reports :: "(nat \<times> events) list \<Rightarrow> EventLoop \<Rightarrow> bool" where
  "reports evs l \<longleftrightarrow> distinct (map fst evs) \<and>
     (\<forall>(fd, ev)\<in>set evs. fd < MAXFDS \<and> interest (el_epoll l) fd \<noteq> None \<and>
        (fd = ch_fd (el_wakeup l) \<longrightarrow> ev = EPOLLIN \<and> 0 < el_counter l))"

text \<open>Setting the events of channels changes nothing else.\<close>

definition static :: "Channel \<times> Session \<Rightarrow> nat \<times> events \<times> Session" where
  "static c = (ch_fd (fst c), ch_lastEvents (fst c), snd c)"

definition touched :: "EventLoop \<Rightarrow> EventLoop \<Rightarrow> bool" where
  "touched l l' \<longleftrightarrow> el_epoll l' = el_epoll l \<and> el_pending l' = el_pending l \<and> el_idle l' = el_idle l \<and>
     el_counter l' = el_counter l \<and> el_calling l' = el_calling l \<and> el_closed l' = el_closed l \<and>
     (\<forall>p. map_option static (el_conns l' p) = map_option static (el_conns l p)) \<and>
     ch_fd (el_wakeup l') = ch_fd (el_wakeup l) \<and> ch_lastEvents (el_wakeup l') = ch_lastEvents (el_wakeup l)"

lemma touched_refl [simp]: "touched l l"
  by (simp add: touched_def)

lemma touched_trans: "touched l l1 \<Longrightarrow> touched l1 l2 \<Longrightarrow> touched l l2"
  by (simp add: touched_def)

lemma touched_update: "touched l (update_chan c (\<lambda>ch. ch\<lparr>ch_revents := ev, ch_events := 0\<rparr>) l)"
proof (cases c)
  case (Ws p)
  then show ?thesis
    by (cases "el_conns l p") (auto simp: touched_def update_chan_def static_def)
qed (simp add: touched_def update_chan_def)

lemma touched_static: "touched l l' \<Longrightarrow> map_option static (el_conns l' p) = map_option static (el_conns l p)"
  by (simp add: touched_def)

lemma touched_conn:
  assumes "touched l l'" "el_conns l' p = Some (ch', s)"
  obtains ch where "el_conns l p = Some (ch, s)" "ch_fd ch' = ch_fd ch" "ch_lastEvents ch' = ch_lastEvents ch"
  using touched_static [OF assms(1), of p] assms(2) by (cases "el_conns l p") (auto simp: static_def)

lemma touched_none: "touched l l' \<Longrightarrow> el_conns l' p = None \<longleftrightarrow> el_conns l p = None"
  using touched_static [of l l' p] by (auto simp: map_option_is_None)

lemma touched_one:
  assumes "touched l l'" "el_conns l = [p \<mapsto> (ch, s)]"
  obtains ch' where "el_conns l' = [p \<mapsto> (ch', s)]" "ch_fd ch' = ch_fd ch" "ch_lastEvents ch' = ch_lastEvents ch"
proof -
  obtain ch' s' where c: "el_conns l' p = Some (ch', s')"
    using touched_none [OF assms(1), of p] assms(2) by auto
  have "ch_fd ch' = ch_fd ch" "ch_lastEvents ch' = ch_lastEvents ch" "s' = s"
    by (rule touched_conn [OF assms(1) c], use assms(2) in simp)+
  moreover have "el_conns l' = [p \<mapsto> (ch', s')]"
    using c touched_none [OF assms(1)] assms(2) by (auto simp: fun_eq_iff)
  ultimately show thesis
    using that by simp
qed

definition requests :: "(nat \<times> events) list \<Rightarrow> EventLoop \<Rightarrow> chan list" where
  "requests evs l = List.map_filter (\<lambda>(fd, ev). fd2chan (el_epoll l) fd) evs"

lemma getEvents_result:
  "\<forall>(fd, ev)\<in>set evs. fd < MAXFDS \<and> (fd2chan (el_epoll l) fd = Some Wakeup \<longrightarrow> ev = EPOLLIN) \<Longrightarrow>
   \<exists>l'. getEventsRequest evs l = Some (requests evs l, l') \<and> touched l l' \<and>
     (Wakeup \<in> set (requests evs l) \<or> ch_revents (el_wakeup l) = EPOLLIN \<longrightarrow> ch_revents (el_wakeup l') = EPOLLIN)"
proof (induction evs l rule: getEventsRequest.induct)
  case (1 l)
  then show ?case
    by (auto simp: requests_def map_filter_simps)
next
  case (2 fd ev evs l)
  show ?case
  proof (cases "fd2chan (el_epoll l) fd")
    case None
    then show ?thesis
      using 2 by (auto simp: requests_def map_filter_simps)
  next
    case (Some c)
    let ?l = "update_chan c (\<lambda>ch. ch\<lparr>ch_revents := ev, ch_events := 0\<rparr>) l"
    have e: "el_epoll ?l = el_epoll l"
      using touched_update [of l c ev] by (simp add: touched_def)
    have "\<not> MAXFDS \<le> fd"
      using "2.prems" by auto
    from "2.IH"(2) [OF this Some] obtain l' where l': "getEventsRequest evs ?l = Some (requests evs ?l, l')" "touched ?l l'"
        "Wakeup \<in> set (requests evs ?l) \<or> ch_revents (el_wakeup ?l) = EPOLLIN \<longrightarrow> ch_revents (el_wakeup l') = EPOLLIN"
      using "2.prems" e by auto
    have r: "requests evs ?l = requests evs l" "requests ((fd, ev) # evs) l = c # requests evs l"
      using Some e by (simp_all add: requests_def map_filter_simps)
    have "c = Wakeup \<longrightarrow> ev = EPOLLIN"
      using "2.prems" Some by auto
    then have "c = Wakeup \<or> ch_revents (el_wakeup l) = EPOLLIN \<longrightarrow> ch_revents (el_wakeup ?l) = EPOLLIN"
      by (cases c) (auto simp: update_chan_def)
    then show ?thesis
      using l' r Some touched_trans [OF touched_update l'(2)] \<open>\<not> MAXFDS \<le> fd\<close> by auto
  qed
qed

lemma requests_set: "c \<in> set (requests evs l) \<longleftrightarrow> (\<exists>fd\<in>fst ` set evs. fd2chan (el_epoll l) fd = Some c)"
  by (force simp: requests_def map_filter_def)

lemma requests_distinct:
  assumes "one_wakeup l" "ws_within P [] l"
  shows "distinct (map fst evs) \<Longrightarrow> distinct (requests evs l)"
proof (induction evs)
  case (Cons e evs)
  have "fd = fd'" if "fd2chan (el_epoll l) fd = Some c" "fd2chan (el_epoll l) fd' = Some c" for fd fd' c
    using that assms by (cases c; simp add: one_wakeup_def ws_within_def; metis)
  note inj = this
  show ?case
  proof (cases "fd2chan (el_epoll l) (fst e)")
    case None
    then show ?thesis
      using Cons by (cases e) (simp add: requests_def map_filter_simps)
  next
    case (Some c)
    have "fst e \<notin> fst ` set evs"
      using Cons.prems by simp
    then have "c \<notin> set (requests evs l)"
      unfolding requests_set using inj [OF Some] by metis
    with Some show ?thesis
      using Cons by (cases e) (simp add: requests_def map_filter_simps)
  qed
qed (simp add: requests_def map_filter_simps)

lemma poll_ok:
  assumes w: "wakeup_ok [] l" and r: "reports evs l"
  obtains l' where "getEventsRequest evs l = Some (requests evs l, l')" "touched l l'" "wakeup_ok (requests evs l) l'"
    "Wakeup \<in> set (requests evs l) \<longleftrightarrow> ch_fd (el_wakeup l) \<in> fst ` set evs"
proof -
  have fds: "fd2chan (el_epoll l) (ch_fd (el_wakeup l)) = Some Wakeup" "one_wakeup l"
    using w by (simp_all add: wakeup_ok_def Let_def)
  have "\<forall>(fd, ev)\<in>set evs. fd < MAXFDS \<and> (fd2chan (el_epoll l) fd = Some Wakeup \<longrightarrow> ev = EPOLLIN)"
    using r fds(2) unfolding reports_def one_wakeup_def by fastforce
  from getEvents_result [OF this] obtain l' where l': "getEventsRequest evs l = Some (requests evs l, l')" "touched l l'"
      "Wakeup \<in> set (requests evs l) \<longrightarrow> ch_revents (el_wakeup l') = EPOLLIN"
    by blast
  have t: "el_epoll l' = el_epoll l" "ch_fd (el_wakeup l') = ch_fd (el_wakeup l)"
      "ch_lastEvents (el_wakeup l') = ch_lastEvents (el_wakeup l)"
    using l'(2) by (simp_all add: touched_def)
  have "one_wakeup l'"
    using fds(2) by (rule one_wakeup_less) (simp_all add: t)
  then have "wakeup_ok (requests evs l) l'"
    using w l'(3) touched_none [OF l'(2)] by (simp add: wakeup_ok_def Let_def t)
  moreover have "Wakeup \<in> set (requests evs l) \<longleftrightarrow> ch_fd (el_wakeup l) \<in> fst ` set evs"
  proof -
    have "fd2chan (el_epoll l) fd = Some Wakeup \<longleftrightarrow> fd = ch_fd (el_wakeup l)" for fd
      using fds unfolding one_wakeup_def by metis
    then show ?thesis
      by (simp add: requests_set)
  qed
  ultimately show thesis
    using that l' by blast
qed

lemma touched_ws_within: "touched l l' \<Longrightarrow> ws_within P hs l' = ws_within P hs l"
  by (simp add: ws_within_def touched_def)

lemma touched_owns: "touched l l' \<Longrightarrow> owns p l \<Longrightarrow> owns p l'"
proof -
  assume t: "touched l l'" and o: "owns p l"
  then obtain ch s where c: "el_conns l = [p \<mapsto> (ch, s)]" "ch_fd ch = p"
    by (auto simp: owns_def)
  obtain ch' where "el_conns l' = [p \<mapsto> (ch', s)]" "ch_fd ch' = ch_fd ch"
    by (rule touched_one [OF t c(1)])
  then show "owns p l'"
    using o t c(2) by (intro ownsI [of _ _ ch' s]) (simp_all add: owns_def touched_def)
qed

lemma requests_within:
  assumes "one_wakeup l" "ws_within P [] l" "distinct (map fst evs)"
  shows "ws_within P (requests evs l) l"
  using assms(2) requests_distinct [OF assms] by (simp add: ws_within_def requests_set) blast

lemma poll_keeps:
  assumes "one_wakeup l" "distinct (map fst evs)" "touched l l'"
  shows "vacant [] fs l \<Longrightarrow> vacant (requests evs l) fs l'" "queued [] fs p l \<Longrightarrow> queued (requests evs l) fs p l'"
    "serving [] fs p l \<Longrightarrow> serving (requests evs l) fs p l'" "armed p l \<Longrightarrow> armed p l'"
proof -
  have t: "el_pending l' = el_pending l" "el_epoll l' = el_epoll l"
    using assms(3) by (simp_all add: touched_def)
  show "vacant (requests evs l) fs l'" if "vacant [] fs l"
    using that requests_within [OF assms(1) _ assms(2)] touched_none [OF assms(3)]
    by (simp add: vacant_def t touched_ws_within [OF assms(3)] fun_eq_iff)
  show "queued (requests evs l) fs p l'" if "queued [] fs p l"
    using that requests_within [OF assms(1) _ assms(2)] touched_owns [OF assms(3)]
    by (simp add: queued_def t touched_ws_within [OF assms(3)])
  show "serving (requests evs l) fs p l'" if "serving [] fs p l"
    using that requests_within [OF assms(1) _ assms(2)] touched_owns [OF assms(3)]
    by (simp add: serving_def t touched_ws_within [OF assms(3)])
  show "armed p l'" if "armed p l"
    unfolding armed_def
  proof (intro conjI allI impI)
    fix ch' s
    assume "el_conns l' p = Some (ch', s)"
    then show "ch_lastEvents ch' = EPOLLIN"
      by (rule touched_conn [OF assms(3)]) (use that in \<open>simp add: armed_def\<close>)
  qed (use that in \<open>simp_all add: armed_def t\<close>)
qed

section \<open>Steps of a loop\<close>

lemma touched_known: "touched l l' \<Longrightarrow> known l \<Longrightarrow> known l'"
  using touched_none [of l l'] by (force simp: known_def touched_def)

lemma poll_step:
  assumes "loop_ok [] fs l" "reports evs l"
  obtains l' where "getEventsRequest evs l = Some (requests evs l, l')" "loop_ok (requests evs l) fs l'" "touched l l'"
proof -
  have w: "wakeup_ok [] l" "one_wakeup l" "distinct (map fst evs)"
    using assms by (simp_all add: loop_ok_def wakeup_ok_def reports_def)
  from poll_ok [OF w(1) assms(2)] obtain l' where l': "getEventsRequest evs l = Some (requests evs l, l')"
      "touched l l'" "wakeup_ok (requests evs l) l'" .
  with assms(1) have "loop_ok (requests evs l) fs l'"
    by (auto simp: loop_ok_def intro: poll_keeps [OF w(2,3) l'(2)] touched_known)
  with l' show thesis
    by (intro that)
qed

lemma dispatch_step:
  assumes ok: "loop_ok (c # hs) fs l"
    and h: "dispatch env c l \<noteq> None"
  obtains l' where "dispatch env c l = Some l'" "loop_ok hs fs l'" "el_pending l' = el_pending l"
    "dom (el_conns l') \<subseteq> dom (el_conns l)" "ch_fd (el_wakeup l') = ch_fd (el_wakeup l)" "el_idle l \<Longrightarrow> el_idle l'"
    "\<And>p. armed p l \<Longrightarrow> armed p l' \<or> el_conns l' p = None"
proof -
  have w: "wakeup_ok (c # hs) l" "known l"
    using ok by (simp_all add: loop_ok_def)
  show thesis
  proof (cases c)
    case Wakeup
    let ?l = "l\<lparr>el_counter := 0, el_wakeup := (el_wakeup l)\<lparr>ch_events := EPOLLIN OR EPOLLET\<rparr>\<rparr>"
    have "ws_within P hs ?l" if "ws_within P (Wakeup # hs) l" for P
      using that by (simp add: ws_within_def)
    moreover have "owns p ?l" if "owns p l" for p
      using that by (simp add: owns_def)
    moreover have "one_wakeup ?l"
      using w(1) by (auto simp: wakeup_ok_def intro: one_wakeup_less)
    then have "wakeup_ok hs ?l"
      using w(1) by (simp add: wakeup_ok_def Let_def)
    moreover have "known ?l"
      using w(2) by (simp add: known_def)
    moreover have "vacant (Wakeup # hs) fs l \<or> (\<exists>p. queued (Wakeup # hs) fs p l) \<or> (\<exists>p. serving (Wakeup # hs) fs p l)"
      using ok Wakeup by (simp add: loop_ok_def)
    ultimately have "loop_ok hs fs ?l"
      unfolding loop_ok_def vacant_def queued_def serving_def by auto
    then show thesis
      using dispatch_wakeup [of hs l env] w Wakeup by (intro that [of ?l]) (auto simp: armed_def)
  next
    case (Ws p)
    then obtain p' where sv: "serving (Ws p # hs) fs p' l"
      using ok by (auto simp: loop_ok_def vacant_def queued_def ws_within_def)
    then have "p' = p"
      by (simp add: serving_def ws_within_def)
    with sv have d: "dom (el_conns l) = {p}"
      using owns_dom [of p l] by (simp add: serving_def)
    show thesis
    proof (rule dispatch_ws [OF w(1) [unfolded Ws] sv])
      show "dispatch env (Ws p) l \<noteq> None"
        using h Ws by simp
    next
      fix l'
      assume l': "dispatch env (Ws p) l = Some l'" "wakeup_ok hs l'" "el_pending l' = el_pending l" "known l \<Longrightarrow> known l'"
        "serving hs fs p l' \<and> (armed p l \<longrightarrow> armed p l') \<or>
         vacant hs fs l' \<and> el_idle l' \<and> el_closed l' = el_closed l @ [p] \<and> interest (el_epoll l') p = None"
        "ch_fd (el_wakeup l') = ch_fd (el_wakeup l)"
      have "armed q l' \<or> el_conns l' q = None" if "armed q l" for q
      proof -
        have "q = p"
          using that sv \<open>p' = p\<close> by (auto simp: armed_def serving_def ws_within_def)
        then show ?thesis
          using that l'(5) by (auto simp: vacant_def)
      qed
      moreover have "dom (el_conns l') \<subseteq> {p}"
        using l'(5) owns_dom [of p l'] by (auto simp: vacant_def serving_def)
      ultimately show thesis
        using l' Ws d w(2) owns_dom [of p' l] sv by (intro that [of l']) (auto simp: loop_ok_def serving_def)
    qed
  qed
qed

lemma functor_step:
  assumes ok: "loop_ok hs (p # fs) l"
  obtains l' where "newEvent p l = Some l'" "loop_ok hs fs l'" "dom (el_conns l') = dom (el_conns l)"
    "ch_fd (el_wakeup l') = ch_fd (el_wakeup l)" "\<not> el_idle l" "fs = []" "el_pending l' = []" "el_pending l = []"
    "ctl_fails (el_epoll l) = [] \<Longrightarrow> armed p l'"
proof -
  have w: "wakeup_ok hs l" "known l" and q: "queued hs (p # fs) p l"
    using ok by (auto simp: loop_ok_def vacant_def queued_def serving_def)
  show thesis
  proof (rule newEvent_ok [OF w(1) q])
    fix l'
    assume l': "newEvent p l = Some l'" "wakeup_ok hs l'" "serving hs fs p l'" "dom (el_conns l') = dom (el_conns l)"
      "known l \<Longrightarrow> known l'" "ch_fd (el_wakeup l') = ch_fd (el_wakeup l)"
      "ctl_fails (el_epoll l) = [] \<Longrightarrow> ctl_fails (el_epoll l') = [] \<and> fd2chan (el_epoll l') p = Some (Ws p) \<and>
       interest (el_epoll l') p = Some DEFAULT_EVENT"
      "\<And>ch s. el_conns l' p = Some (ch, s) \<Longrightarrow> ch_lastEvents ch = DEFAULT_EVENT"
    have "loop_ok hs fs l'"
      using l'(2,3,5) w(2) by (auto simp: loop_ok_def)
    moreover have "armed p l'" if "ctl_fails (el_epoll l) = []"
      using l'(7) [OF that] l'(8) by (simp add: armed_def DEFAULT_EVENT_def)
    moreover have "\<not> el_idle l" "fs = []" "el_pending l' = []" "el_pending l = []"
      using q l'(3) by (auto simp: queued_def owns_def serving_def)
    ultimately show thesis
      using l'(1,4,6) by (intro that [of l']) simp_all
  qed
qed

lemma swap_step:
  assumes "loop_ok [] [] l" "swapPending l = (fs, l')"
  shows "loop_ok [] fs l'" "fs = el_pending l" "el_conns l' = el_conns l" "el_wakeup l' = el_wakeup l"
    "el_idle l' = el_idle l" "el_pending l' = []" "el_epoll l' = el_epoll l"
proof -
  have l': "fs = el_pending l" "l' = l\<lparr>el_pending := [], el_calling := True\<rparr>"
    using assms(2) by (simp_all add: swapPending_def)
  have "wakeup_ok [] l' = wakeup_ok [] l" "known l' = known l" "owns p l' = owns p l" "ws_within P [] l' = ws_within P [] l" for p P
    by (simp_all add: l' wakeup_ok_def one_wakeup_def known_def owns_def ws_within_def)
  then show "loop_ok [] fs l'"
    using assms(1) by (auto simp: loop_ok_def vacant_def queued_def serving_def l')
qed (use assms(2) in \<open>auto simp: swapPending_def\<close>)

text \<open>Only the handler of the session can be undefined.\<close>

lemma dispatch_defined:
  assumes ok: "loop_ok (c # hs) fs l"
    and h: "\<And>p ch s. c = Ws p \<Longrightarrow> el_conns l p = Some (ch, s) \<Longrightarrow> handleRead env s \<noteq> None"
  shows "dispatch env c l \<noteq> None"
proof (cases c)
  case Wakeup
  then show ?thesis
    using ok dispatch_wakeup [of hs l env] by (simp add: loop_ok_def)
next
  case (Ws p)
  then obtain ch s where c: "el_conns l p = Some (ch, s)" "ch_fd ch = p" "p < MAXFDS"
    using ok by (force simp: loop_ok_def vacant_def queued_def serving_def ws_within_def owns_def)
  have hc: "handleConn p (ch\<lparr>ch_events := 0\<rparr>, s', l) \<noteq> None" for s'
    by (rule handleConn_result [of "ch\<lparr>ch_events := 0\<rparr>" p s' l]) (use c in simp_all)
  obtain s1 where "handleRead env s = Some s1"
    using h [OF Ws c(1)] by blast
  then show ?thesis
    using c(1) Ws hc [of s] hc [of s1] by (auto simp: dispatch_def handleEvents_ws Let_def split: option.splits)
qed

end
