(* ===== verification/Server.thy ===== *)
theory Server
  imports Event_Loop_Inv
begin

text \<open>
  The server: the accepting thread (\<^verbatim>\<open>src/src/server.cc\<close>, \<^verbatim>\<open>src/src/event-loop-thread-pool.cc\<close>)
  and the threads of the pool, each with its loop, as steps that interleave.  The \<open>epoll_ctl\<close> calls
  of the loops may fail; those of the accepting thread, for its one channel, and that of a loop's start
  for its wake-up channel are taken to succeed.
\<close>

section \<open>State\<close>

text \<open>
  Where a pool thread is in its loop: in \<open>epoll_wait\<close>, with channels still to handle, or with
  functors still to run.
\<close>

datatype loop_phase = Polling | Handling "chan list" | Functors "nat list"

text \<open>
  Where the accepting thread is: in \<open>epoll_wait\<close>, before \<open>accept\<close>, looking for an idle loop with a
  descriptor in hand, with the loop found, between the push of a functor and the wake-up, and before
  \<open>handThisConn\<close>.
\<close>

datatype main_phase = Main_polling | Accepting | Scanning nat nat | Taking nat nat | Waking nat | Rearming

record Server =
  sv_threads :: "(loop_phase \<times> EventLoop) list"
  sv_main :: main_phase
  sv_accept :: Channel
  sv_epoll :: "unit Epoll"
  sv_backlog :: nat
  sv_edge :: bool

abbreviation loop_of :: "Server \<Rightarrow> nat \<Rightarrow> EventLoop" where
  "loop_of S k \<equiv> snd (sv_threads S ! k)"

abbreviation phase_of :: "Server \<Rightarrow> nat \<Rightarrow> loop_phase" where
  "phase_of S k \<equiv> fst (sv_threads S ! k)"

section \<open>Start\<close>

text \<open>\<open>wakeups\<close> are the descriptors of the wake-up channels, one per thread.\<close>

definition pool_start :: "nat list \<Rightarrow> (loop_phase \<times> EventLoop) list option" where
  "pool_start wakeups = (if wakeups = [] then None
     else those (map (\<lambda>w. map_option (Pair Polling) (new_EventLoop w 0 [])) wakeups))"

definition server_start :: "nat list \<Rightarrow> nat \<Rightarrow> Server option" where
  "server_start wakeups listenFd = do {
     threads \<leftarrow> pool_start wakeups;
     let ch = (new_Channel listenFd 0)\<lparr>ch_events := EPOLLIN OR EPOLLET\<rparr>;
     (ch, ep) \<leftarrow> epoll_add () ch \<lparr>fd2chan = Map.empty, interest = Map.empty, ctl_fails = []\<rparr>;
     Some \<lparr>sv_threads = threads, sv_main = Main_polling, sv_accept = ch, sv_epoll = ep, sv_backlog = 0, sv_edge = False\<rparr> }"

section \<open>The accepting thread\<close>

text \<open>
  One look of \<open>getNextLoop\<close>: the loop found, or the next value of \<open>i\<close>, an \<open>int\<close> that must not pass
  its range.
\<close>

definition next_look :: "nat \<Rightarrow> (nat \<Rightarrow> bool) \<Rightarrow> nat \<Rightarrow> (nat + nat) option" where
  "next_look numThreads idle i =
     (if idle (i mod numThreads) then Some (Inr (i mod numThreads))
      else if int i + 1 > INT_MAX then None else Some (Inl (i + 1)))"

text \<open>What follows for the loop that was found, up to the push of the functor.\<close>

datatype handed = Closed_it | Returned | Pushed

definition push :: "nat \<Rightarrow> EventLoop \<Rightarrow> EventLoop" where
  "push p l = l\<lparr>el_pending := el_pending l @ [p]\<rparr>"

definition hand_over :: "bool \<Rightarrow> events \<Rightarrow> Session \<Rightarrow> nat \<Rightarrow> EventLoop \<Rightarrow> handed \<times> EventLoop" where
  "hand_over nonblocking raw s accept_fd l = (let l = l\<lparr>el_idle := False\<rparr> in
     if MAXFDS \<le> accept_fd then (Closed_it, l)
     else if \<not> nonblocking then (Returned, l)
     else (Pushed, push accept_fd (l\<lparr>el_conns := (el_conns l)(accept_fd \<mapsto> (new_Channel accept_fd raw, s))\<rparr>)))"

lemma queueInLoop_push: "queueInLoop False p l = wakeup (push p l)"
  by (simp add: queueInLoop_def push_def)

text \<open>A descriptor \<open>accept\<close> can return: one that is not open.\<close>

definition fresh_fd :: "nat \<Rightarrow> Server \<Rightarrow> bool" where
  "fresh_fd fd S \<longleftrightarrow> 0 < fd \<and> fd \<noteq> ch_fd (sv_accept S) \<and>
     (\<forall>(ph, l)\<in>set (sv_threads S). fd \<noteq> ch_fd (el_wakeup l) \<and> el_conns l fd = None)"

definition on_thread :: "nat \<Rightarrow> loop_phase \<times> EventLoop \<Rightarrow> Server \<Rightarrow> Server" where
  "on_thread k t S = S\<lparr>sv_threads := (sv_threads S)[k := t]\<rparr>"

text \<open>What the system changes of a session: what arrives, and how the coming calls turn out.\<close>

definition system_change :: "Session \<Rightarrow> Session \<Rightarrow> bool" where
  "system_change s s' \<longleftrightarrow> (\<exists>xs fs cl rs ws ops. s' = s\<lparr>s_sock := (arrive xs (s_sock s))\<lparr>faults := fs\<rparr>, s_closed := cl,
     s_reads := rs, s_writes := ws, s_opens := ops\<rparr>)"

section \<open>Steps\<close>

text \<open>A thread of the pool: one event of \<open>epoll_wait\<close>, one callback or one functor at a time.\<close>

inductive loop_step :: "('d, 'e) surroundings_scheme \<Rightarrow> loop_phase \<times> EventLoop \<Rightarrow> loop_phase \<times> EventLoop \<Rightarrow> bool" for env where
  poll: "reports evs l \<Longrightarrow> getEventsRequest evs l = Some (hs, l') \<Longrightarrow> hs \<noteq> [] \<Longrightarrow>
    loop_step env (Polling, l) (Handling hs, l')"
| handle: "dispatch env c l = Some l' \<Longrightarrow> loop_step env (Handling (c # hs), l) (Handling hs, l')"
| swap: "swapPending l = (fs, l') \<Longrightarrow> loop_step env (Handling [], l) (Functors fs, l')"
| run_functor: "newEvent p l = Some l' \<Longrightarrow> loop_step env (Functors (p # fs), l) (Functors fs, l')"
| again: "loop_step env (Functors [], l) (Polling, l\<lparr>el_calling := False\<rparr>)"

inductive_simps loop_step_simps: "loop_step env (Polling, l) t" "loop_step env (Handling hs, l) t" "loop_step env (Functors fs, l) t"

inductive server_step :: "('d, 'e) surroundings_scheme \<Rightarrow> Server \<Rightarrow> Server \<Rightarrow> bool" for env where
  client: "server_step env S (S\<lparr>sv_backlog := sv_backlog S + 1, sv_edge := True\<rparr>)"
| main_poll: "sv_main S = Main_polling \<Longrightarrow> sv_edge S \<Longrightarrow> interest (sv_epoll S) (ch_fd (sv_accept S)) = Some ev \<Longrightarrow>
    has ev EPOLLIN \<Longrightarrow>
    server_step env S (S\<lparr>sv_main := Accepting, sv_edge := False,
      sv_accept := (sv_accept S)\<lparr>ch_revents := EPOLLIN, ch_events := 0\<rparr>\<rparr>)"
| accept_conn: "sv_main S = Accepting \<Longrightarrow> sv_backlog S = Suc b \<Longrightarrow> fresh_fd fd S \<Longrightarrow>
    server_step env S (S\<lparr>sv_main := Scanning fd 0, sv_backlog := b\<rparr>)"
| accept_end: "sv_main S = Accepting \<Longrightarrow>
    server_step env S (S\<lparr>sv_main := Rearming, sv_accept := (sv_accept S)\<lparr>ch_events := EPOLLIN OR EPOLLET\<rparr>\<rparr>)"
| scan: "sv_main S = Scanning fd i \<Longrightarrow>
    next_look (length (sv_threads S)) (\<lambda>k. el_idle (loop_of S k)) i = Some (Inl j) \<Longrightarrow>
    server_step env S (S\<lparr>sv_main := Scanning fd j\<rparr>)"
| found: "sv_main S = Scanning fd i \<Longrightarrow>
    next_look (length (sv_threads S)) (\<lambda>k. el_idle (loop_of S k)) i = Some (Inr k) \<Longrightarrow>
    server_step env S (S\<lparr>sv_main := Taking fd k\<rparr>)"
| take_conn: "sv_main S = Taking fd k \<Longrightarrow> hand_over nonblocking raw s fd (loop_of S k) = (r, l') \<Longrightarrow>
    s = new_Session uuid stale1 stale2 raw_bytes sock \<Longrightarrow>
    server_step env S (on_thread k (phase_of S k, l')
      (S\<lparr>sv_main := (case r of Closed_it \<Rightarrow> Accepting | Returned \<Rightarrow> Rearming | Pushed \<Rightarrow> Waking k)\<rparr>))"
| wake: "sv_main S = Waking k \<Longrightarrow>
    server_step env S (on_thread k (phase_of S k, wakeup (loop_of S k)) (S\<lparr>sv_main := Accepting\<rparr>))"
| rearm: "sv_main S = Rearming \<Longrightarrow> epoll_mod (sv_accept S) (sv_epoll S) = Some (ch, ep) \<Longrightarrow>
    server_step env S (S\<lparr>sv_main := Main_polling, sv_accept := ch, sv_epoll := ep\<rparr>)"
| thread: "k < length (sv_threads S) \<Longrightarrow> loop_step env (sv_threads S ! k) t \<Longrightarrow> server_step env S (on_thread k t S)"
| input: "k < length (sv_threads S) \<Longrightarrow> sv_threads S ! k = (ph, l) \<Longrightarrow> el_conns l p = Some (ch, s) \<Longrightarrow>
    system_change s s' \<Longrightarrow> server_step env S (on_thread k (ph, l\<lparr>el_conns := (el_conns l)(p \<mapsto> (ch, s'))\<rparr>) S)"
| kernel: "k < length (sv_threads S) \<Longrightarrow> sv_threads S ! k = (ph, l) \<Longrightarrow>
    server_step env S (on_thread k (ph, l\<lparr>el_epoll := (el_epoll l)\<lparr>ctl_fails := fails\<rparr>\<rparr>) S)"

definition server_steps :: "('d, 'e) surroundings_scheme \<Rightarrow> Server \<Rightarrow> Server \<Rightarrow> bool" where
  "server_steps env = (server_step env)\<^sup>*\<^sup>*"

end
