(* ===== verification/Server_Inv.thy ===== *)
theory Server_Inv
  imports Server
begin

text \<open>
  What holds of the server however the steps of its threads interleave: a loop serves at most one
  connection, an idle loop none, no two loops share one, and no functor waits in a loop that nothing
  will wake.
\<close>

section \<open>The pool as an interface\<close>

text \<open>
  What the accepting thread relies on: a worker that reports itself free has nothing to do, one that
  is handed a job is not free, and no worker has more than one.
\<close>

locale worker =
  fixes sound :: "'w \<Rightarrow> bool" and free :: "'w \<Rightarrow> bool" and jobs :: "'w \<Rightarrow> nat"
    and fits :: "'j \<Rightarrow> 'w \<Rightarrow> bool" and give :: "'j \<Rightarrow> 'w \<Rightarrow> 'w"
  assumes one_job: "sound w \<Longrightarrow> jobs w \<le> 1"
    and free_no_job: "sound w \<Longrightarrow> free w \<Longrightarrow> jobs w = 0"
    and give_sound: "sound w \<Longrightarrow> free w \<Longrightarrow> fits j w \<Longrightarrow> sound (give j w)"
    and give_job: "sound w \<Longrightarrow> free w \<Longrightarrow> fits j w \<Longrightarrow> jobs (give j w) = 1"
begin

definition total :: "'w list \<Rightarrow> nat" where
  "total ws = sum_list (map jobs ws)"

lemma total_bound: "list_all sound ws \<Longrightarrow> total ws \<le> length ws"
proof (induction ws)
  case (Cons w ws)
  then show ?case
    using one_job [of w] by (simp add: total_def)
qed (simp add: total_def)

lemma free_capacity:
  assumes "list_all sound ws" "w \<in> set ws" "free w"
  shows "total ws < length ws"
  using assms
proof (induction ws)
  case (Cons v ws)
  show ?case
  proof (cases "v = w")
    case True
    then show ?thesis
      using Cons.prems total_bound [of ws] free_no_job [of w] by (simp add: total_def)
  next
    case False
    then show ?thesis
      using Cons one_job [of v] by (simp add: total_def)
  qed
qed simp

lemma give_total:
  assumes "list_all sound ws" "k < length ws" "free (ws ! k)" "fits j (ws ! k)"
  shows "list_all sound (ws[k := give j (ws ! k)])" "total (ws[k := give j (ws ! k)]) = Suc (total ws)"
proof -
  have k: "sound (ws ! k)"
    using assms by (simp add: list_all_length)
  show "list_all sound (ws[k := give j (ws ! k)])"
    using assms give_sound [OF k] by (simp add: list_all_length nth_list_update)
  have "total (ws[k := give j (ws ! k)]) + jobs (ws ! k) = total ws + jobs (give j (ws ! k))"
    using assms(2) elem_le_sum_list [of k "map jobs ws"] by (simp add: total_def map_update sum_list_update)
  then show "total (ws[k := give j (ws ! k)]) = Suc (total ws)"
    using free_no_job [OF k assms(3)] give_job [OF k assms(3,4)] by simp
qed

end

text \<open>The loops of the pool, with their phases.\<close>

fun phase_ok :: "loop_phase \<times> EventLoop \<Rightarrow> bool" where
  "phase_ok (Polling, l) = loop_ok [] [] l"
| "phase_ok (Handling hs, l) = loop_ok hs [] l"
| "phase_ok (Functors fs, l) = loop_ok [] fs l"

lemma phase_loop_ok: "phase_ok t \<Longrightarrow> \<exists>hs fs. loop_ok hs fs (snd t)"
  by (cases t rule: phase_ok.cases) auto

lemma phase_load: "phase_ok t \<Longrightarrow> load (snd t) \<le> 1 \<and> (el_idle (snd t) \<longrightarrow> load (snd t) = 0)"
  using phase_loop_ok [of t] loop_ok_load [of _ _ "snd t"] by blast

definition give_conn :: "events \<times> Session \<times> nat \<Rightarrow> loop_phase \<times> EventLoop \<Rightarrow> loop_phase \<times> EventLoop" where
  "give_conn c t = (case c of (raw, s, fd) \<Rightarrow> (fst t, snd (hand_over True raw s fd (snd t))))"

definition can_take :: "nat \<Rightarrow> EventLoop \<Rightarrow> bool" where
  "can_take fd l \<longleftrightarrow> fd < MAXFDS \<and> el_conns l fd = None \<and> fd \<noteq> ch_fd (el_wakeup l)"

lemma hand_over_assign:
  "fd < MAXFDS \<Longrightarrow> hand_over True raw s fd l = (Pushed, assign (fd, new_Channel fd raw, s) l)"
  by (simp add: hand_over_def push_def assign_def Let_def)

lemma assign_loop_ok:
  assumes "loop_ok hs fs l" "el_idle l" "can_take fd l"
  shows "loop_ok hs fs (assign (fd, new_Channel fd raw, s) l)" "load (assign (fd, new_Channel fd raw, s) l) = 1"
proof -
  have w: "wakeup_ok hs l" "known l" "vacant hs fs l"
    using assms(1,2) loop_ok_load [OF assms(1)] by (simp_all add: loop_ok_def)
  have "new_fd fd l"
    using assms(3) w(2) by (auto simp: new_fd_def can_take_def known_def)
  note a = assign_ok [OF w(1,3) this, of "new_Channel fd raw" s]
  have ch: "ch_fd (new_Channel fd raw) = fd"
    by (simp add: new_Channel_def)
  have "known (assign (fd, new_Channel fd raw, s) l)"
    using w(2) by (auto simp: known_def assign_def)
  with a ch show "loop_ok hs fs (assign (fd, new_Channel fd raw, s) l)"
    by (auto simp: loop_ok_def)
  show "load (assign (fd, new_Channel fd raw, s) l) = 1"
    using a(2) [OF ch] owns_dom [of fd "assign (fd, new_Channel fd raw, s) l"] by (simp add: queued_def)
qed

lemma give_phase_ok:
  assumes "phase_ok t" "el_idle (snd t)" "can_take fd (snd t)"
  shows "phase_ok (give_conn (raw, s, fd) t)" "load (snd (give_conn (raw, s, fd) t)) = 1"
  using assms
  by (cases t rule: phase_ok.cases; simp add: give_conn_def hand_over_assign can_take_def assign_loop_ok)+

interpretation pool: worker phase_ok "\<lambda>t. el_idle (snd t)" "\<lambda>t. load (snd t)"
  "\<lambda>(raw, s, fd) t. can_take fd (snd t)" give_conn
  by unfold_locales (use phase_load in \<open>auto simp: give_phase_ok\<close>)

section \<open>The invariant\<close>

text \<open>Nothing is lost: a queued functor has a wake-up to come, or its loop is on the way to it.\<close>

definition will_run :: "main_phase \<Rightarrow> nat \<Rightarrow> loop_phase \<times> EventLoop \<Rightarrow> bool" where
  "will_run m k t \<longleftrightarrow> (el_pending (snd t) \<noteq> [] \<longrightarrow>
     0 < el_counter (snd t) \<or> (\<exists>hs. fst t = Handling hs) \<or> m = Waking k)"

definition in_hand :: "Server \<Rightarrow> bool" where
  "in_hand S \<longleftrightarrow> (case sv_main S of
       Scanning fd i \<Rightarrow> fresh_fd fd S
     | Taking fd k \<Rightarrow> fresh_fd fd S \<and> k < length (sv_threads S) \<and> el_idle (loop_of S k)
     | Waking k \<Rightarrow> k < length (sv_threads S)
     | _ \<Rightarrow> True)"

definition apart :: "(loop_phase \<times> EventLoop) list \<Rightarrow> bool" where
  "apart ts \<longleftrightarrow> (\<forall>i<length ts. \<forall>j<length ts. i \<noteq> j \<longrightarrow> dom (el_conns (snd (ts ! i))) \<inter> dom (el_conns (snd (ts ! j))) = {})"

definition server_inv :: "Server \<Rightarrow> bool" where
  "server_inv S \<longleftrightarrow> sv_threads S \<noteq> [] \<and> list_all phase_ok (sv_threads S) \<and> apart (sv_threads S) \<and> in_hand S \<and>
     (\<forall>k<length (sv_threads S). will_run (sv_main S) k (sv_threads S ! k))"

text \<open>A step of one thread that takes no new connection and does not become busy.\<close>

definition quiet_step :: "loop_phase \<times> EventLoop \<Rightarrow> loop_phase \<times> EventLoop \<Rightarrow> bool" where
  "quiet_step t t' \<longleftrightarrow> dom (el_conns (snd t')) \<subseteq> dom (el_conns (snd t)) \<and>
     ch_fd (el_wakeup (snd t')) = ch_fd (el_wakeup (snd t)) \<and> (el_idle (snd t) \<longrightarrow> el_idle (snd t'))"

lemma apart_update:
  assumes "apart ts" "\<And>j. j < length ts \<Longrightarrow> j \<noteq> k \<Longrightarrow> dom (el_conns (snd t')) \<inter> dom (el_conns (snd (ts ! j))) = {}"
  shows "apart (ts[k := t'])"
  unfolding apart_def
proof (intro allI impI)
  fix i j
  assume ij: "i < length (ts[k := t'])" "j < length (ts[k := t'])" "i \<noteq> j"
  consider "i = k" | "j = k" | "i \<noteq> k" "j \<noteq> k"
    by blast
  then show "dom (el_conns (snd (ts[k := t'] ! i))) \<inter> dom (el_conns (snd (ts[k := t'] ! j))) = {}"
  proof cases
    case 1
    then show ?thesis
      using ij assms(2) [of j] by simp
  next
    case 2
    then show ?thesis
      using ij assms(2) [of i] by (simp add: Int_commute)
  next
    case 3
    then show ?thesis
      using ij assms(1) by (simp add: apart_def)
  qed
qed

lemma apart_shrink:
  assumes "apart ts" "k < length ts" "dom (el_conns (snd t')) \<subseteq> dom (el_conns (snd (ts ! k)))"
  shows "apart (ts[k := t'])"
proof (rule apart_update [OF assms(1)])
  fix j
  assume "j < length ts" "j \<noteq> k"
  then have "dom (el_conns (snd (ts ! k))) \<inter> dom (el_conns (snd (ts ! j))) = {}"
    using assms(1,2) by (simp add: apart_def)
  then show "dom (el_conns (snd t')) \<inter> dom (el_conns (snd (ts ! j))) = {}"
    using assms(3) by blast
qed

lemma fresh_update:
  assumes "fresh_fd fd S" "k < length (sv_threads S)" "quiet_step (sv_threads S ! k) t'"
  shows "fresh_fd fd (on_thread k t' S)"
proof -
  have "(\<forall>(ph, l)\<in>set (sv_threads S). fd \<noteq> ch_fd (el_wakeup l) \<and> el_conns l fd = None)"
    using assms(1) by (simp add: fresh_fd_def)
  moreover from this have "fd \<noteq> ch_fd (el_wakeup (snd t')) \<and> el_conns (snd t') fd = None"
    using nth_mem [OF assms(2)] assms(3) by (force simp: quiet_step_def)
  ultimately show ?thesis
    using assms(1) set_update_subset_insert [of "sv_threads S" k t'] by (force simp: fresh_fd_def on_thread_def)
qed

lemma thread_step_inv:
  assumes inv: "server_inv S" and k: "k < length (sv_threads S)" and q: "quiet_step (sv_threads S ! k) t'"
    and t': "phase_ok t'" "will_run (sv_main S) k t'"
  shows "server_inv (on_thread k t' S)"
proof -
  have "in_hand (on_thread k t' S)"
  proof (cases "sv_main S")
    case (Scanning fd i)
    then show ?thesis
      using inv fresh_update [OF _ k q, of fd] by (simp add: server_inv_def in_hand_def on_thread_def)
  next
    case (Taking fd j)
    then show ?thesis
      using inv fresh_update [OF _ k q, of fd] q k
      by (auto simp: server_inv_def in_hand_def on_thread_def nth_list_update quiet_step_def)
  qed (use inv in \<open>auto simp: server_inv_def in_hand_def on_thread_def\<close>)
  moreover have "apart ((sv_threads S)[k := t'])"
    using inv q k by (intro apart_shrink) (simp_all add: server_inv_def quiet_step_def)
  moreover have "list_all phase_ok ((sv_threads S)[k := t'])"
    using inv t'(1) k by (auto simp: server_inv_def list_all_length nth_list_update)
  ultimately show ?thesis
    using inv t'(2) k by (auto simp: server_inv_def on_thread_def nth_list_update)
qed

text \<open>The accepting thread alone.\<close>

lemma main_step_inv:
  assumes "server_inv S" "\<And>k. sv_main S \<noteq> Waking k"
    and "sv_threads S' = sv_threads S" "\<And>k t. will_run (sv_main S) k t \<Longrightarrow> will_run (sv_main S') k t" "in_hand S'"
  shows "server_inv S'"
  using assms by (simp add: server_inv_def)

lemma not_waking: "(\<And>k. m \<noteq> Waking k) \<Longrightarrow> will_run m k t \<Longrightarrow> will_run m' k t"
  by (auto simp: will_run_def)

text \<open>The loop that was found.\<close>

lemma taking_inv:
  assumes inv: "server_inv S" and m: "sv_main S = Taking fd k"
    and h: "hand_over nonblocking raw s fd (loop_of S k) = (r, l')"
  shows "server_inv (on_thread k (phase_of S k, l')
    (S\<lparr>sv_main := (case r of Closed_it \<Rightarrow> Accepting | Returned \<Rightarrow> Rearming | Pushed \<Rightarrow> Waking k)\<rparr>))"
    (is "server_inv ?S")
proof -
  define t where "t = sv_threads S ! k"
  have k: "k < length (sv_threads S)" "el_idle (snd t)" "fresh_fd fd S" "t \<in> set (sv_threads S)"
    using inv m by (auto simp: server_inv_def in_hand_def t_def)
  then have free: "el_conns (snd t) fd = None" "fd \<noteq> ch_fd (el_wakeup (snd t))" and ok: "phase_ok t"
    using inv by (auto simp: fresh_fd_def server_inv_def list_all_iff)
  obtain hs fs where l: "loop_ok hs fs (snd t)" "vacant hs fs (snd t)"
    using phase_loop_ok [OF ok] loop_ok_load k(2) by blast
  have waits: "\<forall>j<length (sv_threads S). will_run (sv_main S) j (sv_threads S ! j)" "apart (sv_threads S)"
      "\<forall>j<length (sv_threads S). phase_ok (sv_threads S ! j)" "sv_threads S \<noteq> []"
    using inv by (simp_all add: server_inv_def list_all_length)
  have threads: "sv_threads ?S = (sv_threads S)[k := (fst t, l')]" "phase_of S k = fst t" "loop_of S k = snd t"
    by (simp_all add: on_thread_def t_def)
  show ?thesis
  proof (cases "MAXFDS \<le> fd \<or> \<not> nonblocking")
    case True
    then have l': "l' = (snd t)\<lparr>el_idle := False\<rparr>" and r: "r = Closed_it \<or> r = Returned"
      using h by (auto simp: hand_over_def threads Let_def split: if_splits)
    have "wakeup_ok hs' l' = wakeup_ok hs' (snd t)" "known l' = known (snd t)" "vacant hs' fs' l' = vacant hs' fs' (snd t)" for hs' fs'
      by (simp_all add: l' wakeup_ok_def one_wakeup_def known_def vacant_def ws_within_def)
    then have "loop_ok hs' fs' l'" if "loop_ok hs' fs' (snd t)" for hs' fs'
      using loop_ok_load [OF that] that k(2) by (simp add: loop_ok_def)
    then have "phase_ok (fst t, l')"
      using ok by (cases t rule: phase_ok.cases) simp_all
    moreover have "el_pending l' = []"
      using l(2) by (simp add: l' vacant_def)
    moreover have "apart ((sv_threads S)[k := (fst t, l')])"
      using waits(2) k(1) by (rule apart_shrink) (simp add: l' t_def)
    ultimately show ?thesis
      using waits r m k(1) unfolding server_inv_def threads
      by (auto simp: list_all_length nth_list_update in_hand_def will_run_def on_thread_def)
  next
    case False
    then have p: "r = Pushed" "(fst t, l') = give_conn (raw, s, fd) t" "fd < MAXFDS" "l' = assign (fd, new_Channel fd raw, s) (snd t)"
      using h hand_over_assign [of fd raw s "snd t"] by (auto simp: threads give_conn_def)
    then have "phase_ok (fst t, l')"
      using pool.give_sound [OF ok, of "(raw, s, fd)"] k(2) free by (simp add: can_take_def)
    have "dom (el_conns l') = {fd}"
      using l(2) by (auto simp: p(4) assign_def vacant_def)
    moreover have "fd \<notin> dom (el_conns (snd (sv_threads S ! j)))" if "j < length (sv_threads S)" for j
      using k(3) nth_mem [OF that] by (force simp: fresh_fd_def)
    ultimately have "apart ((sv_threads S)[k := (fst t, l')])"
      by (intro apart_update [OF waits(2)]) simp
    with \<open>phase_ok (fst t, l')\<close> show ?thesis
      using waits m k(1) unfolding server_inv_def threads
      by (auto simp: p(1) list_all_length nth_list_update in_hand_def will_run_def on_thread_def)
  qed
qed

section \<open>Every step keeps it\<close>

lemma input_keeps:
  assumes "phase_ok (ph, l)" "el_conns l p = Some (ch, s)"
  shows "phase_ok (ph, l\<lparr>el_conns := (el_conns l)(p \<mapsto> (ch, s'))\<rparr>)" (is "phase_ok (ph, ?l)")
proof -
  have "wakeup_ok hs ?l = wakeup_ok hs l" "known ?l = known l" "ws_within P hs ?l = ws_within P hs l" for hs P
    using assms(2) by (auto simp: wakeup_ok_def one_wakeup_def known_def ws_within_def Let_def)
  moreover have "owns q ?l" if "owns q l" for q
  proof -
    obtain ch1 s1 where o: "\<not> el_idle l" "q < MAXFDS" "el_conns l = [q \<mapsto> (ch1, s1)]" "ch_fd ch1 = q"
      using \<open>owns q l\<close> unfolding owns_def by blast
    then have "p = q" "ch1 = ch"
      using assms(2) by (auto split: if_splits)
    with o show ?thesis
      by (intro ownsI [of _ _ ch s']) simp_all
  qed
  moreover have "\<not> vacant hs fs l" for hs fs
    using assms(2) by (auto simp: vacant_def)
  ultimately have "loop_ok hs fs ?l" if "loop_ok hs fs l" for hs fs
    using that by (auto simp: loop_ok_def queued_def serving_def)
  then show ?thesis
    using assms(1) by (cases ph) auto
qed

lemma wakeup_keeps: "phase_ok (ph, wakeup l) = phase_ok (ph, l)"
  using loop_ok_same [of "wakeup l" l] by (cases ph) (simp_all add: wakeup_def)

lemma kernel_keeps: "phase_ok (ph, l\<lparr>el_epoll := (el_epoll l)\<lparr>ctl_fails := fails\<rparr>\<rparr>) = phase_ok (ph, l)"
  using loop_ok_same [of "l\<lparr>el_epoll := (el_epoll l)\<lparr>ctl_fails := fails\<rparr>\<rparr>" l] by (cases ph) simp_all

lemma again_keeps: "phase_ok (Functors [], l) \<Longrightarrow> phase_ok (Polling, l\<lparr>el_calling := False\<rparr>)"
  using loop_ok_same [of "l\<lparr>el_calling := False\<rparr>" l] by simp

lemma loop_step_keeps:
  assumes "loop_step env t t'" "phase_ok t"
  shows "phase_ok t'" "quiet_step t t'" "will_run m k t \<Longrightarrow> will_run m k t'"
proof -
  have "phase_ok t' \<and> quiet_step t t' \<and> (will_run m k t \<longrightarrow> will_run m k t')"
    using assms
  proof (induction rule: loop_step.induct)
    case (poll evs l hs l')
    then have "loop_ok [] [] l"
      by simp
    from poll_step [OF this poll(1)] poll(2) have l': "loop_ok hs [] l'" "touched l l'"
      by auto
    have "dom (el_conns l') = dom (el_conns l)"
      using touched_none [OF l'(2)] by (simp add: set_eq_iff domIff)
    with l' show ?case
      by (simp add: quiet_step_def touched_def will_run_def)
  next
    case (handle c l l' hs)
    then have "loop_ok (c # hs) [] l"
      by simp
    then obtain l1 where "dispatch env c l = Some l1" "loop_ok hs [] l1" "dom (el_conns l1) \<subseteq> dom (el_conns l)"
        "ch_fd (el_wakeup l1) = ch_fd (el_wakeup l)" "el_idle l \<Longrightarrow> el_idle l1"
      by (rule dispatch_step [of c hs "[]" l env]) (use handle in auto)
    with handle show ?case
      by (simp add: quiet_step_def will_run_def)
  next
    case (swap l fs l')
    then have "loop_ok [] [] l"
      by simp
    from swap_step [OF this swap(1)] show ?case
      by (simp add: quiet_step_def will_run_def)
  next
    case (run_functor p l l' fs)
    then have "loop_ok [] (p # fs) l"
      by simp
    then obtain l1 where "newEvent p l = Some l1" "loop_ok [] fs l1" "dom (el_conns l1) = dom (el_conns l)"
      "ch_fd (el_wakeup l1) = ch_fd (el_wakeup l)" "\<not> el_idle l" "el_pending l1 = []"
      by (rule functor_step)
    with run_functor show ?case
      by (simp add: quiet_step_def will_run_def)
  next
    case (again l)
    then show ?case
      using again_keeps [of l] by (simp add: quiet_step_def will_run_def)
  qed
  then show "phase_ok t'" "quiet_step t t'" "will_run m k t \<Longrightarrow> will_run m k t'"
    by blast+
qed

lemma server_step_inv:
  assumes "server_step env S S'" "server_inv S"
  shows "server_inv S'"
  using assms
proof (induction rule: server_step.induct)
  case (client S)
  then show ?case
    by (cases "sv_main S") (simp_all add: server_inv_def in_hand_def fresh_fd_def)
next
  case (main_poll S ev)
  then show ?case
    by (intro main_step_inv [OF main_poll.prems]) (auto simp: in_hand_def will_run_def)
next
  case (accept_conn S b fd)
  then show ?case
    by (intro main_step_inv [OF accept_conn.prems]) (auto simp: in_hand_def will_run_def fresh_fd_def)
next
  case (accept_end S)
  then show ?case
    by (intro main_step_inv [OF accept_end.prems]) (auto simp: in_hand_def will_run_def)
next
  case (scan S fd i j)
  then show ?case
    by (intro main_step_inv [OF scan.prems]) (auto simp: in_hand_def will_run_def server_inv_def fresh_fd_def)
next
  case (found S fd i k)
  then have "k < length (sv_threads S)" "el_idle (loop_of S k)" "fresh_fd fd S"
    by (auto simp: next_look_def server_inv_def in_hand_def split: if_splits)
  with found show ?case
    by (intro main_step_inv [OF found.prems]) (auto simp: in_hand_def will_run_def fresh_fd_def)
next
  case (take_conn S fd k nonblocking raw s r l' uuid stale1 stale2 raw_bytes sock)
  then show ?case
    by (intro taking_inv)
next
  case (wake S k)
  let ?t = "(phase_of S k, wakeup (loop_of S k))"
  have k: "k < length (sv_threads S)" "phase_ok (sv_threads S ! k)"
    using wake by (auto simp: server_inv_def in_hand_def list_all_length)
  then have "phase_ok ?t"
    using wakeup_keeps [of "phase_of S k" "loop_of S k"] by simp
  moreover have "apart ((sv_threads S)[k := ?t])"
    using wake.prems k(1) by (intro apart_shrink) (simp_all add: server_inv_def wakeup_def)
  ultimately show ?case
    using wake k(1)
    by (auto simp: server_inv_def in_hand_def list_all_length nth_list_update on_thread_def will_run_def wakeup_def)
next
  case (rearm S ch ep)
  then show ?case
    by (intro main_step_inv [OF rearm.prems]) (auto simp: in_hand_def will_run_def)
next
  case (thread k S t)
  then have k: "k < length (sv_threads S)" "phase_ok (sv_threads S ! k)" "will_run (sv_main S) k (sv_threads S ! k)"
    by (simp_all add: server_inv_def list_all_length)
  then show ?case
    using loop_step_keeps [OF thread(2)] thread.prems by (intro thread_step_inv) auto
next
  case (input k S ph l p ch s s')
  then have "phase_ok (ph, l)" "will_run (sv_main S) k (ph, l)"
    by (auto simp: server_inv_def list_all_length dest!: spec [of _ k])
  then show ?case
    using input input_keeps [of ph l p ch s s'] by (intro thread_step_inv) (auto simp: quiet_step_def will_run_def)
next
  case (kernel k S ph l fails)
  then have "phase_ok (ph, l)" "will_run (sv_main S) k (ph, l)"
    by (auto simp: server_inv_def list_all_length dest!: spec [of _ k])
  then show ?case
    using kernel kernel_keeps [where ph = ph and l = l and fails = fails] by (intro thread_step_inv) (auto simp: quiet_step_def will_run_def)
qed

lemma server_steps_inv: "server_steps env S S' \<Longrightarrow> server_inv S \<Longrightarrow> server_inv S'"
  unfolding server_steps_def by (induction rule: rtranclp_induct) (blast intro: server_step_inv)+

lemma new_EventLoop_fd: "new_EventLoop w raw [] = Some l \<Longrightarrow> w < MAXFDS"
  by (rule ccontr) (simp add: new_EventLoop_def Let_def addToPoller_def on_poller_def epoll_add_def new_Channel_def
      EqualAndUpdateLastEvents_def)

lemma those_all: "those xs = Some ys \<Longrightarrow> length ys = length xs \<and> (\<forall>i<length xs. xs ! i = Some (ys ! i))"
proof (induction xs arbitrary: ys)
  case (Cons x xs)
  then show ?case
    by (cases x) (auto simp: nth_Cons split: nat.splits)
qed simp

lemma server_start_inv:
  assumes "server_start wakeups listenFd = Some S"
  shows "server_inv S" "length (sv_threads S) = length wakeups"
proof -
  obtain ts where ts: "wakeups \<noteq> []" "those (map (\<lambda>w. map_option (Pair Polling) (new_EventLoop w 0 [])) wakeups) = Some ts"
      "sv_threads S = ts" "sv_main S = Main_polling"
    using assms by (auto simp: server_start_def pool_start_def Let_def bind_eq_Some_conv split: if_splits)
  note t = those_all [OF ts(2)]
  show len: "length (sv_threads S) = length wakeups"
    using t ts(3) by simp
  have each: "\<exists>l. ts ! i = (Polling, l) \<and> loop_ok [] [] l \<and> vacant [] [] l" if "i < length wakeups" for i
  proof -
    have "map_option (Pair Polling) (new_EventLoop (wakeups ! i) 0 []) = Some (ts ! i)"
      using t that by auto
    then obtain l where l: "new_EventLoop (wakeups ! i) 0 [] = Some l" "ts ! i = (Polling, l)"
      by auto
    show ?thesis
      by (rule new_EventLoop_ok [OF new_EventLoop_fd [OF l(1)], of 0]) (use l in auto)
  qed
  have "phase_ok (ts ! i)" "el_conns (snd (ts ! i)) = Map.empty" "el_pending (snd (ts ! i)) = []" if "i < length wakeups" for i
    using each [OF that] by (auto simp: vacant_def)
  then show "server_inv S"
    using ts len by (auto simp: server_inv_def list_all_length apart_def in_hand_def will_run_def)
qed

end
