(* ===== verification/Server_Live.thy ===== *)
theory Server_Live
  imports Server_Inv Connection_Serve
begin

text \<open>
  The properties of the server as a whole: one connection per loop, no connection forgotten, a queued
  connection comes to the poller, a closed one frees its loop, and what the error paths leave behind.
\<close>

section \<open>Runs of one thread\<close>

definition loop_steps :: "('d, 'e) surroundings_scheme \<Rightarrow> loop_phase \<times> EventLoop \<Rightarrow> loop_phase \<times> EventLoop \<Rightarrow> bool" where
  "loop_steps env = (loop_step env)\<^sup>*\<^sup>*"

lemma loop_steps_refl [simp]: "loop_steps env t t"
  by (simp add: loop_steps_def)

lemma loop_steps_step: "loop_step env t t1 \<Longrightarrow> loop_steps env t1 t2 \<Longrightarrow> loop_steps env t t2"
  unfolding loop_steps_def by (rule converse_rtranclp_into_rtranclp)

lemma loop_steps_server:
  assumes "k < length (sv_threads S)" "loop_steps env (sv_threads S ! k) t"
  shows "server_steps env S (on_thread k t S)"
  using assms(2) unfolding loop_steps_def
proof (induction rule: rtranclp_induct)
  case base
  show ?case
    by (simp add: server_steps_def on_thread_def)
next
  case (step t1 t2)
  have "server_step env (on_thread k t1 S) (on_thread k t2 (on_thread k t1 S))"
    using step.hyps(2) assms(1) by (intro thread) (simp_all add: on_thread_def)
  then show ?case
    using step.IH by (simp add: server_steps_def on_thread_def)
qed

section \<open>A queued connection comes to the poller\<close>

lemma queued_of:
  assumes "loop_ok hs fs l" "fs @ el_pending l = [p]"
  shows "queued hs fs p l" "wakeup_ok hs l"
  using assms by (auto simp: loop_ok_def vacant_def queued_def serving_def)

lemma functors_arm:
  assumes "loop_ok [] [p] l" "ctl_fails (el_epoll l) = []"
  shows "\<exists>t. loop_steps env (Functors [p], l) t \<and> armed p (snd t)"
proof -
  from functor_step [OF assms(1)] assms(2) obtain l' where "newEvent p l = Some l'" "armed p l'"
    by metis
  then have "loop_step env (Functors [p], l) (Functors [], l')"
    by (intro run_functor)
  from loop_steps_step [OF this loop_steps_refl] \<open>armed p l'\<close> show ?thesis
    by (intro exI [of _ "(Functors [], l')"]) simp
qed

lemma swap_arms:
  assumes "loop_ok [] [] l" "el_pending l = [p]" "ctl_fails (el_epoll l) = []"
  shows "\<exists>t. loop_steps env (Handling [], l) t \<and> armed p (snd t)"
proof -
  obtain fs l' where s: "swapPending l = (fs, l')"
    by fastforce
  note sw = swap_step [OF assms(1) s]
  have "loop_ok [] [p] l'" "ctl_fails (el_epoll l') = []"
    using sw assms by simp_all
  from functors_arm [OF this, of env] obtain t where "loop_steps env (Functors [p], l') t" "armed p (snd t)"
    by blast
  moreover have "fs = [p]"
    using sw(2) assms(2) by simp
  ultimately show ?thesis
    using loop_steps_step [OF swap [OF s], of env t] by (intro exI [of _ t]) simp
qed

lemma handling_arms:
  assumes ok: "loop_ok hs [] l" and p: "el_pending l = [p]" and c: "ctl_fails (el_epoll l) = []"
  shows "\<exists>t. loop_steps env (Handling hs, l) t \<and> armed p (snd t)"
proof -
  have q: "queued hs [] p l" "wakeup_ok hs l"
    using queued_of [OF ok] p by simp_all
  then have "distinct hs" "\<forall>c\<in>set hs. c = Wakeup"
    by (auto simp: queued_def ws_within_def) (metis chan.exhaust)+
  then consider "hs = []" | "hs = [Wakeup]"
    by (cases hs rule: remdups_adj.cases) auto
  then show ?thesis
  proof cases
    case 1
    then show ?thesis
      using swap_arms [OF _ p c, of env] ok by simp
  next
    case 2
    let ?l = "l\<lparr>el_counter := 0, el_wakeup := (el_wakeup l)\<lparr>ch_events := EPOLLIN OR EPOLLET\<rparr>\<rparr>"
    have d: "dispatch env Wakeup l = Some ?l"
      using q(2) 2 by (intro dispatch_wakeup [of "[]"]) simp
    from dispatch_step [of Wakeup "[]" "[]" l env] ok 2 d have "loop_ok [] [] ?l"
      by force
    from swap_arms [OF this, of p env] p c obtain t where "loop_steps env (Handling [], ?l) t" "armed p (snd t)"
      by auto
    then show ?thesis
      using 2 loop_steps_step [OF handle [OF d], of "[]" t] by (intro exI [of _ t]) simp
  qed
qed

lemma polling_arms:
  assumes ok: "loop_ok [] [] l" and p: "el_pending l = [p]" and c: "ctl_fails (el_epoll l) = []" and n: "0 < el_counter l"
  shows "\<exists>t. loop_steps env (Polling, l) t \<and> armed p (snd t)"
proof -
  let ?evs = "[(ch_fd (el_wakeup l), EPOLLIN)]"
  have w: "wakeup_ok [] l"
    using ok by (simp add: loop_ok_def)
  then have r: "reports ?evs l"
    using n by (simp add: reports_def wakeup_ok_def Let_def)
  from poll_step [OF ok r] obtain l' where l': "getEventsRequest ?evs l = Some (requests ?evs l, l')"
      "loop_ok (requests ?evs l) [] l'" "touched l l'" .
  have ne: "requests ?evs l \<noteq> []"
    using w by (simp add: requests_def map_filter_simps wakeup_ok_def Let_def)
  from handling_arms [OF l'(2), of p env] l'(3) p c obtain t where
    "loop_steps env (Handling (requests ?evs l), l') t" "armed p (snd t)"
    by (auto simp: touched_def)
  then show ?thesis
    using loop_steps_step [OF poll [OF r l'(1) ne], of env t] by (intro exI [of _ t]) simp
qed

lemma pending_arms:
  assumes ok: "phase_ok t" and p: "el_pending (snd t) \<noteq> []" and c: "ctl_fails (el_epoll (snd t)) = []"
    and w: "will_run m k t" "m \<noteq> Waking k"
  obtains q t' where "el_pending (snd t) = [q]" "loop_steps env t t'" "armed q (snd t')"
proof -
  obtain ph l where t: "t = (ph, l)"
    by fastforce
  have one: "\<exists>q. el_pending l = [q] \<and> fs = []" if "loop_ok hs fs l" for hs fs
    using that p t by (auto simp: loop_ok_def vacant_def queued_def serving_def append_eq_Cons_conv)
  show thesis
  proof (cases ph)
    case Polling
    then have "loop_ok [] [] l" "0 < el_counter l"
      using ok w p t by (auto simp: will_run_def)
    moreover from this one obtain q where "el_pending l = [q]"
      by blast
    ultimately show thesis
      using polling_arms [of l q env] c t Polling that by auto
  next
    case (Handling hs)
    then have "loop_ok hs [] l"
      using ok t by simp
    moreover from this one obtain q where "el_pending l = [q]"
      by blast
    ultimately show thesis
      using handling_arms [of hs l q env] c t Handling that by auto
  next
    case (Functors fs)
    then have l: "loop_ok [] fs l" "0 < el_counter l"
      using ok w p t by (auto simp: will_run_def)
    then obtain q where q: "el_pending l = [q]" "fs = []"
      using one by blast
    let ?l = "l\<lparr>el_calling := False\<rparr>"
    have "loop_ok [] [] ?l"
      using again_keeps [of l] l q by simp
    with polling_arms [of ?l q env] l q c t obtain t' where "loop_steps env (Polling, ?l) t'" "armed q (snd t')"
      by auto
    then have "loop_steps env t t'"
      using loop_steps_step [OF again, of env l t'] t Functors q(2) by simp
    then show thesis
      using \<open>armed q (snd t')\<close> q(1) t that by auto
  qed
qed

section \<open>A run of the accepting thread\<close>

text \<open>Two loops; a client connects and is handed to the first.\<close>

lemma start_two:
  obtains l1 l2 ch ep where "server_start [5, 6] 4 = Some \<lparr>sv_threads = [(Polling, l1), (Polling, l2)], sv_main = Main_polling,
      sv_accept = ch, sv_epoll = ep, sv_backlog = 0, sv_edge = False\<rparr>"
    "vacant [] [] l1" "el_idle l1" "ctl_fails (el_epoll l1) = []" "ch_fd (el_wakeup l1) = 5"
    "vacant [] [] l2" "ch_fd (el_wakeup l2) = 6"
    "ch_fd ch = 4" "interest ep 4 = Some (EPOLLIN OR EPOLLET)" "ctl_fails ep = []" "ch_lastEvents ch = EPOLLIN OR EPOLLET"
proof -
  obtain l1 where l1: "new_EventLoop 5 0 [] = Some l1" "vacant [] [] l1" "el_idle l1" "ctl_fails (el_epoll l1) = []"
      "ch_fd (el_wakeup l1) = 5"
    by (rule new_EventLoop_ok [of 5 0]) (simp_all add: MAXFDS_def)
  obtain l2 where l2: "new_EventLoop 6 0 [] = Some l2" "vacant [] [] l2" "ch_fd (el_wakeup l2) = 6"
    by (rule new_EventLoop_ok [of 6 0]) (simp_all add: MAXFDS_def)
  obtain ep where ep: "epoll_add () ((new_Channel 4 0)\<lparr>ch_events := EPOLLIN OR EPOLLET\<rparr>)
      \<lparr>fd2chan = Map.empty, interest = Map.empty, ctl_fails = []\<rparr> =
    Some ((new_Channel 4 0)\<lparr>ch_events := EPOLLIN OR EPOLLET, ch_lastEvents := EPOLLIN OR EPOLLET\<rparr>, ep)"
    "interest ep 4 = Some (EPOLLIN OR EPOLLET)" "ctl_fails ep = []"
    by (rule epoll_add_result [of "(new_Channel 4 0)\<lparr>ch_events := EPOLLIN OR EPOLLET\<rparr>" "()"
          "\<lparr>fd2chan = Map.empty, interest = Map.empty, ctl_fails = []\<rparr>"]) (simp_all add: new_Channel_def MAXFDS_def)
  have "server_start [5, 6] 4 = Some \<lparr>sv_threads = [(Polling, l1), (Polling, l2)], sv_main = Main_polling,
      sv_accept = (new_Channel 4 0)\<lparr>ch_events := EPOLLIN OR EPOLLET, ch_lastEvents := EPOLLIN OR EPOLLET\<rparr>, sv_epoll = ep,
      sv_backlog = 0, sv_edge = False\<rparr>"
    by (simp add: server_start_def pool_start_def Let_def l1(1) l2(1) ep(1))
  then show thesis
    by (rule that [OF _ l1(2-5) l2(2,3) _ ep(2,3)]) (simp_all add: new_Channel_def)
qed

lemma accept_one:
  obtains S0 S l where "server_start [5, 6] 4 = Some S0" "server_steps env S0 S" "sv_main S = Taking 9 0"
    "length (sv_threads S) = 2" "sv_threads S ! 0 = (Polling, l)" "vacant [] [] l" "ctl_fails (el_epoll l) = []"
    "ch_fd (sv_accept S) = 4" "interest (sv_epoll S) 4 = Some (EPOLLIN OR EPOLLET)" "ctl_fails (sv_epoll S) = []"
    "ch_lastEvents (sv_accept S) = EPOLLIN OR EPOLLET" "ch_events (sv_accept S) = 0"
proof -
  obtain l1 l2 ch ep where s: "server_start [5, 6] 4 = Some \<lparr>sv_threads = [(Polling, l1), (Polling, l2)], sv_main = Main_polling,
      sv_accept = ch, sv_epoll = ep, sv_backlog = 0, sv_edge = False\<rparr>" (is "_ = Some ?S0")
    and l: "vacant [] [] l1" "el_idle l1" "ctl_fails (el_epoll l1) = []" "ch_fd (el_wakeup l1) = 5"
      "vacant [] [] l2" "ch_fd (el_wakeup l2) = 6"
    and ch: "ch_fd ch = 4" "interest ep 4 = Some (EPOLLIN OR EPOLLET)" "ctl_fails ep = []" "ch_lastEvents ch = EPOLLIN OR EPOLLET"
    by (rule start_two)
  let ?S1 = "?S0\<lparr>sv_backlog := 1, sv_edge := True\<rparr>"
  let ?S2 = "?S1\<lparr>sv_main := Accepting, sv_edge := False, sv_accept := ch\<lparr>ch_revents := EPOLLIN, ch_events := 0\<rparr>\<rparr>"
  let ?S3 = "?S2\<lparr>sv_main := Scanning 9 0, sv_backlog := 0\<rparr>"
  let ?S4 = "?S3\<lparr>sv_main := Taking 9 0\<rparr>"
  have "server_step env ?S0 ?S1"
    using client [of env ?S0] by simp
  moreover have "server_step env ?S1 ?S2"
    using main_poll [of ?S1 "EPOLLIN OR EPOLLET" env] ch by (simp add: has_def epoll_bits)
  moreover have "server_step env ?S2 ?S3"
    using accept_conn [of ?S2 0 9 env] l ch by (simp add: fresh_fd_def vacant_def)
  moreover have "server_step env ?S3 ?S4"
    using found [of ?S3 9 0 0 env] l by (simp add: next_look_def)
  ultimately have "server_steps env ?S0 ?S4"
    unfolding server_steps_def by (meson converse_rtranclp_into_rtranclp rtranclp.rtrancl_refl)
  then show thesis
    using l ch by (intro that [OF s, of ?S4 l1]) simp_all
qed

text \<open>The connection pushed and the loop woken.\<close>

lemma hand_one:
  obtains S0 S where "server_start [5, 6] 4 = Some S0" "server_steps env S0 S" "sv_main S = Accepting"
    "length (sv_threads S) = 2" "el_pending (loop_of S 0) = [9]" "ctl_fails (el_epoll (loop_of S 0)) = []" "load (loop_of S 0) = 1"
proof -
  obtain S0 S l where s: "server_start [5, 6] 4 = Some S0" "server_steps env S0 S" "sv_main S = Taking 9 0"
    "length (sv_threads S) = 2" "sv_threads S ! 0 = (Polling, l)" "vacant [] [] l" "ctl_fails (el_epoll l) = []"
    by (rule accept_one)
  define se where "se = new_Session [] [] [] 0 \<lparr>avail = [], faults = []\<rparr>"
  define l' where "l' = assign (9, new_Channel 9 0, se) l"
  have "hand_over True 0 se 9 (loop_of S 0) = (Pushed, l')"
    using hand_over_assign [of 9 0 se l] s(5) by (simp add: l'_def MAXFDS_def)
  from take_conn [OF s(3) this se_def, of env] have
    "server_step env S (on_thread 0 (Polling, l') (S\<lparr>sv_main := Waking 0\<rparr>))" (is "server_step _ _ ?S1")
    using s(5) by simp
  moreover have "server_step env ?S1 (on_thread 0 (Polling, wakeup l') (?S1\<lparr>sv_main := Accepting\<rparr>))" (is "server_step _ _ ?S2")
    using wake [of ?S1 0 env] s(4) by (simp add: on_thread_def)
  ultimately have "server_steps env S0 ?S2"
    using s(2) unfolding server_steps_def by (meson rtranclp.rtrancl_into_rtrancl)
  then show thesis
    using s by (intro that [OF s(1), of ?S2]) (simp_all add: on_thread_def wakeup_def l'_def assign_def vacant_def load_def)
qed

section \<open>The error paths\<close>

text \<open>The accept channel once its events are empty: no step of the server looks at it again.\<close>

definition deaf :: "Server \<Rightarrow> bool" where
  "deaf S \<longleftrightarrow> sv_main S = Main_polling \<and> interest (sv_epoll S) (ch_fd (sv_accept S)) = Some 0"

lemma deaf_step: "server_step env S S' \<Longrightarrow> deaf S \<Longrightarrow> deaf S'"
  by (induction rule: server_step.induct) (auto simp: deaf_def on_thread_def has_def)

lemma deaf_steps: "server_steps env S S' \<Longrightarrow> deaf S \<Longrightarrow> deaf S'"
  unfolding server_steps_def by (induction rule: rtranclp_induct) (blast intro: deaf_step)+

lemma server_step_length: "server_step env S S' \<Longrightarrow> length (sv_threads S') = length (sv_threads S)"
  by (induction rule: server_step.induct) (simp_all add: on_thread_def)

lemma server_steps_length: "server_steps env S S' \<Longrightarrow> length (sv_threads S') = length (sv_threads S)"
  unfolding server_steps_def by (induction rule: rtranclp_induct) (simp_all add: server_step_length)

section \<open>Properties\<close>

text \<open>
  C6: however the threads interleave, and whatever arrives and fails, each loop of the pool serves at
  most one connection, an idle loop has none and none queued, and no connection is in two loops.
\<close>

theorem one_connection_per_loop:
  assumes "server_start wakeups listenFd = Some S0" "server_steps env S0 S"
  shows "length (sv_threads S) = length wakeups \<and> (\<forall>k<length wakeups. load (loop_of S k) \<le> 1 \<and>
      (el_idle (loop_of S k) \<longrightarrow> load (loop_of S k) = 0 \<and> el_pending (loop_of S k) = [])) \<and>
    apart (sv_threads S) \<and> pool.total (sv_threads S) \<le> length wakeups"
proof -
  have inv: "server_inv S" and n: "length (sv_threads S) = length wakeups"
    using server_steps_inv [OF assms(2)] server_start_inv [OF assms(1)] server_steps_length [OF assms(2)] by simp_all
  have "load (loop_of S k) \<le> 1 \<and> (el_idle (loop_of S k) \<longrightarrow> load (loop_of S k) = 0 \<and> el_pending (loop_of S k) = [])"
    if k: "k < length wakeups" for k
  proof -
    have "phase_ok (sv_threads S ! k)"
      using inv k n by (simp add: server_inv_def list_all_length)
    then obtain hs fs where l: "loop_ok hs fs (loop_of S k)"
      using phase_loop_ok by blast
    from loop_ok_load [OF this] show ?thesis
      by (auto simp: vacant_def)
  qed
  then show ?thesis
    using inv n pool.total_bound [of "sv_threads S"] by (simp add: server_inv_def)
qed

theorem one_connection_per_loop_witness:
  "\<exists>S. server_steps plain_env (the (server_start [5, 6] 4)) S \<and> load (loop_of S 0) = 1 \<and>
    pool.total (sv_threads S) \<le> length [5, 6 :: nat] \<and> apart (sv_threads S)"
proof -
  obtain S0 S where s: "server_start [5, 6] 4 = Some S0" "server_steps plain_env S0 S" "load (loop_of S 0) = 1"
    by (rule hand_one [where env = plain_env]) blast
  from one_connection_per_loop [OF s(1,2)] s show ?thesis
    by auto
qed

text \<open>
  C7: a connection that was handed to a loop is not forgotten: in every reachable state in which its
  functor waits and the accepting thread is past the wake-up, steps of that loop's thread alone put the
  connection on the poller, waiting for input, when \<open>epoll_ctl\<close> does not fail.
\<close>

theorem queued_connection_armed:
  assumes "server_start wakeups listenFd = Some S0" "server_steps env S0 S"
    and "k < length wakeups" "el_pending (loop_of S k) \<noteq> []" "sv_main S \<noteq> Waking k" "ctl_fails (el_epoll (loop_of S k)) = []"
  shows "\<exists>p t. el_pending (loop_of S k) = [p] \<and> server_steps env S (on_thread k t S) \<and> armed p (snd t)"
proof -
  have inv: "server_inv S" and k: "k < length (sv_threads S)"
    using server_steps_inv [OF assms(2)] server_start_inv [OF assms(1)] server_steps_length [OF assms(2)] assms(3)
    by simp_all
  then have "phase_ok (sv_threads S ! k)" "will_run (sv_main S) k (sv_threads S ! k)"
    by (simp_all add: server_inv_def list_all_length)
  from pending_arms [OF this(1) assms(4,6) this(2) assms(5), of env] loop_steps_server [OF k] show ?thesis
    by metis
qed

theorem queued_connection_armed_witness:
  "\<exists>S p t. server_steps plain_env (the (server_start [5, 6] 4)) S \<and> el_pending (loop_of S 0) = [p] \<and>
    server_steps plain_env S (on_thread 0 t S) \<and> armed p (snd t)"
proof -
  obtain S0 S where s: "server_start [5, 6] 4 = Some S0" "server_steps plain_env S0 S" "sv_main S = Accepting"
    "el_pending (loop_of S 0) = [9]" "ctl_fails (el_epoll (loop_of S 0)) = []"
    by (rule hand_one [where env = plain_env]) blast
  have "\<exists>p t. el_pending (loop_of S 0) = [p] \<and> server_steps plain_env S (on_thread 0 t S) \<and> armed p (snd t)"
    by (rule queued_connection_armed [OF s(1,2)]) (use s in simp_all)
  with s show ?thesis
    by auto
qed

text \<open>
  C8: a read event after which the session is closed or in error takes the connection off the poller
  and out of the loop, closes its descriptor and makes the loop idle.
\<close>

theorem closing_frees_loop:
  assumes "loop_ok (Ws p # hs) fs l" "el_conns l p = Some (ch, s)" "ch_revents ch = EPOLLIN"
    and "handleRead env s = Some s'" "s_state s' \<in> {STATE_CLOSE, STATE_ERROR}"
  shows "\<exists>l'. dispatch env (Ws p) l = Some l' \<and> vacant hs fs l' \<and> el_idle l' \<and> el_closed l' = el_closed l @ [p] \<and>
    interest (el_epoll l') p = None"
proof -
  obtain q where sv: "serving (Ws p # hs) fs q l" "wakeup_ok (Ws p # hs) l"
    using assms(1,2) by (auto simp: loop_ok_def vacant_def queued_def ws_within_def)
  have d: "dispatch env (Ws p) l \<noteq> None"
    using assms(2,4) by (intro dispatch_defined [OF assms(1)]) auto
  have "ch_fd (ch\<lparr>ch_events := 0\<rparr>) = p" "p < MAXFDS"
    using sv(1) assms(2) by (auto simp: serving_def owns_def split: if_splits)
  then obtain l1 where h: "handleConn p (ch\<lparr>ch_events := 0\<rparr>, s', l) = Some (ch\<lparr>ch_events := 0\<rparr>, s', l1)" "el_conns l1 p = None"
    by (rule handleConn_result [of _ p s' l]) (use assms(5) in auto)
  have "handleEvents (ws_handlers env p) (ch, s, l) = handleConn p (ch\<lparr>ch_events := 0\<rparr>, s', l)"
    using assms(3,4) by (simp add: handleEvents_ws)
  with h have gone: "el_conns l' p = None" if "dispatch env (Ws p) l = Some l'" for l'
    using that assms(2) by (auto simp: dispatch_def)
  show ?thesis
  proof (rule dispatch_ws [OF sv(2,1) d])
    fix l'
    assume l': "dispatch env (Ws p) l = Some l'" "serving hs fs p l' \<and> (armed p l \<longrightarrow> armed p l') \<or>
       vacant hs fs l' \<and> el_idle l' \<and> el_closed l' = el_closed l @ [p] \<and> interest (el_epoll l') p = None"
    have "el_conns l' p = None"
      using l'(1) gone by simp
    then have "\<not> serving hs fs p l'"
      using owns_dom [of p l'] by (auto simp: serving_def)
    then have v: "vacant hs fs l'" "el_idle l'" "el_closed l' = el_closed l @ [p]" "interest (el_epoll l') p = None"
      using l'(2) by simp_all
    with l'(1) v show ?thesis
      by blast
  qed
qed

text \<open>A loop that serves descriptor 9, whose session fails at the next read.\<close>

definition failing_Session :: Session where
  "failing_Session = (open_Session 0)\<lparr>s_sock := \<lparr>avail = [1, 2], faults = [True]\<rparr>\<rparr>"

definition serving_loop :: "events \<Rightarrow> Session \<Rightarrow> EventLoop" where
  "serving_loop ev s = \<lparr>el_idle = False,
     el_epoll = \<lparr>fd2chan = [5 \<mapsto> Wakeup, 9 \<mapsto> Ws 9], interest = [5 \<mapsto> EPOLLIN OR EPOLLET, 9 \<mapsto> EPOLLIN], ctl_fails = []\<rparr>,
     el_wakeup = (new_Channel 5 0)\<lparr>ch_lastEvents := EPOLLIN OR EPOLLET\<rparr>, el_counter = 0, el_pending = [], el_calling = False,
     el_conns = [9 \<mapsto> ((new_Channel 9 ev)\<lparr>ch_lastEvents := EPOLLIN\<rparr>, s)], el_closed = []\<rparr>"

lemma serving_loop_ok: "loop_ok [Ws 9] [] (serving_loop ev s)"
proof -
  have "owns 9 (serving_loop ev s)"
    by (intro ownsI [of _ _ "(new_Channel 9 ev)\<lparr>ch_lastEvents := EPOLLIN\<rparr>" s])
      (simp_all add: serving_loop_def new_Channel_def MAXFDS_def)
  moreover have "ws_within {9} [Ws 9] (serving_loop ev s)"
    by (simp add: ws_within_def serving_loop_def)
  ultimately have "serving [Ws 9] [] 9 (serving_loop ev s)"
    by (simp add: serving_def serving_loop_def)
  moreover have "wakeup_ok [Ws 9] (serving_loop ev s)"
    by (simp add: wakeup_ok_def one_wakeup_def serving_loop_def new_Channel_def MAXFDS_def)
  moreover have "known (serving_loop ev s)"
    by (simp add: known_def serving_loop_def new_Channel_def)
  ultimately show ?thesis
    by (auto simp: loop_ok_def)
qed

theorem closing_frees_loop_witness:
  "\<exists>s' l'. handleRead plain_env failing_Session = Some s' \<and> s_state s' = STATE_ERROR \<and>
    dispatch plain_env (Ws 9) (serving_loop EPOLLIN failing_Session) = Some l' \<and> el_idle l' \<and> el_closed l' = [9]"
proof -
  obtain s' where s': "handleRead plain_env failing_Session = Some s'" "s_state s' = STATE_ERROR"
    by (simp add: failing_Session_def open_Session_def ready_Session_def new_Session_def handleRead_def on_data_def
        read_packet_def readAndParsePacket_def parse_init_def Let_def new_Packet_def reset_def FIONREAD_def read_exact_def
        sock_read_def processError_def)
  obtain l' where "dispatch plain_env (Ws 9) (serving_loop EPOLLIN failing_Session) = Some l'" "el_idle l'"
      "el_closed l' = el_closed (serving_loop EPOLLIN failing_Session) @ [9]"
    using closing_frees_loop [OF serving_loop_ok [of EPOLLIN failing_Session], of "(new_Channel 9 EPOLLIN)\<lparr>ch_lastEvents := EPOLLIN\<rparr>"
      failing_Session plain_env s'] s'
    by (auto simp: serving_loop_def new_Channel_def)
  with s' show ?thesis
    by (auto simp: serving_loop_def)
qed

lemma error_iteration:
  assumes "el_conns l p = Some (ch, s)" "fd2chan (el_epoll l) p = Some (Ws p)" "p < MAXFDS" "el_pending l = []"
    and "has ev EPOLLERR \<or> has ev EPOLLHUP \<and> \<not> has ev EPOLLIN"
  shows "iteration env [(p, ev)] l = Some (l\<lparr>el_conns := (el_conns l)(p \<mapsto> (ch\<lparr>ch_revents := ev, ch_events := 0\<rparr>, s)),
    el_calling := False\<rparr>)"
proof -
  have "dispatch env (Ws p) (update_chan (Ws p) (\<lambda>ch. ch\<lparr>ch_revents := ev, ch_events := 0\<rparr>) l) =
    Some (l\<lparr>el_conns := (el_conns l)(p \<mapsto> (ch\<lparr>ch_revents := ev, ch_events := 0\<rparr>, s))\<rparr>)"
    using assms by (auto simp: dispatch_def update_chan_def handleEvents_ws Let_def)
  then show ?thesis
    using assms by (simp add: iteration_def doPendingFunctors_def swapPending_def)
qed

text \<open>
  C38: a connection with an error or a hang-up without input is not closed, however often the poller
  reports it: after any number of iterations its session is as it was, its descriptor is open and on
  the poller, and the loop is not idle.
\<close>

theorem error_events_keep_connection:
  assumes "el_conns l p = Some (ch, s)" "armed p l" "p < MAXFDS" "el_pending l = []" "\<not> el_idle l"
    and "has ev EPOLLERR \<or> has ev EPOLLHUP \<and> \<not> has ev EPOLLIN"
  shows "\<exists>l' ch'. each (iteration env) (replicate n [(p, ev)]) l = Some l' \<and> el_conns l' p = Some (ch', s) \<and>
    armed p l' \<and> \<not> el_idle l' \<and> el_closed l' = el_closed l"
  using assms(1-5)
proof (induction n arbitrary: l ch)
  case 0
  then show ?case
    by simp
next
  case (Suc n)
  let ?l = "l\<lparr>el_conns := (el_conns l)(p \<mapsto> (ch\<lparr>ch_revents := ev, ch_events := 0\<rparr>, s)), el_calling := False\<rparr>"
  have "iteration env [(p, ev)] l = Some ?l"
    using Suc.prems assms(6) by (intro error_iteration) (simp_all add: armed_def)
  moreover have "\<exists>l' ch'. each (iteration env) (replicate n [(p, ev)]) ?l = Some l' \<and> el_conns l' p = Some (ch', s) \<and>
    armed p l' \<and> \<not> el_idle l' \<and> el_closed l' = el_closed ?l"
    using Suc.prems by (intro Suc.IH) (simp_all add: armed_def)
  ultimately show ?case
    by simp
qed

theorem error_events_keep_connection_witness:
  "\<exists>l' ch'. each (iteration plain_env) (replicate 3 [(9, EPOLLERR)]) (serving_loop 0 failing_Session) = Some l' \<and>
    el_conns l' 9 = Some (ch', failing_Session) \<and> armed 9 l' \<and> \<not> el_idle l' \<and>
    el_closed l' = el_closed (serving_loop 0 failing_Session)"
  by (rule error_events_keep_connection [where ch = "(new_Channel 9 0)\<lparr>ch_lastEvents := EPOLLIN\<rparr>"])
    (simp_all add: serving_loop_def armed_def MAXFDS_def has_def epoll_bits new_Channel_def)

text \<open>The main thread leaves the accept handler, or has left it, with nothing to listen for.\<close>

definition deafening :: "Server \<Rightarrow> bool" where
  "deafening S \<longleftrightarrow> deaf S \<or> sv_main S = Rearming \<and> ch_events (sv_accept S) = 0 \<and> ch_lastEvents (sv_accept S) \<noteq> 0 \<and>
     interest (sv_epoll S) (ch_fd (sv_accept S)) \<noteq> None \<and> ctl_fails (sv_epoll S) = []"

lemma deafening_step:
  assumes "server_step env S S'" "deafening S"
  shows "deafening S' \<and> sv_backlog S \<le> sv_backlog S'"
proof (cases "deaf S")
  case True
  from assms(1) have "sv_backlog S \<le> sv_backlog S'"
    by cases (use True in \<open>auto simp: deaf_def on_thread_def\<close>)
  with deaf_step [OF assms(1) True] show ?thesis
    by (simp add: deafening_def)
next
  case False
  then have r: "sv_main S = Rearming" "ch_events (sv_accept S) = 0" "ch_lastEvents (sv_accept S) \<noteq> 0"
      "interest (sv_epoll S) (ch_fd (sv_accept S)) \<noteq> None" "ctl_fails (sv_epoll S) = []"
    using assms(2) by (simp_all add: deafening_def)
  from assms(1) show ?thesis
  proof cases
    case (rearm ch ep)
    then have "ch_fd ch = ch_fd (sv_accept S)" "interest ep (ch_fd (sv_accept S)) = Some 0"
      using r by (auto simp: epoll_mod_def EqualAndUpdateLastEvents_def epoll_ctl_def Let_def)
    then show ?thesis
      using rearm by (simp add: deafening_def deaf_def)
  qed (use r in \<open>simp_all add: deafening_def on_thread_def\<close>)
qed

lemma deafening_steps: "server_steps env S S' \<Longrightarrow> deafening S \<Longrightarrow> deafening S' \<and> sv_backlog S \<le> sv_backlog S'"
  unfolding server_steps_def
proof (induction rule: rtranclp_induct)
  case (step T U)
  then show ?case
    using deafening_step [of env T U] by auto
qed simp

text \<open>
  C39: when a descriptor that was just accepted cannot be made non-blocking (the first argument of
  \<open>hand_over\<close>), the handler returns before it arms the accept channel again: whatever happens from
  then on, the server accepts no connection and none leaves the backlog.
\<close>

theorem accept_failure_deafens:
  assumes "sv_main S = Taking fd k" "fd < MAXFDS" "ch_events (sv_accept S) = 0" "ch_lastEvents (sv_accept S) \<noteq> 0"
    and "interest (sv_epoll S) (ch_fd (sv_accept S)) \<noteq> None" "ctl_fails (sv_epoll S) = []"
    and fails: "hand_over False raw s fd (loop_of S k) = (r, l')" "s = new_Session uuid stale1 stale2 raw_bytes sock"
    and S1: "S1 = on_thread k (phase_of S k, l')
      (S\<lparr>sv_main := (case r of Closed_it \<Rightarrow> Accepting | Returned \<Rightarrow> Rearming | Pushed \<Rightarrow> Waking k)\<rparr>)"
  shows "server_step env S S1 \<and>
    (\<forall>S2. server_steps env S1 S2 \<longrightarrow> sv_main S2 \<in> {Rearming, Main_polling} \<and> sv_backlog S1 \<le> sv_backlog S2)"
proof -
  have "r = Returned"
    using fails(1) assms(2) by (simp add: hand_over_def Let_def)
  then have "deafening S1"
    using assms(3-6) S1 by (simp add: deafening_def on_thread_def)
  then have "sv_main S2 \<in> {Rearming, Main_polling} \<and> sv_backlog S1 \<le> sv_backlog S2" if "server_steps env S1 S2" for S2
    using deafening_steps [OF that] by (auto simp: deafening_def deaf_def)
  then show ?thesis
    using take_conn [OF assms(1) fails, of env] S1 by simp
qed

theorem accept_failure_deafens_witness:
  "\<exists>S S1. server_steps plain_env (the (server_start [5, 6] 4)) S \<and> sv_main S = Taking 9 0 \<and> server_step plain_env S S1 \<and>
    \<not> (\<exists>S2. server_steps plain_env S1 S2 \<and> sv_main S2 = Accepting)"
proof -
  obtain S0 S where s: "server_start [5, 6] 4 = Some S0" "server_steps plain_env S0 S" "sv_main S = Taking 9 0"
    "ch_fd (sv_accept S) = 4" "interest (sv_epoll S) 4 = Some (EPOLLIN OR EPOLLET)" "ctl_fails (sv_epoll S) = []"
    "ch_lastEvents (sv_accept S) = EPOLLIN OR EPOLLET" "ch_events (sv_accept S) = 0"
    by (rule accept_one [where env = plain_env]) blast
  let ?s = "new_Session [] [] [] 0 \<lparr>avail = [], faults = []\<rparr>"
  obtain r l' where h: "hand_over False 0 ?s 9 (loop_of S 0) = (r, l')"
    by fastforce
  have "(9 :: nat) < MAXFDS" "ch_lastEvents (sv_accept S) \<noteq> 0" "interest (sv_epoll S) (ch_fd (sv_accept S)) \<noteq> None"
    using s by (simp_all add: MAXFDS_def epoll_bits)
  from accept_failure_deafens [OF s(3) this(1) s(8) this(2,3) s(6) h refl refl, of plain_env] obtain S1
    where "server_step plain_env S S1" "\<forall>S2. server_steps plain_env S1 S2 \<longrightarrow> sv_main S2 \<in> {Rearming, Main_polling}"
    by blast
  with s show ?thesis
    by (intro exI [of _ S] exI [of _ S1]) auto
qed

end
