(* ===== verification/Spec2Isabelle.thy ===== *)
theory Spec2Isabelle
  imports Client_Base64 Client_Sha1 Client_Recv Server_Frame Handshake Cjson_Typed Cjson_Minify Cjson_Compare Cjson_Arrays Cjson_Edit Async_Log Client_Program Server_Live
begin

text \<open>
  DogServer receives files over WebSocket.  A client program (\<^verbatim>\<open>src/bin/dog-client.cc\<close>) opens a
  connection, sends a file in masked text frames of at most 1000 bytes and then the message \<open>EOS\<close>; a
  server program (\<^verbatim>\<open>src/bin/dog-server.cc\<close>) accepts connections in one thread, hands each to the
  event loop of a thread of a pool, saves the messages and answers each with a small JSON text in a
  frame.  This library models that path from the bytes of a frame up to the interleaved threads, and
  the libraries it stands on: base64, SHA-1, JSON.

  \<^bold>\<open>How the code is modelled.\<close>  A C++ class is a record of its members, an enumeration a datatype, an
  \<open>unsigned char\<close> an 8 bit word, an \<open>unsigned int\<close> a 32 bit word with its wrap-around; a C array or a
  \<open>std::string\<close> is a byte list (theory \<open>Prelude\<close>).  An access outside an array, a null pointer that is
  followed, a double \<open>free\<close> or a signed overflow is \<open>None\<close>; an error the code handles is a value of its own (an
  \<open>ERROR_TYPE\<close>, an \<open>Inl\<close>, a null item).  So a property that ends in \<open>Some\<close> also says that the code stays
  inside its arrays.  What the operating system answers (the outcome of every \<open>read\<close>, \<open>write\<close>, \<open>fopen\<close>,
  \<open>epoll_ctl\<close> and allocation) is part of the state or an argument, and the properties quantify over it;
  what is left out of that is named at the end.
  \<open>double\<close>, \<open>strtod\<close> and \<open>sprintf\<close> are parameters of the JSON theories; theory \<open>Cjson_Double\<close>
  instantiates them with the integers.

  \<^bold>\<open>Codecs.\<close>  \<open>Base64_Ref\<close> states base64 over numbers of 24 bits and the contract of a codec, the locale
  \<open>base64_codec\<close>; \<open>Base64\<close> models \<^verbatim>\<open>src/src/base64.cc\<close> and interprets it (\<open>srv64\<close>), \<open>Client_Base64\<close>
  does the same (\<open>cli64\<close>) for \<open>websocket_base64_encode\<close> and \<open>websocket_base64_decode\<close> of
  \<^verbatim>\<open>src/src/websocket-client.cc\<close>, array by array, and shows where the decoder reads too far.
  \<open>Sha1_Spec\<close> states FIPS 180 and the contract of a streaming digest, \<open>sha1_stream\<close>; \<open>Sha1\<close>
  (\<^verbatim>\<open>src/src/sha1.cc\<close>, the class) and \<open>Client_Sha1\<close> (the C functions of the client) interpret it, as
  \<open>sha\<close> and \<open>ctx\<close>.

  \<^bold>\<open>Frames.\<close>  \<open>Ws_Frame\<close> lays out RFC 6455 frames and states what a sender and a receiver owe each
  other: the locales \<open>frame_sender\<close>, \<open>frame_receiver\<close> and their composition \<open>frame_link\<close>.
  \<open>Client_Frame\<close> and \<open>Client_Send\<close> model \<open>webSocket_enPackage\<close>, \<open>webSocket_dePackage\<close> and
  \<open>webSocket_send\<close>, \<open>Client_Recv\<close> \<open>webSocket_recv\<close>, which waits for a frame that has not arrived whole; \<open>Server_Frame\<close> models \<^verbatim>\<open>src/src/packet-buffer.h\<close> and the incremental parser
  \<open>readAndParsePacket\<close> and the writer \<open>sendResult\<close> of \<^verbatim>\<open>src/src/websocket-data.cc\<close>; \<open>Server_Safe\<close> shows
  the parser's invariant on arbitrary bytes, and the announced length from which it leaves its
  array.  The interpretations \<open>up\<close> and \<open>down\<close> at the end of this theory compose the two programs:
  what one sends the other receives.

  \<^bold>\<open>Handshake.\<close>  \<open>Http_Head\<close> models \<open>parseHead\<close>; \<open>Handshake\<close> models the request, the answer, the keys and
  the client's test of the answer on both sides, with the locale \<open>ws_acceptor\<close> for the accept key of RFC
  6455, and proves that the two programs come together.

  \<^bold>\<open>JSON.\<close>  \<open>Cjson_Data\<close> holds the items of \<^verbatim>\<open>src/src/cJSON.cc\<close> as trees with their constructors and
  queries.  \<open>Cjson_Print\<close> models the printer byte by byte over its growing buffer; \<open>Cjson_Text\<close> states the
  text of an item and proves that the printer refines it.  \<open>Cjson_Parse\<close> models the parser;
  \<open>Cjson_Parse_Safe\<close> shows that it ends and stays inside its arrays on every input, \<open>Cjson_Depth\<close> that
  its nesting limit holds, \<open>Cjson_Typed\<close> that every item it returns is well typed, \<open>Cjson_Roundtrip\<close> that it reads back what was printed.  \<open>Decimal\<close> has the
  texts of integers.
  \<open>Cjson_Minify\<close> models the removal of white space and comments in place, and shows that it turns
  the formatted print into the unformatted one.  \<open>Cjson_Duplicate\<close>, \<open>Cjson_Arrays\<close> and \<open>Cjson_Compare\<close>
  model deletion and duplication with the blocks of memory they give and take, the constructors of
  arrays (locale \<open>item_maker\<close>, interpreted on numbers, strings and duplicates), and comparison, which
  decides equality of JSON values.  \<open>Cjson_Links\<close> models the lists of items once more as the code keeps
  them, nodes of a heap linked in both directions, with the operations that edit them; \<open>Cjson_Edit\<close>
  proves that these refine the operations on lists.
  \<^bold>\<open>One connection.\<close>  \<open>Connection\<close> models the class \<open>WebSocketData\<close>: the handler of readable events with its
  state machine (head, start, data, finish, close, error), the write loop, the saved file.
  \<open>Connection_Inv\<close> proves its invariant over all sequences of events and failures.  \<open>Connection_Serve\<close> has
  the abstract service, a function over messages and read events, and the refinement, for every way the
  stream of frames is cut into pieces, frames in one piece and events without new bytes included.  An event
  that finds less than two bytes is answered as a message of its own; where none does, each message is
  saved and answered once, but for texts of three bytes, which are dropped.  \<open>Upload\<close> adds the messages
  of the client program and proves the transfer of a whole file.

  \<^bold>\<open>The client program.\<close>  \<open>Client_Program\<close> models the list of files and interleaves the sending threads
  with the polling one, with the server's closings and with failures of \<open>connect\<close>, \<open>send\<close> and
  \<open>epoll_wait\<close>.  In all runs a file is sent at most once, in the frames of its contents.  A further
  invariant ties the shared array \<open>thread_ids\<close> to where each thread is; a measure that some step always
  lowers shows that the end stays in reach.  The latter two rest on the pause after the creation of a thread
  and on one report for each closed connection, two flags of the step relation, and \<open>race_hangs\<close> and
  \<open>second_report_crashes\<close> show what happens without them.

  \<^bold>\<open>The server.\<close>  \<open>Channel\<close> models \<^verbatim>\<open>src/src/channel.h\<close> and the poller of \<^verbatim>\<open>src/src/cur-epoll.cc\<close>;
  \<open>Event_Loop\<close> models \<^verbatim>\<open>src/src/event-loop.cc\<close> with the connections it serves, one iteration at a time:
  poll, dispatch, pending functors.  \<open>Event_Loop_Inv\<close> has the invariant of a loop.  \<open>Server\<close> interleaves the
  accepting thread (\<^verbatim>\<open>src/src/server.cc\<close>, \<^verbatim>\<open>src/src/event-loop-thread-pool.cc\<close>), the loop threads and the
  outside world as a step relation; \<open>Server_Inv\<close> proves its invariant through the locale \<open>worker\<close>,
  interpreted as \<open>pool\<close> on the model's loops; \<open>Server_Live\<close> draws the properties of the whole: no
  connection shared or forgotten, a queued one polled, a closed one's loop free again, and what the error
  paths leave behind.

  \<^bold>\<open>Logging.\<close>  \<open>Log_Stream\<close> models how a line is built: the fixed buffer (\<^verbatim>\<open>src/src/fixed-buffer.h\<close>),
  the conversions of \<^verbatim>\<open>src/src/log-stream.cc\<close> and the lines of \<^verbatim>\<open>src/src/logging.cc\<close>.  \<open>Async_Log\<close> models
  \<^verbatim>\<open>src/src/async-logging.cc\<close> with the file it writes (\<^verbatim>\<open>src/src/log-file.cc\<close>, \<^verbatim>\<open>src/src/log-util.cc\<close>):
  the front ends that append lines under the lock and the thread that swaps the buffers and writes
  them are steps of a relation, in any order, over all results of the writes; its invariant says where every
  line is until something is lost: buffers dropped for want of speed, a write that fails, the end of the
  thread with something buffered.  While none of that happens and the log runs, a line appended is in
  the file after four steps of the thread, in its order.

  \<^bold>\<open>Bounds and fuel.\<close>  The functions of the parser take one unit of fuel per call;
  \<open>cJSON_ParseWithOpts\<close> starts them with a number that \<open>Cjson_Parse_Safe\<close> proves enough for every input.
  The loops over a stream (frame pieces, file blocks, digest blocks) recurse on what is left and need
  none.  The write loop of a connection recurses on the outcomes of the coming \<open>write\<close> calls: where they
  end before it does, the result is \<open>None\<close>, and the properties state how many outcomes are enough.  The nesting
  limit is 1000, as in the code; the lengths of frames are those of the code's fields, and each
  property names the length from which it fails.

  \<^bold>\<open>Not modelled.\<close>  The speech recogniser behind \<open>_ADD_ASR\<close>, which is not part of the repository and not compiled by
  default.  The wrappers around \<open>pthread\<close> (\<^verbatim>\<open>cur-thread.cc\<close>, \<^verbatim>\<open>condition.h\<close>, \<^verbatim>\<open>mutexlock.h\<close>,
  \<^verbatim>\<open>countdown-latch.cc\<close>): the steps of theory \<open>Server\<close> are the critical sections they guard.  Socket
  set-up (\<^verbatim>\<open>util.cc\<close>, the connecting side of \<^verbatim>\<open>websocket-client.cc\<close>), the start-up of the server
  program, which only configure the system calls.  Of the JSON library the choice of the
  memory functions; an allocation may fail by its place among the requests of a print (the first block,
  a larger one, the final one) and by its size.  What \<open>fwrite\<close> and \<open>fclose\<close> bring to the file a connection
  saves, whose results the code ignores: the model has what it gives to \<open>fwrite\<close>.  Failures of \<open>epoll_ctl\<close>
  for the accept channel and the wake-up channels.  The moment between the mark of a loop as idle and the
  \<open>close\<close> of the descriptor, which is off the poller by then.  In \<open>Cjson_Links\<close> names are values, so the
  memory of an item's old name is not followed.  The request of the client is a text; the array of 512
  bytes that holds it is checked by \<open>login_request\<close> alone.
\<close>

section \<open>Client to server and back\<close>

interpretation up: frame_link "client_send rand True" "\<lambda>b xs. client_op b \<and> sendable xs" True
  "srv_recv [0, 0, 0, 0]" "\<lambda>b key xs. b AND 0x70 = 0 \<and> key \<noteq> None" "2 ^ 31"
  by unfold_locales (auto simp: client_op_def)

interpretation down: frame_link
  "\<lambda>b xs. if b = 0x81 then map_option packet_out (sendResult_packet xs (new_Packet [0, 0, 0, 0])) else None"
  "\<lambda>b xs. b = 0x81 \<and> length xs < 65535" False
  client_recv "\<lambda>b key xs. package_type b \<noteq> None" "2 ^ 31 - 128"
  by unfold_locales (simp add: package_type_def Let_def)

end
